(* ===== verification/Py_Prelude.thy ===== *)
theory Py_Prelude
  imports Main "HOL-Library.AList" "HOL-Library.Sublist"
begin

text \<open>
  What the component theories share: the exceptions a Python function can leave with, results
  that are either an exception or a value, the loops that stop at the first exception, and
  Python's insertion-ordered \<^verbatim>\<open>dict\<close> as an association list with distinct keys.
  The operations of a dictionary are the interface \<open>py_dict\<close>; its laws are proved once for the
  association lists the model uses, and the facts about sequences of updates are proved inside
  the interface.
\<close>

named_theorems res_simps \<open>rewriting of the result combinators\<close>
named_theorems dict_simps \<open>lookups after dictionary updates\<close>

section \<open>Exceptions and results\<close>

text \<open>
  One constructor per exception class the tools raise or let pass, with the message the code
  builds. \<open>SystemExit\<close> is what \<^verbatim>\<open>exit\<close> and a failing argument parser raise; it is the only one
  that an \<^verbatim>\<open>except Exception\<close> clause lets through.
\<close>

datatype exn =
    KeyError string
  | ValueError string
  | TypeError string
  | AttributeError string
  | AssertionError
  | NotImplementedError
  | TimeoutError string
  | CalledProcessError "string list"
  | ApiException int string
  | RuntimeError string
  | OSError string
  | IndexError string
  | CloneError string
  | PlainException string
  | SystemExit int

fun is_exception :: "exn \<Rightarrow> bool" where
  "is_exception (SystemExit c) = False"
| "is_exception e = True"

type_synonym 'a res = "exn + 'a"

definition rbind :: "'a res \<Rightarrow> ('a \<Rightarrow> 'b res) \<Rightarrow> 'b res" where
  "rbind r k = (case r of Inl e \<Rightarrow> Inl e | Inr x \<Rightarrow> k x)"

lemma rbind_simps [simp, res_simps]:
  "rbind (Inl e) k = Inl e"
  "rbind (Inr x) k = k x"
  by (simp_all add: rbind_def)

lemma rbind_eq_Inr [res_simps]: "rbind r k = Inr y \<longleftrightarrow> (\<exists>x. r = Inr x \<and> k x = Inr y)"
  by (cases r) auto

lemma rbind_eq_Inl [res_simps]:
  "rbind r k = Inl e \<longleftrightarrow> r = Inl e \<or> (\<exists>x. r = Inr x \<and> k x = Inl e)"
  by (cases r) auto

lemma rbind_split:
  "P (rbind r k) \<longleftrightarrow> (\<forall>e. r = Inl e \<longrightarrow> P (Inl e)) \<and> (\<forall>x. r = Inr x \<longrightarrow> P (k x))"
  by (cases r) auto

text \<open>A \<^verbatim>\<open>for\<close> loop over a state: it stops at the first exception.\<close>

fun rfold :: "('a \<Rightarrow> 's \<Rightarrow> 's res) \<Rightarrow> 'a list \<Rightarrow> 's \<Rightarrow> 's res" where
  "rfold f [] s = Inr s"
| "rfold f (x # xs) s = rbind (f x s) (rfold f xs)"

lemma rfold_append:
  "rfold f (xs @ ys) s = rbind (rfold f xs s) (rfold f ys)"
  by (induction xs arbitrary: s) (auto simp: rbind_def split: sum.splits)

lemma rfold_inv:
  assumes "rfold f xs s = Inr t" and "I s"
    and "\<And>x s s'. x \<in> set xs \<Longrightarrow> I s \<Longrightarrow> f x s = Inr s' \<Longrightarrow> I s'"
  shows "I t"
  using assms
proof (induction xs arbitrary: s)
  case Nil
  then show ?case by simp
next
  case (Cons x xs)
  from Cons.prems(1) obtain s' where s': "f x s = Inr s'" "rfold f xs s' = Inr t"
    by (auto simp: rbind_eq_Inr)
  show ?case
    by (rule Cons.IH [OF s'(2)]) (use Cons.prems s' in auto)
qed

text \<open>A comprehension that collects results and stops at the first exception.\<close>

fun rmap :: "('a \<Rightarrow> 'b res) \<Rightarrow> 'a list \<Rightarrow> 'b list res" where
  "rmap f [] = Inr []"
| "rmap f (x # xs) = rbind (f x) (\<lambda>y. rbind (rmap f xs) (\<lambda>ys. Inr (y # ys)))"

lemma rmap_Inr_iff: "rmap f xs = Inr ys \<longleftrightarrow> list_all2 (\<lambda>x y. f x = Inr y) xs ys"
  by (induction xs arbitrary: ys) (auto simp: rbind_eq_Inr list_all2_Cons1)

lemma rmap_all_Inr: "(\<And>x. x \<in> set xs \<Longrightarrow> f x = Inr (g x)) \<Longrightarrow> rmap f xs = Inr (map g xs)"
  by (induction xs) auto

lemma rmap_Inl: "rmap f xs = Inl e \<Longrightarrow> \<exists>x \<in> set xs. f x = Inl e"
  by (induction xs) (auto simp: rbind_eq_Inl)

text \<open>\<^verbatim>\<open>d[k]\<close> on an optional value.\<close>

definition req :: "exn \<Rightarrow> 'a option \<Rightarrow> 'a res" where
  "req e x = (case x of None \<Rightarrow> Inl e | Some v \<Rightarrow> Inr v)"

lemma req_simps [simp, res_simps]:
  "req e None = Inl e"
  "req e (Some v) = Inr v"
  by (simp_all add: req_def)

lemma req_eq_Inr [simp]: "req e x = Inr v \<longleftrightarrow> x = Some v"
  by (cases x) auto

lemma req_eq_Inl [simp]: "req e x = Inl e' \<longleftrightarrow> x = None \<and> e' = e"
  by (cases x) auto

section \<open>Dictionaries\<close>

text \<open>
  A Python \<^verbatim>\<open>dict\<close> keeps the order of insertion and an assignment to a present key keeps
  the key's place. Association lists with \<open>AList.update\<close> behave the same way: the first
  binding of the key is replaced in place, a new key goes to the end.
\<close>

type_synonym ('k, 'v) dict = "('k \<times> 'v) list"

abbreviation dget :: "('k, 'v) dict \<Rightarrow> 'k \<Rightarrow> 'v option" where
  "dget \<equiv> map_of"

abbreviation dset :: "'k \<Rightarrow> 'v \<Rightarrow> ('k, 'v) dict \<Rightarrow> ('k, 'v) dict" where
  "dset \<equiv> AList.update"

abbreviation dkeys :: "('k, 'v) dict \<Rightarrow> 'k list" where
  "dkeys d \<equiv> map fst d"

definition wf_dict :: "('k, 'v) dict \<Rightarrow> bool" where
  "wf_dict d \<longleftrightarrow> distinct (dkeys d)"

text \<open>\<^verbatim>\<open>{**d, **e}\<close>, and \<^verbatim>\<open>d.update(**e)\<close>.\<close>

definition dmerge :: "('k, 'v) dict \<Rightarrow> ('k, 'v) dict \<Rightarrow> ('k, 'v) dict" where
  "dmerge d e = fold (\<lambda>(k, v). dset k v) e d"

locale py_dict =
  fixes empty :: "'d"
    and get :: "'d \<Rightarrow> 'k \<Rightarrow> 'v option"
    and put :: "'k \<Rightarrow> 'v \<Rightarrow> 'd \<Rightarrow> 'd"
    and keys :: "'d \<Rightarrow> 'k list"
    and inv :: "'d \<Rightarrow> bool"
  assumes get_empty: "get empty k = None"
    and get_put: "inv d \<Longrightarrow> get (put k v d) k' = (if k' = k then Some v else get d k')"
    and keys_empty: "keys empty = []"
    and keys_put: "inv d \<Longrightarrow> keys (put k v d) = (if k \<in> set (keys d) then keys d else keys d @ [k])"
    and keys_get: "inv d \<Longrightarrow> k \<in> set (keys d) \<longleftrightarrow> get d k \<noteq> None"
    and inv_empty: "inv empty"
    and inv_put: "inv d \<Longrightarrow> inv (put k v d)"
begin

abbreviation puts :: "('k \<times> 'v) list \<Rightarrow> 'd \<Rightarrow> 'd" where
  "puts kvs d \<equiv> fold (\<lambda>(k, v). put k v) kvs d"

lemma inv_puts: "inv d \<Longrightarrow> inv (puts kvs d)"
  by (induction kvs arbitrary: d) (auto simp: inv_put)

text \<open>The last assignment wins.\<close>

lemma get_puts:
  "inv d \<Longrightarrow> get (puts kvs d) k = (case map_of (rev kvs) k of Some v \<Rightarrow> Some v | None \<Rightarrow> get d k)"
proof (induction kvs arbitrary: d)
  case Nil
  then show ?case by simp
next
  case (Cons kv kvs)
  obtain a b where kv: "kv = (a, b)" by force
  show ?case
    using Cons.IH [of "put a b d"] Cons.prems
    by (simp add: kv inv_put get_put map_add_def split: option.splits)
qed

lemma set_keys_puts: "inv d \<Longrightarrow> set (keys (puts kvs d)) = set (keys d) \<union> fst ` set kvs"
proof (induction kvs arbitrary: d)
  case Nil
  then show ?case by simp
next
  case (Cons kv kvs)
  obtain a b where kv: "kv = (a, b)" by force
  show ?case
    using Cons.IH [of "put a b d"] Cons.prems by (auto simp: kv inv_put keys_put)
qed

text \<open>Keys already present keep their order; only new ones are appended.\<close>

lemma keys_puts_present:
  "inv d \<Longrightarrow> fst ` set kvs \<subseteq> set (keys d) \<Longrightarrow> keys (puts kvs d) = keys d"
proof (induction kvs arbitrary: d)
  case Nil
  then show ?case by simp
next
  case (Cons kv kvs)
  obtain a b where kv: "kv = (a, b)" by force
  have "keys (put a b d) = keys d" using Cons.prems by (simp add: kv keys_put)
  then show ?case
    using Cons.IH [of "put a b d"] Cons.prems by (simp add: kv inv_put)
qed

lemma keys_puts_fresh:
  "inv d \<Longrightarrow> distinct (map fst kvs) \<Longrightarrow> fst ` set kvs \<inter> set (keys d) = {}
   \<Longrightarrow> keys (puts kvs d) = keys d @ map fst kvs"
proof (induction kvs arbitrary: d)
  case Nil
  then show ?case by simp
next
  case (Cons kv kvs)
  obtain a b where kv: "kv = (a, b)" by force
  have k: "keys (put a b d) = keys d @ [a]" using Cons.prems by (simp add: kv keys_put)
  have "fst ` set kvs \<inter> set (keys (put a b d)) = {}" using Cons.prems k kv by auto
  then show ?case
    using Cons.IH [of "put a b d"] Cons.prems k by (simp add: kv inv_put)
qed

end

lemma dset_keys: "dkeys (dset k v d) = (if k \<in> set (dkeys d) then dkeys d else dkeys d @ [k])"
  by (induction d) auto

lemma dset_get [simp, dict_simps]: "dget (dset k v d) k' = (if k' = k then Some v else dget d k')"
  by (simp add: update_conv')

lemma wf_dict_dset [simp]: "wf_dict d \<Longrightarrow> wf_dict (dset k v d)"
  by (simp add: wf_dict_def dset_keys)

lemma dkeys_eq_set: "dkeys a = dkeys b \<Longrightarrow> fst ` set a = fst ` set b"
  by (metis set_map)

lemma dget_Some_of_key: "k \<in> fst ` set d \<Longrightarrow> \<exists>v. dget d k = Some v"
  by (metis map_of_eq_None_iff not_Some_eq)

lemma wf_dict_Nil [simp]: "wf_dict []"
  by (simp add: wf_dict_def)

interpretation pd: py_dict "[]" dget dset dkeys wf_dict
proof unfold_locales
  show "\<And>(d :: ('a, 'b) dict) k. k \<in> set (dkeys d) \<longleftrightarrow> dget d k \<noteq> None"
    by (force simp: map_of_eq_None_iff)
qed (auto simp: dset_keys)

lemma dmerge_get:
  "wf_dict d \<Longrightarrow> dget (dmerge d e) k = (case dget (rev e) k of Some v \<Rightarrow> Some v | None \<Rightarrow> dget d k)"
  unfolding dmerge_def by (rule pd.get_puts)

lemma map_of_rev_distinct: "distinct (map fst xs) \<Longrightarrow> map_of (rev xs) = map_of xs"
  by (metis distinct_rev map_of_eqI map_of_is_SomeI map_of_eq_None_iff rev_map set_map set_rev
      rev_rev_ident map_of_inject_set)

lemma dmerge_get_wf [dict_simps]:
  "wf_dict d \<Longrightarrow> wf_dict e \<Longrightarrow>
   dget (dmerge d e) k = (case dget e k of Some v \<Rightarrow> Some v | None \<Rightarrow> dget d k)"
  by (simp add: dmerge_get map_of_rev_distinct wf_dict_def)

lemma wf_dict_dmerge [simp]: "wf_dict d \<Longrightarrow> wf_dict (dmerge d e)"
  unfolding dmerge_def by (rule pd.inv_puts)

lemma dmerge_Nil [simp]: "dmerge d [] = d"
  by (simp add: dmerge_def)

lemma map_of_map_key: "map_of (map (\<lambda>(k, v). (k, f k v)) xs) k = map_option (f k) (map_of xs k)"
  by (induction xs) auto

lemma dkeys_map_key [simp]: "dkeys (map (\<lambda>(k, v). (k, f k v)) xs) = dkeys xs"
  by (induction xs) auto

text \<open>Merging a dictionary with fresh keys appends it.\<close>

lemma dset_fresh: "k \<notin> fst ` set d \<Longrightarrow> dset k v d = d @ [(k, v)]"
  by (induction d) auto

lemma dmerge_fresh: "wf_dict (d @ e) \<Longrightarrow> dmerge d e = d @ e"
proof (induction e arbitrary: d)
  case Nil
  then show ?case by simp
next
  case (Cons kv e)
  obtain k v where kv: "kv = (k, v)" by force
  have "k \<notin> fst ` set d" using Cons.prems by (auto simp: kv wf_dict_def)
  then have "dmerge d (kv # e) = dmerge (d @ [(k, v)]) e"
    by (simp add: dmerge_def kv dset_fresh)
  also have "\<dots> = d @ kv # e" using Cons.IH [of "d @ [kv]"] Cons.prems by (simp add: kv)
  finally show ?case .
qed

lemma dmerge_Nil_left: "wf_dict e \<Longrightarrow> dmerge [] e = e"
  using dmerge_fresh [of "[]" e] by simp

section \<open>Generators\<close>

text \<open>
  A generator whose body does not depend on its consumer is the list of the items it yields
  and the exception it ends with, if any.
\<close>

fun generate :: "('c \<Rightarrow> 'i res) \<Rightarrow> 'c list \<Rightarrow> 'i list \<times> exn option" where
  "generate f [] = ([], None)"
| "generate f (c # cs) = (case f c of
     Inl x \<Rightarrow> ([], Some x)
   | Inr i \<Rightarrow> (i # fst (generate f cs), snd (generate f cs)))"

lemma generate_None: "generate f cs = (is, None) \<longleftrightarrow> rmap f cs = Inr is"
  by (induction cs arbitrary: "is") (auto simp: rbind_eq_Inr prod_eq_iff split: sum.splits)

lemma generate_prefix:
  "\<exists>n. rmap f (take n cs) = Inr (fst (generate f cs)) \<and>
     (case snd (generate f cs) of None \<Rightarrow> n = length cs
      | Some x \<Rightarrow> n < length cs \<and> f (cs ! n) = Inl x)"
proof (induction cs)
  case Nil
  then show ?case by simp
next
  case (Cons c cs)
  then obtain n where n: "rmap f (take n cs) = Inr (fst (generate f cs))"
    "case snd (generate f cs) of None \<Rightarrow> n = length cs
      | Some x \<Rightarrow> n < length cs \<and> f (cs ! n) = Inl x" by blast
  show ?case
  proof (cases "f c")
    case (Inl x)
    then show ?thesis by (intro exI [of _ 0]) simp
  next
    case (Inr i)
    with n show ?thesis by (intro exI [of _ "Suc n"]) (simp split: option.splits)
  qed
qed

lemma generate_mem: "i \<in> set (fst (generate f cs)) \<Longrightarrow> \<exists>c \<in> set cs. f c = Inr i"
  by (induction cs) (auto split: sum.splits)

lemma generate_map:
  "generate (\<lambda>c. map_sum id g (f c)) cs = (map g (fst (generate f cs)), snd (generate f cs))"
  by (induction cs) (simp_all split: sum.splits)

lemma generate_cong: "(\<And>c. c \<in> set cs \<Longrightarrow> f c = g c) \<Longrightarrow> generate f cs = generate g cs"
  by (induction cs) (simp_all split: sum.splits)

section \<open>Lists updated in one place\<close>

text \<open>What the transition systems share: one element changes, counts and sums change with it.\<close>

lemma filter_update_length:
  "i < length xs \<Longrightarrow> length (filter P (xs[i := y])) + (if P (xs ! i) then 1 else 0) =
     length (filter P xs) + (if P y then 1 else 0)"
proof (induction xs arbitrary: i)
  case (Cons x xs)
  then show ?case by (cases i) auto
qed simp

lemma sum_update_less:
  "i < length xs \<Longrightarrow> (f y :: nat) < f (xs ! i) \<Longrightarrow> sum_list (map f (xs[i := y])) < sum_list (map f xs)"
proof (induction xs arbitrary: i)
  case (Cons x xs)
  then show ?case by (cases i) auto
qed simp

section \<open>Transition systems that use something up\<close>

text \<open>
  The threads of the tools are transition systems. When every step uses up some of a natural number a
  run has at most that many steps, and every state has a run to one that cannot go on.
\<close>

locale shrinking =
  fixes step :: "'s \<Rightarrow> 's \<Rightarrow> bool" and weight :: "'s \<Rightarrow> nat"
  assumes decreases: "step s t \<Longrightarrow> weight t < weight s"
begin

lemma steps_bound: "(step ^^ n) s t \<Longrightarrow> n + weight t \<le> weight s"
proof (induction n arbitrary: t)
  case (Suc n)
  then obtain u where "(step ^^ n) s u" "step u t" by auto
  with Suc.IH [of u] decreases [of u t] show ?case by simp
qed simp

lemma some_end: "\<exists>t. step\<^sup>*\<^sup>* s t \<and> (\<nexists>u. step t u)"
proof (induction "weight s" arbitrary: s rule: less_induct)
  case less
  show ?case
  proof (cases "\<exists>u. step s u")
    case True
    then obtain u where u: "step s u" by blast
    from less [OF decreases [OF u]] u show ?thesis by (meson converse_rtranclp_into_rtranclp)
  qed auto
qed

text \<open>When only final states cannot go on every state has a run to a final one.\<close>

lemma reaches: "(\<And>t. \<not> final t \<Longrightarrow> \<exists>u. step t u) \<Longrightarrow> \<exists>t. step\<^sup>*\<^sup>* s t \<and> final t"
  using some_end [of s] by blast

end

end
