(* ===== verification/Py_Str.thy ===== *)
theory Py_Str
  imports Py_Prelude "HOL-Library.Char_ord" "HOL-Library.List_Lexorder"
begin

text \<open>
  The parts of Python's \<^verbatim>\<open>str\<close> and \<^verbatim>\<open>int\<close> the tools use: decimal text of an integer and
  its parser, \<^verbatim>\<open>split\<close>, \<^verbatim>\<open>join\<close>, \<^verbatim>\<open>in\<close>, \<^verbatim>\<open>strip\<close> and a one-character \<^verbatim>\<open>replace\<close>.
  A string is a list of code points below 256 (\<open>char\<close>).
\<close>

named_theorems str_simps \<open>evaluation of the string functions\<close>

section \<open>Decimal text of integers\<close>

definition digit_char :: "nat \<Rightarrow> char" where
  "digit_char d = char_of (48 + d)"

definition is_digit :: "char \<Rightarrow> bool" where
  "is_digit c \<longleftrightarrow> 48 \<le> (of_char c :: nat) \<and> (of_char c :: nat) \<le> 57"

definition digit_val :: "char \<Rightarrow> nat" where
  "digit_val c = of_char c - 48"

fun show_nat :: "nat \<Rightarrow> string" where
  "show_nat n = (if n < 10 then [digit_char n] else show_nat (n div 10) @ [digit_char (n mod 10)])"

declare show_nat.simps [simp del]

lemma digit_char_table [str_simps]:
  "digit_char 0 = CHR ''0''" "digit_char 1 = CHR ''1''" "digit_char (Suc 0) = CHR ''1''"
  "digit_char 2 = CHR ''2''" "digit_char 3 = CHR ''3''" "digit_char 4 = CHR ''4''"
  "digit_char 5 = CHR ''5''" "digit_char 6 = CHR ''6''" "digit_char 7 = CHR ''7''"
  "digit_char 8 = CHR ''8''" "digit_char 9 = CHR ''9''"
  by code_simp+

lemma show_nat_literal [str_simps]:
  "show_nat 0 = ''0''" "show_nat (Suc 0) = ''1''" "show_nat 1 = ''1''"
  "show_nat (numeral k) = (if numeral k < (10::nat) then [digit_char (numeral k)]
     else show_nat (numeral k div 10) @ [digit_char (numeral k mod 10)])"
  by (simp_all add: show_nat.simps digit_char_table)

definition show_int :: "int \<Rightarrow> string" where
  "show_int i = (if i < 0 then CHR ''-'' # show_nat (nat (- i)) else show_nat (nat i))"

lemma show_int_literal [str_simps]:
  "show_int 0 = ''0''" "show_int 1 = ''1''" "show_int (numeral k) = show_nat (numeral k)"
  "show_int (- numeral k) = CHR ''-'' # show_nat (numeral k)"
  by (simp_all add: show_int_def str_simps)

text \<open>The value of a string of digits, left to right.\<close>

definition digits_val :: "string \<Rightarrow> nat" where
  "digits_val s = foldl (\<lambda>n c. 10 * n + digit_val c) 0 s"

text \<open>
  \<^verbatim>\<open>int(s)\<close> on a decimal literal with an optional sign and surrounding white space
  (Python's digit separators \<^verbatim>\<open>_\<close> are not accepted here).
\<close>

definition is_space :: "char \<Rightarrow> bool" where
  "is_space c \<longleftrightarrow> (of_char c :: nat) \<in> {9, 10, 11, 12, 13, 28, 29, 30, 31, 32, 133, 160}"

definition strip :: "string \<Rightarrow> string" where
  "strip s = rev (dropWhile is_space (rev (dropWhile is_space s)))"

definition nat_of_str :: "string \<Rightarrow> nat option" where
  "nat_of_str s = (if s \<noteq> [] \<and> list_all is_digit s then Some (digits_val s) else None)"

definition int_of_str :: "string \<Rightarrow> int option" where
  "int_of_str s = (case strip s of
     [] \<Rightarrow> None
   | c # cs \<Rightarrow>
       if c = CHR ''-'' then map_option (\<lambda>n. - int n) (nat_of_str cs)
       else if c = CHR ''+'' then map_option int (nat_of_str cs)
       else map_option int (nat_of_str (c # cs)))"

lemma digit_char_props [simp]:
  assumes "d < 10"
  shows "is_digit (digit_char d)" and "digit_val (digit_char d) = d"
    and "\<not> is_space (digit_char d)" and "digit_char d \<noteq> CHR ''-''" and "digit_char d \<noteq> CHR ''+''"
proof -
  have o: "(of_char (digit_char d) :: nat) = 48 + d"
    using assms by (simp add: digit_char_def)
  show "is_digit (digit_char d)" and "digit_val (digit_char d) = d" and "\<not> is_space (digit_char d)"
    using o assms by (simp_all add: is_digit_def digit_val_def is_space_def)
  show "digit_char d \<noteq> CHR ''-''" and "digit_char d \<noteq> CHR ''+''"
    using o by auto
qed

lemma digits_val_snoc: "digits_val (s @ [c]) = 10 * digits_val s + digit_val c"
  by (simp add: digits_val_def)

lemma show_nat_props:
  "show_nat n \<noteq> [] \<and> list_all is_digit (show_nat n) \<and> digits_val (show_nat n) = n"
proof (induction n rule: show_nat.induct)
  case (1 n)
  show ?case
  proof (cases "n < 10")
    case True
    then show ?thesis by (simp add: show_nat.simps [of n] digits_val_def)
  next
    case False
    with 1 show ?thesis
      by (simp add: show_nat.simps [of n] digits_val_snoc)
  qed
qed

lemma nat_of_str_show_nat [simp]: "nat_of_str (show_nat n) = Some n"
  using show_nat_props [of n] by (simp add: nat_of_str_def)

lemma is_digit_not_special:
  "is_digit c \<Longrightarrow> \<not> is_space c \<and> c \<noteq> CHR ''-'' \<and> c \<noteq> CHR ''+'' \<and> c \<noteq> CHR '':'' \<and> c \<noteq> CHR '',''"
  by (auto simp: is_digit_def is_space_def)

lemma strip_id: "s \<noteq> [] \<Longrightarrow> \<not> is_space (hd s) \<Longrightarrow> \<not> is_space (last s) \<Longrightarrow> strip s = s"
proof -
  assume s: "s \<noteq> []" "\<not> is_space (hd s)" "\<not> is_space (last s)"
  then have "dropWhile is_space s = s" and "dropWhile is_space (rev s) = rev s"
    by (simp_all add: dropWhile_eq_self_iff hd_rev)
  then show ?thesis by (simp add: strip_def)
qed

lemma show_nat_digits: "c \<in> set (show_nat n) \<Longrightarrow> is_digit c"
  using show_nat_props [of n] by (auto simp: list_all_iff)

lemma show_int_chars: "c \<in> set (show_int i) \<Longrightarrow> is_digit c \<or> c = CHR ''-''"
  by (auto simp: show_int_def dest: show_nat_digits split: if_splits)

lemma show_int_nonempty [simp]: "show_int i \<noteq> []"
  using show_nat_props by (auto simp: show_int_def)

lemma strip_show_int [simp]: "strip (show_int i) = show_int i"
proof (rule strip_id)
  have "\<And>c. c \<in> set (show_int i) \<Longrightarrow> \<not> is_space c"
    using show_int_chars is_digit_not_special by (fastforce simp: is_space_def)
  then show "\<not> is_space (hd (show_int i))" and "\<not> is_space (last (show_int i))"
    by simp_all
qed simp

text \<open>Printing an integer and reading it back gives the integer.\<close>

lemma int_of_str_show_int [simp]: "int_of_str (show_int i) = Some i"
proof (cases "i < 0")
  case True
  have "int_of_str (show_int i) = map_option (\<lambda>n. - int n) (nat_of_str (show_nat (nat (- i))))"
    unfolding int_of_str_def strip_show_int using True by (simp add: show_int_def)
  with True show ?thesis by simp
next
  case False
  obtain c cs where s: "show_nat (nat i) = c # cs"
    using show_nat_props by (cases "show_nat (nat i)") auto
  have c: "c \<noteq> CHR ''-''" "c \<noteq> CHR ''+''"
    using show_nat_digits [of c "nat i"] s is_digit_not_special by auto
  have "int_of_str (show_int i) = map_option int (nat_of_str (show_nat (nat i)))"
    unfolding int_of_str_def strip_show_int using False c by (simp add: show_int_def s)
  with False show ?thesis by simp
qed

lemma show_int_inj [simp]: "show_int i = show_int j \<longleftrightarrow> i = j"
  by (metis int_of_str_show_int option.inject)

section \<open>Substrings, splitting and joining\<close>

text \<open>\<^verbatim>\<open>sub in s\<close>.\<close>

definition str_in :: "string \<Rightarrow> string \<Rightarrow> bool" where
  "str_in sub s \<longleftrightarrow> list_ex (prefix sub) (suffixes s)"

text \<open>
  \<^verbatim>\<open>s.split(sep)\<close> with a non-empty separator: cut at the leftmost occurrences that do not
  overlap. The separator is never empty where the code splits; the function is total anyway.
\<close>

function split :: "string \<Rightarrow> string \<Rightarrow> string list" where
  "split sep s =
     (if s = [] \<or> sep = [] then [s]
      else if prefix sep s then [] # split sep (drop (length sep) s)
      else case split sep (tl s) of [] \<Rightarrow> [s] | p # ps \<Rightarrow> (hd s # p) # ps)"
  by pat_completeness auto
termination
  by (relation "measure (\<lambda>(sep, s). length s)") auto

declare split.simps [simp del]

text \<open>\<^verbatim>\<open>sep.join(xs)\<close>.\<close>

fun join :: "string \<Rightarrow> string list \<Rightarrow> string" where
  "join sep [] = []"
| "join sep [x] = x"
| "join sep (x # y # zs) = x @ sep @ join sep (y # zs)"

text \<open>\<^verbatim>\<open>s.replace(c, new)\<close> for a one-character pattern.\<close>

definition replace_char :: "char \<Rightarrow> string \<Rightarrow> string \<Rightarrow> string" where
  "replace_char c new s = concat (map (\<lambda>x. if x = c then new else [x]) s)"

lemma str_in_iff_sublist: "str_in sub s \<longleftrightarrow> sublist sub s"
  by (simp add: str_in_def list_ex_iff sublist_altdef' Bex_def)

lemma join_Cons: "join sep (x # xs) = (if xs = [] then x else x @ sep @ join sep xs)"
  by (cases xs) auto

lemma join_chars: "c \<in> set (join sep xs) \<Longrightarrow> c \<in> set sep \<or> (\<exists>x \<in> set xs. c \<in> set x)"
  by (induction xs) (auto simp: join_Cons split: if_splits)

lemma split_nonempty [simp]: "split sep s \<noteq> []"
  by (subst split.simps) (auto split: list.splits)

lemma split_Nil [str_simps]: "sep \<noteq> [] \<Longrightarrow> split sep [] = [[]]"
  by (subst split.simps) simp

lemma split_char_Cons [str_simps]:
  "split [c] (x # s) = (if x = c then [] # split [c] s else (x # hd (split [c] s)) # tl (split [c] s))"
  by (subst split.simps) (auto split: list.splits)

lemma split_sep: "sep \<noteq> [] \<Longrightarrow> split sep (sep @ s) = [] # split sep s"
  by (subst split.simps) auto

lemma split_step:
  assumes "sep \<noteq> []" and "\<not> prefix sep (c # s)"
  shows "split sep (c # s) = (c # hd (split sep s)) # tl (split sep s)"
  using assms by (subst split.simps) (auto split: list.splits)

text \<open>Joining the pieces gives the string back.\<close>

lemma join_split: "sep \<noteq> [] \<Longrightarrow> join sep (split sep s) = s"
proof (induction sep s rule: split.induct)
  case (1 sep s)
  consider "s = []" | "s \<noteq> []" "prefix sep s" | "s \<noteq> []" "\<not> prefix sep s" by blast
  then show ?case
  proof cases
    case 1
    then show ?thesis by (simp add: split.simps)
  next
    case 2
    then obtain t where s: "s = sep @ t" by (auto simp: prefix_def)
    have "join sep (split sep t) = t"
      using "1.IH"(1) "1.prems" 2 s by simp
    then show ?thesis using "1.prems" by (simp add: s split_sep join_Cons)
  next
    case 3
    then obtain c t where s: "s = c # t" by (cases s) auto
    have IH: "join sep (split sep t) = t"
      using "1.IH"(2) "1.prems" 3 s by simp
    obtain p ps where p: "split sep t = p # ps" by (cases "split sep t") auto
    have "join sep ((c # p) # ps) = c # t" using IH p by (auto simp: join_Cons)
    then show ?thesis using 3 "1.prems" by (simp add: s split_step p)
  qed
qed

text \<open>A separator that does not occur leaves the string whole; one that occurs cuts it.\<close>

lemma split_absent: "sep \<noteq> [] \<Longrightarrow> \<not> sublist sep s \<Longrightarrow> split sep s = [s]"
proof (induction s)
  case Nil
  then show ?case by (simp add: split.simps)
next
  case (Cons c s)
  have "\<not> prefix sep (c # s)" and "\<not> sublist sep s"
    using Cons.prems by (auto simp: sublist_Cons_right)
  then show ?case using Cons by (simp add: split_step)
qed

lemma split_char_append:
  "c \<notin> set a \<Longrightarrow> split [c] (a @ c # b) = a # split [c] b"
proof (induction a)
  case Nil
  then show ?case using split_sep [of "[c]" b] by simp
next
  case (Cons x a)
  then show ?case by (subst append_Cons, subst split_step) auto
qed

lemma split_char_absent: "c \<notin> set s \<Longrightarrow> split [c] s = [s]"
proof (rule split_absent)
  assume "c \<notin> set s"
  then show "\<not> sublist [c] s" by (auto simp: sublist_def)
qed simp

lemma length_split_char: "length (split [c] s) = Suc (count_list s c)"
proof (induction s)
  case Nil
  then show ?case by (simp add: split.simps)
next
  case (Cons x s)
  show ?case
  proof (cases "x = c")
    case True
    then show ?thesis using split_sep [of "[c]" s] Cons by simp
  next
    case False
    then have "split [c] (x # s) = (x # hd (split [c] s)) # tl (split [c] s)"
      by (intro split_step) auto
    moreover have "length (split [c] s) > 0" by simp
    ultimately show ?thesis using Cons False by simp
  qed
qed

lemma split_join:
  "xs \<noteq> [] \<Longrightarrow> \<forall>x \<in> set xs. c \<notin> set x \<Longrightarrow> split [c] (join [c] xs) = xs"
proof (induction xs)
  case Nil
  then show ?case by simp
next
  case (Cons x xs)
  then show ?case
    by (cases xs) (simp_all add: split_char_absent split_char_append join_Cons)
qed

lemma replace_char_absent: "c \<notin> set s \<Longrightarrow> replace_char c new s = s"
  by (induction s) (auto simp: replace_char_def)

lemma replace_char_append: "replace_char c new (s @ t) = replace_char c new s @ replace_char c new t"
  by (simp add: replace_char_def)

end
