(* ===== verification/Py_Value.thy ===== *)
theory Py_Value
  imports Py_Str Complex_Main
begin

text \<open>
  The Python values that flow through the tools: strings, integers, floats, booleans and
  \<^verbatim>\<open>None\<close> (\<^verbatim>\<open>ParameterValue | None\<close> in \<^verbatim>\<open>experiment.py\<close>), with \<^verbatim>\<open>str()\<close>, \<^verbatim>\<open>==\<close> and truth.
  A float is a finite IEEE double, given by its exact rational value; the text of a float is
  the shortest decimal that reads back as the same double, as CPython's \<^verbatim>\<open>repr\<close> prints it.
  Infinities, NaN and the negative zero are outside the model.
\<close>

section \<open>Doubles\<close>

function ilog :: "int \<Rightarrow> int \<Rightarrow> nat" where
  "ilog b m = (if b < 2 \<or> m < b then 0 else Suc (ilog b (m div b)))"
  by pat_completeness auto
termination
proof (relation "measure (\<lambda>(b, m). nat m)")
  fix b m :: int
  assume "\<not> (b < 2 \<or> m < b)"
  then have "m div b < m" and "0 < m" by (simp_all add: int_div_less_self)
  then show "((b, m div b), (b, m)) \<in> measure (\<lambda>(b, m). nat m)" by simp
qed simp

declare ilog.simps [simp del]

text \<open>The greatest \<open>e\<close> with \<open>b ^ e \<le> n / d\<close>, for positive \<open>n\<close> and \<open>d\<close>.\<close>

definition floor_log :: "int \<Rightarrow> int \<Rightarrow> int \<Rightarrow> int" where
  "floor_log b n d = (if d \<le> n then int (ilog b (n div d))
     else - int (Suc (ilog b ((d + n - 1) div n - 1))))"

text \<open>\<open>n / d\<close> rounded to the nearest integer, ties to even.\<close>

definition round_even :: "int \<Rightarrow> int \<Rightarrow> int" where
  "round_even n d = (let q = n div d; r = n mod d
     in if 2 * r < d \<or> (2 * r = d \<and> even q) then q else q + 1)"

text \<open>The fraction \<open>n / d\<close> divided by \<open>b ^ e\<close>.\<close>

definition scale_down :: "int \<Rightarrow> int \<Rightarrow> int \<times> int \<Rightarrow> int \<times> int" where
  "scale_down b e nd = (if 0 \<le> e then (fst nd, snd nd * b ^ nat e) else (fst nd * b ^ nat (- e), snd nd))"

definition pow_rat :: "int \<Rightarrow> int \<Rightarrow> rat" where
  "pow_rat b e = (if 0 \<le> e then of_int (b ^ nat e) else 1 / of_int (b ^ nat (- e)))"

definition num_den :: "rat \<Rightarrow> int \<times> int" where
  "num_den q = (case quotient_of q of (n, d) \<Rightarrow> (\<bar>n\<bar>, d))"

text \<open>The double nearest to a rational: 53 significant bits, subnormals from \<open>2 ^ -1074\<close>. The exponent is
  not bounded above: where a value may reach \<open>2 ^ 1024\<close> the caller makes it infinite (\<open>to_double\<close> in \<open>Bench_Logs\<close>).\<close>

definition round_double :: "rat \<Rightarrow> rat" where
  "round_double q = (if q = 0 then 0 else
     let nd = num_den q;
         e = max (floor_log 2 (fst nd) (snd nd) - 52) (- 1074);
         s = scale_down 2 e nd;
         m = of_int (round_even (fst s) (snd s)) * pow_rat 2 e
     in if q < 0 then - m else m)"

definition is_double :: "rat \<Rightarrow> bool" where
  "is_double q \<longleftrightarrow> round_double q = q"

text \<open>Integers below \<open>2 ^ 53\<close> are doubles.\<close>

lemma ilog_bounds: "1 \<le> m \<Longrightarrow> 2 ^ ilog 2 m \<le> m \<and> m < 2 ^ Suc (ilog 2 m)"
proof (induction "2 :: int" m rule: ilog.induct)
  case (1 m)
  show ?case
  proof (cases "m < 2")
    case True
    then have "m = 1" using 1 by simp
    then show ?thesis by (simp add: ilog.simps)
  next
    case False
    then have "2 ^ ilog 2 (m div 2) \<le> m div 2 \<and> m div 2 < 2 ^ Suc (ilog 2 (m div 2))"
      using 1 by simp
    moreover have "ilog 2 m = Suc (ilog 2 (m div 2))" using False by (subst ilog.simps) simp
    ultimately show ?thesis by simp linarith
  qed
qed

lemma round_even_1 [simp]: "round_even n 1 = n"
  by (simp add: round_even_def Let_def)

lemma num_den_int: "num_den (of_int m) = (\<bar>m\<bar>, 1)"
  by (simp add: num_den_def)

lemma scale_int:
  assumes "E \<le> 0"
  shows "of_int (round_even (fst (scale_down 2 E (m, 1))) (snd (scale_down 2 E (m, 1)))) * pow_rat 2 E = of_int m"
  using assms by (simp add: scale_down_def pow_rat_def)

lemma round_double_int:
  assumes "\<bar>m\<bar> < 2 ^ 53"
  shows "round_double (of_int m) = of_int m"
proof (cases "m = 0")
  case True
  then show ?thesis by (simp add: round_double_def)
next
  case False
  let ?E = "max (floor_log 2 \<bar>m\<bar> 1 - 52) (- 1074)"
  have "2 ^ ilog 2 \<bar>m\<bar> \<le> \<bar>m\<bar>" using ilog_bounds [of "\<bar>m\<bar>"] False by simp
  with assms have "(2 :: int) ^ ilog 2 \<bar>m\<bar> < 2 ^ 53" by linarith
  then have "ilog 2 \<bar>m\<bar> < 53" by (simp only: power_strict_increasing_iff)
  then have "?E \<le> 0" using False by (simp add: floor_log_def)
  from scale_int [OF this, of "\<bar>m\<bar>"] False show ?thesis
    by (cases "m < 0") (simp_all add: round_double_def Let_def num_den_int)
qed

lemma round_double_nat: "n < 2 ^ 53 \<Longrightarrow> round_double (of_nat n) = of_nat n"
  using round_double_int [of "int n"] by simp

subsection \<open>The error of rounding\<close>

lemma round_even_near:
  assumes "0 < d"
  shows "\<bar>of_int (round_even n d) - of_int n / (of_int d :: rat)\<bar> \<le> 1 / 2"
proof -
  define q r where "q = n div d" and "r = n mod d"
  have n: "n = q * d + r" and r: "0 \<le> r" "r < d" using assms by (simp_all add: q_def r_def)
  have e: "of_int n / (of_int d :: rat) = of_int q + of_int r / of_int d"
    using assms by (simp add: n field_simps)
  show ?thesis
  proof (cases "2 * r < d \<or> 2 * r = d \<and> even q")
    case True
    then have "2 * r \<le> d" by auto
    then have "(of_int (2 * r) :: rat) \<le> of_int d" by (simp only: of_int_le_iff)
    then have "(of_int r :: rat) / of_int d \<le> 1 / 2" using assms by (simp add: field_simps)
    moreover have "0 \<le> (of_int r :: rat) / of_int d" using assms r by simp
    moreover have "round_even n d = q" using True by (simp add: round_even_def Let_def q_def r_def)
    ultimately show ?thesis by (simp add: e)
  next
    case False
    then have "d \<le> 2 * r" by auto
    then have "(of_int d :: rat) \<le> of_int (2 * r)" by (simp only: of_int_le_iff)
    then have "1 / 2 \<le> (of_int r :: rat) / of_int d" using assms by (simp add: field_simps)
    moreover have "(of_int r :: rat) / of_int d \<le> 1" using assms r by simp
    moreover have "round_even n d = q + 1" using False by (simp add: round_even_def Let_def q_def r_def)
    ultimately show ?thesis by (simp add: e)
  qed
qed

lemma round_even_ge: "0 < d \<Longrightarrow> k * d \<le> n \<Longrightarrow> k \<le> round_even n d"
proof -
  assume "0 < d" "k * d \<le> n"
  then have "k \<le> n div d" using zdiv_mono1 [of "k * d" n d] by simp
  then show ?thesis by (auto simp: round_even_def Let_def)
qed

lemma pow_rat_pos [simp]: "1 < b \<Longrightarrow> 0 < pow_rat b e"
  by (simp add: pow_rat_def)

lemma pow_rat_power_int: "1 < b \<Longrightarrow> pow_rat b e = of_int b powi e"
  by (simp add: pow_rat_def power_int_def inverse_eq_divide power_one_over)

text \<open>\<open>floor_log\<close> is what it says.\<close>

lemma floor_log_bounds:
  assumes "0 < n" and "0 < d"
  shows "pow_rat 2 (floor_log 2 n d) \<le> of_int n / of_int d \<and> of_int n / of_int d < pow_rat 2 (floor_log 2 n d + 1)"
proof (cases "d \<le> n")
  case True
  let ?k = "ilog 2 (n div d)"
  have m: "1 \<le> n div d" using True assms by (simp add: pos_imp_zdiv_pos_iff int_one_le_iff_zero_less)
  from ilog_bounds [OF m] have b: "2 ^ ?k \<le> n div d" "n div d + 1 \<le> 2 ^ Suc ?k" by auto
  have "2 ^ ?k * d \<le> n div d * d" using b(1) assms by (intro mult_right_mono) auto
  also have "\<dots> \<le> n" using assms by (simp add: minus_mod_eq_div_mult [symmetric])
  finally have lo: "(of_int (2 ^ ?k * d) :: rat) \<le> of_int n" by (simp only: of_int_le_iff)
  have "n < (n div d + 1) * d" using pos_mod_bound [OF assms(2), of n] div_mult_mod_eq [of n d] unfolding distrib_right by linarith
  also have "\<dots> \<le> 2 ^ Suc ?k * d" using b(2) assms by (intro mult_right_mono) auto
  finally have hi: "(of_int n :: rat) < of_int (2 ^ Suc ?k * d)" by (simp only: of_int_less_iff)
  have "floor_log 2 n d = int ?k" using True by (simp add: floor_log_def)
  moreover have "pow_rat 2 (int ?k + 1) = of_int (2 ^ Suc ?k)" by (simp add: pow_rat_def nat_add_distrib)
  moreover have "pow_rat 2 (int ?k) = of_int (2 ^ ?k)" by (simp add: pow_rat_def)
  ultimately show ?thesis using lo hi assms by (simp add: field_simps)
next
  case False
  define m where "m = (d - 1) div n"
  let ?k = "ilog 2 m"
  have "d + n - 1 = (d - 1) + n" by simp
  then have m': "(d + n - 1) div n - 1 = m" using assms by (simp only: m_def div_add_self2)
  have "1 \<le> m" using zdiv_mono1 [of n "d - 1" n] False assms by (simp add: m_def)
  from ilog_bounds [OF this] have b: "2 ^ ?k \<le> m" "m + 1 \<le> 2 ^ Suc ?k" by auto
  have "2 ^ ?k * n \<le> m * n" using b(1) assms by (intro mult_right_mono) auto
  also have "\<dots> \<le> d - 1"
    using pos_mod_sign [OF assms(1), of "d - 1"] div_mult_mod_eq [of "d - 1" n] unfolding m_def by linarith
  finally have lo: "(of_int (2 ^ ?k * n) :: rat) < of_int d" by (simp only: of_int_less_iff)
  have "d \<le> (m + 1) * n"
    using pos_mod_bound [OF assms(1), of "d - 1"] div_mult_mod_eq [of "d - 1" n]
    unfolding m_def distrib_right by linarith
  also have "\<dots> \<le> 2 ^ Suc ?k * n" using b(2) assms by (intro mult_right_mono) auto
  finally have hi: "(of_int d :: rat) \<le> of_int (2 ^ Suc ?k * n)" by (simp only: of_int_le_iff)
  have f: "floor_log 2 n d = - int (Suc ?k)" using False m' by (simp add: floor_log_def)
  have a: "pow_rat 2 (- int (Suc ?k)) = 1 / of_int (2 ^ Suc ?k)" by (simp add: pow_rat_def nat_add_distrib)
  have c: "pow_rat 2 (- int (Suc ?k) + 1) = 1 / of_int (2 ^ ?k)" by (simp add: pow_rat_def)
  show ?thesis unfolding f a c using lo hi assms by (simp add: field_simps)
qed

lemma scale_down_pos: "0 < snd nd \<Longrightarrow> 1 < b \<Longrightarrow> 0 < snd (scale_down b e nd)"
  by (simp add: scale_down_def)

lemma scale_down_value:
  "0 < d \<Longrightarrow> 1 < b \<Longrightarrow> of_int (fst (scale_down b e (n, d))) / (of_int (snd (scale_down b e (n, d))) :: rat) =
   (of_int n / of_int d) / pow_rat b e"
  by (simp add: scale_down_def pow_rat_def)

lemma num_den_pos: "0 < q \<Longrightarrow> \<exists>n d. num_den q = (n, d) \<and> 0 < n \<and> 0 < d \<and> q = of_int n / of_int d"
proof -
  assume q: "0 < q"
  obtain n d where nd: "quotient_of q = (n, d)" by fastforce
  have "0 < d" "q = of_int n / of_int d"
    using nd by (rule quotient_of_denom_pos, rule quotient_of_div)
  moreover from this q have "0 < n" by (simp add: zero_less_divide_iff)
  ultimately show ?thesis using nd by (simp add: num_den_def)
qed

lemma pow_rat_mono: "1 < b \<Longrightarrow> e \<le> f \<Longrightarrow> pow_rat b e \<le> pow_rat b f"
  by (simp add: pow_rat_power_int power_int_increasing)

lemma pow_rat_less: "1 < b \<Longrightarrow> pow_rat b e < pow_rat b f \<Longrightarrow> e < f"
  using pow_rat_mono by (metis not_less)

lemma pow_rat_add: "1 < b \<Longrightarrow> pow_rat b (e + f) = pow_rat b e * pow_rat b f"
  by (simp add: pow_rat_power_int power_int_add)

text \<open>
  Rounding a number in the normal range: the relative error is at most \<open>2 ^ -53\<close>, and the result
  is again in the normal range.
\<close>

lemma round_double_normal:
  assumes "pow_rat 2 (- 1022) \<le> q"
  shows "\<bar>round_double q - q\<bar> \<le> q / 2 ^ 53 \<and> pow_rat 2 (- 1022) \<le> round_double q"
proof -
  have q: "0 < q" by (rule less_le_trans [OF _ assms]) simp
  then obtain n d where nd: "num_den q = (n, d)" "0 < n" "0 < d" "q = of_int n / of_int d"
    using num_den_pos by blast
  define e where "e = floor_log 2 n d"
  have b: "pow_rat 2 e \<le> q" "q < pow_rat 2 (e + 1)"
    using floor_log_bounds [OF nd(2,3)] by (simp_all add: e_def nd(4))
  have "pow_rat 2 (- 1022) < pow_rat 2 (e + 1)" using assms b(2) by simp
  then have "- 1022 < e + 1" by (rule pow_rat_less [rotated]) simp
  then have e: "max (e - 52) (- 1074) = e - 52" by simp
  define s where "s = scale_down 2 (e - 52) (n, d)"
  have s: "0 < snd s" "of_int (fst s) / of_int (snd s) = q / pow_rat 2 (e - 52)"
    using nd(3) by (simp_all add: s_def scale_down_pos scale_down_value nd(4))
  define m where "m = round_even (fst s) (snd s)"
  have r: "round_double q = of_int m * pow_rat 2 (e - 52)"
    using q by (simp add: round_double_def Let_def nd(1) e_def [symmetric] e s_def m_def)
  have u: "pow_rat 2 e = 2 ^ 52 * pow_rat 2 (e - 52)"
    using pow_rat_add [of 2 52 "e - 52"] by (simp add: pow_rat_def)
  have p: "0 < pow_rat 2 (e - 52)" by simp
  then have p: "0 < pow_rat 2 (e - 52)" "0 \<le> pow_rat 2 (e - 52)" "pow_rat 2 (e - 52) \<noteq> 0" by linarith+
  have "\<bar>of_int m - q / pow_rat 2 (e - 52)\<bar> \<le> 1 / 2"
    using round_even_near [OF s(1), of "fst s"] by (simp add: s(2) m_def)
  then have "\<bar>of_int m - q / pow_rat 2 (e - 52)\<bar> * pow_rat 2 (e - 52) \<le> 1 / 2 * pow_rat 2 (e - 52)"
    using p by (intro mult_right_mono) simp_all
  moreover have "round_double q - q = (of_int m - q / pow_rat 2 (e - 52)) * pow_rat 2 (e - 52)"
    using p(3) by (simp add: r left_diff_distrib)
  ultimately have "\<bar>round_double q - q\<bar> \<le> pow_rat 2 (e - 52) / 2" using p by (simp add: abs_mult)
  moreover have "pow_rat 2 (e - 52) / 2 \<le> q / 2 ^ 53" using b(1) by (simp add: u)
  ultimately have err: "\<bar>round_double q - q\<bar> \<le> q / 2 ^ 53" by linarith
  have "2 ^ 52 \<le> (of_int (fst s) :: rat) / of_int (snd s)"
    using b(1) p by (simp add: s(2) u field_simps)
  then have "(of_int (2 ^ 52 * snd s) :: rat) \<le> of_int (fst s)" using s(1) by (simp add: field_simps)
  then have "2 ^ 52 * snd s \<le> fst s" by (simp only: of_int_le_iff)
  then have "2 ^ 52 \<le> m" unfolding m_def by (rule round_even_ge [OF s(1)])
  then have "(of_int (2 ^ 52) :: rat) \<le> of_int m" by (simp only: of_int_le_iff)
  then have "pow_rat 2 e \<le> round_double q" using p unfolding r u by (intro mult_right_mono) auto
  moreover have "pow_rat 2 (- 1022) \<le> pow_rat 2 e" by (rule pow_rat_mono) (use \<open>- 1022 < e + 1\<close> in auto)
  ultimately show ?thesis using err by simp
qed

section \<open>The text of a double\<close>

text \<open>
  The decimal with \<open>k\<close> digits nearest to \<open>q\<close> among those that read back as \<open>q\<close>: its digits as
  a number, to be scaled by \<open>10 ^ (p - k + 1)\<close>.
\<close>

definition shortest_try :: "rat \<Rightarrow> int \<Rightarrow> nat \<Rightarrow> int option" where
  "shortest_try q p k = (let u = p - int k + 1; s = scale_down 10 u (num_den q);
       lo = fst s div snd s; near = round_even (fst s) (snd s); far = (if near = lo then lo + 1 else lo);
       ok = (\<lambda>c. round_double (of_int c * pow_rat 10 u) = q)
     in if ok near then Some near else if ok far then Some far else None)"

fun shortest_digits :: "rat \<Rightarrow> int \<Rightarrow> nat list \<Rightarrow> int \<times> int" where
  "shortest_digits q p [] = (round_even (fst (scale_down 10 (p - 16) (num_den q)))
       (snd (scale_down 10 (p - 16) (num_den q))), p - 16)"
| "shortest_digits q p (k # ks) = (case shortest_try q p k of
       Some c \<Rightarrow> (c, p - int k + 1) | None \<Rightarrow> shortest_digits q p ks)"

definition strip_zeros :: "string \<Rightarrow> string" where
  "strip_zeros s = rev (dropWhile (\<lambda>c. c = CHR ''0'') (rev s))"

text \<open>The layout of \<open>repr\<close>: digits with the decimal point after \<open>decpt\<close> of them.\<close>

definition format_double :: "string \<Rightarrow> int \<Rightarrow> string" where
  "format_double ds decpt =
     (if decpt \<le> - 4 \<or> 16 < decpt then
        let x = decpt - 1; xs = show_int \<bar>x\<bar>
        in (case ds of [] \<Rightarrow> [] | [d] \<Rightarrow> [d] | d # r \<Rightarrow> d # CHR ''.'' # r) @
           (if x < 0 then ''e-'' else ''e+'') @ (if length xs < 2 then ''0'' else []) @ xs
      else if decpt \<le> 0 then ''0.'' @ replicate (nat (- decpt)) (CHR ''0'') @ ds
      else if int (length ds) \<le> decpt then ds @ replicate (nat decpt - length ds) (CHR ''0'') @ ''.0''
      else take (nat decpt) ds @ ''.'' @ drop (nat decpt) ds)"

definition repr_float :: "rat \<Rightarrow> string" where
  "repr_float q = (if q = 0 then ''0.0'' else
     let nd = num_den q; p = floor_log 10 (fst nd) (snd nd);
         c = shortest_digits \<bar>q\<bar> p [1 ..< 18]; ds = show_int (fst c)
     in (if q < 0 then ''-'' else []) @
        format_double (strip_zeros ds) (int (length ds) + snd c))"

section \<open>Values\<close>

datatype pval = PStr string | PInt int | PFloat rat | PBool bool | PNone

text \<open>\<^verbatim>\<open>str(v)\<close>, which is also what an f-string inserts.\<close>

fun py_str :: "pval \<Rightarrow> string" where
  "py_str (PStr s) = s"
| "py_str (PInt i) = show_int i"
| "py_str (PFloat q) = repr_float q"
| "py_str (PBool b) = (if b then ''True'' else ''False'')"
| "py_str PNone = ''None''"

text \<open>\<^verbatim>\<open>==\<close>: numbers compare by value across \<^verbatim>\<open>int\<close>, \<^verbatim>\<open>float\<close> and \<^verbatim>\<open>bool\<close>, the rest by kind.\<close>

fun py_num :: "pval \<Rightarrow> rat option" where
  "py_num (PInt i) = Some (of_int i)"
| "py_num (PFloat q) = Some q"
| "py_num (PBool b) = Some (if b then 1 else 0)"
| "py_num _ = None"

definition py_eq :: "pval \<Rightarrow> pval \<Rightarrow> bool" where
  "py_eq v w = (case (py_num v, py_num w) of
     (Some x, Some y) \<Rightarrow> x = y
   | (None, None) \<Rightarrow> v = w
   | _ \<Rightarrow> False)"

fun py_truth :: "pval \<Rightarrow> bool" where
  "py_truth (PStr s) = (s \<noteq> [])"
| "py_truth (PInt i) = (i \<noteq> 0)"
| "py_truth (PFloat q) = (q \<noteq> 0)"
| "py_truth (PBool b) = b"
| "py_truth PNone = False"

lemma py_eq_refl [simp]: "py_eq v v"
  by (cases v) (simp_all add: py_eq_def)

lemma py_eq_sym: "py_eq v w = py_eq w v"
  by (auto simp: py_eq_def split: option.splits)

lemma py_eq_trans: "py_eq u v \<Longrightarrow> py_eq v w \<Longrightarrow> py_eq u w"
  by (auto simp: py_eq_def split: option.splits)

lemma py_eq_PStr [simp]:
  "py_eq (PStr s) w \<longleftrightarrow> w = PStr s"
  "py_eq w (PStr s) \<longleftrightarrow> w = PStr s"
  by (auto simp: py_eq_def split: option.splits)

lemma py_eq_PNone [simp]:
  "py_eq PNone w \<longleftrightarrow> w = PNone"
  "py_eq w PNone \<longleftrightarrow> w = PNone"
  by (auto simp: py_eq_def split: option.splits)

lemma py_eq_PInt [simp]: "py_eq (PInt i) (PInt j) \<longleftrightarrow> i = j"
  by (simp add: py_eq_def)

end
