(* ===== verification/Config.thy ===== *)
theory Config
  imports Py_Value
begin

text \<open>
  The deployment configuration of \<^verbatim>\<open>tools/utils.py\<close>: the contents of \<^verbatim>\<open>main.yaml\<close>, the
  inference of Kubernetes contexts from region names (\<^verbatim>\<open>get_main_config\<close>), the namespaces
  derived from the regions (\<^verbatim>\<open>get_namespaces\<close>), the choice of a context for a region
  (\<^verbatim>\<open>Kube.get_context\<close>) and the selection of pods (\<^verbatim>\<open>Kube.get_pods\<close>). The parsed YAML file,
  the context names of the kube configuration and the pod list of the API server are inputs.
\<close>

section \<open>The configuration data\<close>

text \<open>
  A missing key is \<open>None\<close>. \<open>ri_context\<close> and \<open>global_region_context\<close> are read with
  \<^verbatim>\<open>get\<close> only, so a missing key and a null value are the same; the remaining keys keep the
  difference because the code reads them with a subscript or a default somewhere.
\<close>

record region_info =
  ri_id :: "pval option"
  ri_context :: "string option"
  ri_target :: pval
  ri_warmup :: "pval option"
  ri_instances :: "pval option"

datatype regions_field = RAbsent | RNull | RDict "(string, region_info) dict"

record main_config =
  global_region :: "string option"
  global_region_context :: "string option"
  global_target :: "pval option"
  regions :: regions_field

text \<open>\<^verbatim>\<open>main_config.get("regions") or {}\<close>\<close>

definition regions_of :: "main_config \<Rightarrow> (string, region_info) dict" where
  "regions_of c = (case regions c of RDict d \<Rightarrow> d | _ \<Rightarrow> [])"

section \<open>get_main_config\<close>

definition find_context :: "string list \<Rightarrow> string \<Rightarrow> string option" where
  "find_context contexts region = find (str_in region) contexts"

definition fill_context :: "string list \<Rightarrow> string \<Rightarrow> region_info \<Rightarrow> region_info" where
  "fill_context contexts region ri = (case ri_context ri of
     None \<Rightarrow> ri\<lparr>ri_context := find_context contexts region\<rparr>
   | Some _ \<Rightarrow> ri)"

definition fill_regions :: "string list \<Rightarrow> regions_field \<Rightarrow> regions_field" where
  "fill_regions contexts f = (case f of
     RDict d \<Rightarrow> RDict (map (\<lambda>(r, ri). (r, fill_context contexts r ri)) d)
   | _ \<Rightarrow> f)"

definition get_main_config :: "string list \<Rightarrow> main_config \<Rightarrow> main_config res" where
  "get_main_config contexts c =
     (let c' = c\<lparr>regions := fill_regions contexts (regions c)\<rparr>
      in case global_region_context c' of
           Some _ \<Rightarrow> Inr c'
         | None \<Rightarrow> rbind (req (KeyError ''global_region'') (global_region c'))
             (\<lambda>g. Inr (c'\<lparr>global_region_context := find_context contexts g\<rparr>)))"

section \<open>get_namespaces\<close>

record namespace_info =
  ni_region :: string
  ni_id :: pval
  ni_target :: pval
  ni_warmup :: pval
  ni_instances :: pval

text \<open>\<^verbatim>\<open>ns_info.items()\<close>, in the order the literal writes the keys.\<close>

definition ns_items :: "namespace_info \<Rightarrow> (string \<times> pval) list" where
  "ns_items i = [(''region'', PStr (ni_region i)), (''id'', ni_id i),
     (''target_address_and_database'', ni_target i), (''warmup'', ni_warmup i),
     (''benchbase_instances'', ni_instances i)]"

definition opt_get :: "pval \<Rightarrow> pval option \<Rightarrow> pval" where
  "opt_get d x = (case x of None \<Rightarrow> d | Some v \<Rightarrow> v)"

definition region_namespace :: "string \<Rightarrow> region_info \<Rightarrow> namespace_info res" where
  "region_namespace r ri = rbind (req (KeyError ''id'') (ri_id ri)) (\<lambda>i.
     Inr \<lparr>ni_region = r, ni_id = i, ni_target = ri_target ri,
          ni_warmup = opt_get (PInt 0) (ri_warmup ri),
          ni_instances = opt_get (PInt 1) (ri_instances ri)\<rparr>)"

definition get_namespaces :: "main_config \<Rightarrow> (string, namespace_info) dict res" where
  "get_namespaces c =
     rbind (req (KeyError ''global_region'') (global_region c)) (\<lambda>g.
       rfold (\<lambda>(r, ri) ns. rbind (region_namespace r ri) (\<lambda>i. Inr (dset r i ns)))
         (regions_of c)
         [(''global'', \<lparr>ni_region = g, ni_id = PInt 0,
            ni_target = opt_get PNone (global_target c),
            ni_warmup = PInt 0, ni_instances = PInt 1\<rparr>)])"

section \<open>Kube.get_context\<close>

definition get_context :: "string list \<Rightarrow> main_config \<Rightarrow> string \<Rightarrow> string res" where
  "get_context contexts c region =
     rbind (get_main_config contexts c) (\<lambda>mc.
     rbind (req (KeyError ''global_region'') (global_region mc)) (\<lambda>g.
       case (if region = g then global_region_context mc else None) of
         Some ctx \<Rightarrow> Inr ctx
       | None \<Rightarrow> rbind (req (KeyError region) (dget (regions_of mc) region)) (\<lambda>ri.
           req (PlainException (''Could not find context for region: '' @ region)) (ri_context ri))))"

section \<open>Kube.get_pods\<close>

text \<open>
  A pod as the API returns it: its phase (\<open>None\<close> without a status) and its name (\<open>None\<close>
  without metadata or name; an empty name counts as none). \<open>phases\<close> is \<open>[]\<close> where the
  argument is \<^verbatim>\<open>None\<close> or empty.
\<close>

record pod =
  pod_phase :: "string option"
  pod_name :: "string option"

definition label_selector :: "(string, string) dict \<Rightarrow> string" where
  "label_selector sel = join '','' (map (\<lambda>(k, v). k @ ''='' @ v) sel)"

definition get_pods :: "(string \<Rightarrow> string \<Rightarrow> pod list res) \<Rightarrow> string \<Rightarrow> (string, string) dict
    \<Rightarrow> string list \<Rightarrow> string list res" where
  "get_pods list_pods namespace sel phases =
     rbind (list_pods namespace (label_selector sel)) (\<lambda>ps.
       Inr [n. p \<leftarrow> ps, phases = [] \<or> (case pod_phase p of None \<Rightarrow> False | Some f \<Rightarrow> f \<in> set phases),
              n \<leftarrow> (case pod_name p of None \<Rightarrow> [] | Some n \<Rightarrow> if n = [] then [] else [n])])"

section \<open>Inferred contexts\<close>

lemma find_context_SomeD:
  "find_context contexts r = Some c \<Longrightarrow> c \<in> set contexts \<and> str_in r c"
  by (auto simp: find_context_def find_Some_iff)

lemma find_context_None: "find_context contexts r = None \<longleftrightarrow> (\<forall>c \<in> set contexts. \<not> str_in r c)"
  by (auto simp: find_context_def find_None_iff)

lemma regions_of_get_main_config:
  "get_main_config contexts c = Inr mc \<Longrightarrow>
   regions_of mc = map (\<lambda>(r, ri). (r, fill_context contexts r ri)) (regions_of c)"
  by (cases "regions c")
    (auto simp: get_main_config_def Let_def regions_of_def fill_regions_def rbind_eq_Inr
          split: option.splits)

lemma get_main_config_frame:
  "get_main_config contexts c = Inr mc \<Longrightarrow>
   global_region mc = global_region c \<and> global_target mc = global_target c"
  by (auto simp: get_main_config_def Let_def rbind_eq_Inr split: option.splits)

lemma get_main_config_global:
  "get_main_config contexts c = Inr mc \<Longrightarrow>
   global_region_context mc = (case global_region_context c of
      Some x \<Rightarrow> Some x
    | None \<Rightarrow> (case global_region c of Some g \<Rightarrow> find_context contexts g | None \<Rightarrow> None))"
  by (auto simp: get_main_config_def Let_def rbind_eq_Inr split: option.splits)

lemma get_main_config_region:
  "get_main_config contexts c = Inr mc \<Longrightarrow>
   dget (regions_of mc) r = map_option (fill_context contexts r) (dget (regions_of c) r)"
  by (simp add: regions_of_get_main_config map_of_map_key)

lemma fill_context_idem [simp]: "fill_context cs r (fill_context cs r ri) = fill_context cs r ri"
  by (auto simp: fill_context_def split: option.splits)

section \<open>Namespaces\<close>

text \<open>The loop of \<open>get_namespaces\<close> as one list of entries, and what its result holds.\<close>

abbreviation ns_loop :: "string \<times> region_info \<Rightarrow> (string, namespace_info) dict
    \<Rightarrow> (string, namespace_info) dict res" where
  "ns_loop \<equiv> (\<lambda>(r, ri) ns. rbind (region_namespace r ri) (\<lambda>i. Inr (dset r i ns)))"

lemma ns_loop_eq_puts:
  "rfold ns_loop d ns = Inr ns' \<Longrightarrow>
   \<exists>is. list_all2 (\<lambda>(r, ri) (r', i). r' = r \<and> region_namespace r ri = Inr i) d is \<and>
        ns' = dmerge ns is"
proof (induction d arbitrary: ns)
  case Nil
  then show ?case by simp
next
  case (Cons x d)
  obtain r ri where x: "x = (r, ri)" by force
  from Cons.prems obtain i where i: "region_namespace r ri = Inr i"
    "rfold ns_loop d (dset r i ns) = Inr ns'"
    by (auto simp: x rbind_eq_Inr)
  from Cons.IH [OF i(2)] obtain js where
    "list_all2 (\<lambda>(r, ri) (r', i). r' = r \<and> region_namespace r ri = Inr i) d js"
    "ns' = dmerge (dset r i ns) js" by blast
  then show ?case
    by (intro exI [of _ "(r, i) # js"]) (simp add: x i dmerge_def)
qed

lemma ns_loop_Inl: "rfold ns_loop d ns = Inl e \<Longrightarrow> \<exists>(r, ri) \<in> set d. ri_id ri = None \<and> e = KeyError ''id''"
  by (induction d arbitrary: ns) (fastforce simp: rbind_eq_Inl region_namespace_def)+

lemma set_dset: "(k', v') \<in> set (dset k v d) \<Longrightarrow> (k', v') \<in> set d \<or> (k' = k \<and> v' = v)"
  by (induction d) (auto split: if_splits)

text \<open>The namespaces have different names, and each is in the global region or one that is listed.\<close>

lemma namespaces_wf:
  assumes "get_namespaces c = Inr ns"
  shows "wf_dict ns \<and> ns \<noteq> [] \<and> (\<forall>(n, i) \<in> set ns. global_region c = Some (ni_region i) \<or> ni_region i \<in> set (dkeys (regions_of c)))"
proof -
  from assms obtain g where g: "global_region c = Some g" and
    ns: "rfold ns_loop (regions_of c) [(''global'', \<lparr>ni_region = g, ni_id = PInt 0,
      ni_target = opt_get PNone (global_target c), ni_warmup = PInt 0, ni_instances = PInt 1\<rparr>)] = Inr ns"
    by (auto simp: get_namespaces_def rbind_eq_Inr)
  show ?thesis
  proof (rule rfold_inv [OF ns])
    fix x and s s' :: "(string, namespace_info) dict"
    assume x: "x \<in> set (regions_of c)" and I: "wf_dict s \<and> s \<noteq> [] \<and>
        (\<forall>(n, i) \<in> set s. global_region c = Some (ni_region i) \<or> ni_region i \<in> set (dkeys (regions_of c)))"
      and step: "ns_loop x s = Inr s'"
    obtain r ri where r: "x = (r, ri)" by force
    with step obtain i where i: "region_namespace r ri = Inr i" "s' = dset r i s" by (auto simp: rbind_eq_Inr)
    then have "ni_region i = r" by (auto simp: region_namespace_def rbind_eq_Inr)
    moreover have "r \<in> set (dkeys (regions_of c))" using x r by force
    moreover have "s' \<noteq> []" using i(2) I by (cases s) auto
    ultimately show "wf_dict s' \<and> s' \<noteq> [] \<and>
        (\<forall>(n, i) \<in> set s'. global_region c = Some (ni_region i) \<or> ni_region i \<in> set (dkeys (regions_of c)))"
      using I i(2) by (auto dest!: set_dset)
  qed (simp add: g wf_dict_def)
qed

section \<open>Properties\<close>

text \<open>A small configuration on which the witnesses below evaluate.\<close>

definition sample_region :: "int \<Rightarrow> region_info" where
  "sample_region i = \<lparr>ri_id = Some (PInt i), ri_context = None, ri_target = PNone,
     ri_warmup = None, ri_instances = None\<rparr>"

definition sample_config :: main_config where
  "sample_config = \<lparr>global_region = Some ''us'', global_region_context = None, global_target = None,
     regions = RDict [(''us'', sample_region 1), (''eu'', sample_region 2)]\<rparr>"

definition sample_contexts :: "string list" where
  "sample_contexts = [''minikube'', ''neon.us.io'']"

text \<open>A region keeps an explicit context; otherwise it gets the first context whose name contains
  the region's name, and it stays without one exactly when no context name contains it. Nothing
  else of the region changes.\<close>

theorem inferred_context:
  assumes "get_main_config contexts c = Inr mc" and "dget (regions_of c) r = Some ri"
  shows "\<exists>ri'. dget (regions_of mc) r = Some ri' \<and>
    ri_context ri' = (case ri_context ri of Some x \<Rightarrow> Some x | None \<Rightarrow> find (str_in r) contexts) \<and>
    ri'\<lparr>ri_context := ri_context ri\<rparr> = ri \<and>
    (ri_context ri' = None \<longleftrightarrow> ri_context ri = None \<and> (\<forall>ctx \<in> set contexts. \<not> sublist r ctx))"
proof -
  have "dget (regions_of mc) r = Some (fill_context contexts r ri)"
    using get_main_config_region [OF assms(1)] assms(2) by simp
  then show ?thesis
    by (auto simp: fill_context_def find_context_def find_None_iff str_in_iff_sublist split: option.splits)
qed

lemma inferred_context_witness:
  "\<exists>mc ri'. get_main_config sample_contexts sample_config = Inr mc \<and> dget (regions_of mc) ''us'' = Some ri' \<and>
     ri_context ri' = Some ''neon.us.io''"
proof -
  obtain mc where m: "get_main_config sample_contexts sample_config = Inr mc"
    by (simp add: get_main_config_def sample_config_def fill_regions_def)
  have r: "dget (regions_of sample_config) ''us'' = Some (sample_region 1)"
    by (simp add: regions_of_def sample_config_def)
  from inferred_context [OF m r] m show ?thesis
    by (auto simp: sample_region_def sample_contexts_def str_in_def)
qed

text \<open>C11 A context that \<open>get_context\<close> returns was written in the configuration for this region or
  as the global one, or is a context of the kube configuration whose name contains the region.\<close>

theorem get_context_sound:
  assumes "get_context contexts c region = Inr ctx"
  shows "(\<exists>ri. dget (regions_of c) region = Some ri \<and> ri_context ri = Some ctx) \<or>
    (global_region c = Some region \<and> global_region_context c = Some ctx) \<or>
    (ctx \<in> set contexts \<and> sublist region ctx)"
proof -
  from assms obtain mc g where mc: "get_main_config contexts c = Inr mc" and g: "global_region mc = Some g"
    and r: "(case (if region = g then global_region_context mc else None) of
         Some ctx \<Rightarrow> Inr ctx
       | None \<Rightarrow> rbind (req (KeyError region) (dget (regions_of mc) region)) (\<lambda>ri.
           req (PlainException (''Could not find context for region: '' @ region)) (ri_context ri))) = Inr ctx"
    by (auto simp: get_context_def rbind_eq_Inr)
  have g': "global_region c = Some g" using get_main_config_frame [OF mc] g by simp
  show ?thesis
  proof (cases "if region = g then global_region_context mc else None")
    case None
    with r obtain ri' where "dget (regions_of mc) region = Some ri'" "ri_context ri' = Some ctx"
      by (auto simp: rbind_eq_Inr)
    with get_main_config_region [OF mc, of region] obtain ri where
      "dget (regions_of c) region = Some ri" "ri_context (fill_context contexts region ri) = Some ctx"
      by (cases "dget (regions_of c) region") auto
    then show ?thesis
      by (auto simp: fill_context_def str_in_iff_sublist dest!: find_context_SomeD split: option.splits)
  next
    case (Some x)
    with r have "region = g" "global_region_context mc = Some ctx" by (auto split: if_splits)
    with get_main_config_global [OF mc] g'
    have "Some ctx = (case global_region_context c of Some x \<Rightarrow> Some x | None \<Rightarrow> find_context contexts region)"
      by (simp split: option.splits)
    with g' \<open>region = g\<close> show ?thesis
      by (cases "global_region_context c") (auto simp: str_in_iff_sublist dest: find_context_SomeD find_context_SomeD [OF sym])
  qed
qed

lemma get_context_sound_witness:
  "get_context sample_contexts sample_config ''us'' = Inr ''neon.us.io'' \<and>
   ''neon.us.io'' \<in> set sample_contexts \<and> sublist ''us'' ''neon.us.io''"
proof -
  have c: "get_context sample_contexts sample_config ''us'' = Inr ''neon.us.io''"
    by (simp add: get_context_def get_main_config_def fill_regions_def find_context_def
        sample_config_def sample_contexts_def str_in_def)
  from get_context_sound [OF c] c show ?thesis
    by (auto simp: sample_config_def sample_region_def regions_of_def split: if_splits)
qed

text \<open>When no context is known, the error depends on where the region comes from: a region that is
  listed gets the explanatory exception, but a global region that is not among the regions (which
  the comments of \<^verbatim>\<open>main.yaml\<close> allow) ends in a bare \<open>KeyError\<close>.\<close>

theorem get_context_missing:
  assumes "global_region c = Some g" and "region \<noteq> g \<or> global_region_context c = None"
    and "\<forall>ctx \<in> set contexts. \<not> sublist region ctx"
    and "\<forall>ri. dget (regions_of c) region = Some ri \<longrightarrow> ri_context ri = None"
  shows "get_context contexts c region = Inl (if dget (regions_of c) region = None then KeyError region
    else PlainException (''Could not find context for region: '' @ region))"
proof -
  obtain mc where mc: "get_main_config contexts c = Inr mc"
    using assms(1) by (cases "global_region_context c") (auto simp: get_main_config_def Let_def)
  have f: "find_context contexts region = None"
    using assms(3) by (simp add: find_context_None str_in_iff_sublist)
  have gc: "(if region = g then global_region_context mc else None) = None"
    using get_main_config_global [OF mc] assms(1,2) f by (auto split: option.splits)
  have "dget (regions_of mc) region = map_option (fill_context contexts region) (dget (regions_of c) region)"
    using get_main_config_region [OF mc] .
  moreover have "ri_context (fill_context contexts region ri) = None"
    if "dget (regions_of c) region = Some ri" for ri
    using that assms(4) f by (simp add: fill_context_def)
  ultimately show ?thesis
    using mc gc get_main_config_frame [OF mc] assms(1)
    by (cases "dget (regions_of c) region") (simp_all add: get_context_def)
qed

lemma get_context_missing_witness:
  "get_context sample_contexts sample_config ''eu'' =
     Inl (PlainException (''Could not find context for region: '' @ ''eu'')) \<and>
   get_context [] (sample_config\<lparr>regions := RNull\<rparr>) ''us'' = Inl (KeyError ''us'')"
proof
  have s: "\<forall>ctx \<in> set sample_contexts. \<not> sublist ''eu'' ctx"
    by (simp add: sample_contexts_def sublist_Cons_right)
  show "get_context sample_contexts sample_config ''eu'' =
     Inl (PlainException (''Could not find context for region: '' @ ''eu''))"
    using get_context_missing [of sample_config "''us''" "''eu''", OF _ _ s]
    by (simp add: sample_config_def sample_region_def regions_of_def)
  show "get_context [] (sample_config\<lparr>regions := RNull\<rparr>) ''us'' = Inl (KeyError ''us'')"
    using get_context_missing [of "sample_config\<lparr>regions := RNull\<rparr>" "''us''" "''us''" "[]"]
    by (simp add: sample_config_def regions_of_def)
qed

text \<open>The namespaces are the global one followed by the regions in their order, unless a region is
  itself called \<^verbatim>\<open>global\<close>; a region's namespace carries its id and the defaults 0 and 1 for warm-up and
  instances.\<close>

theorem get_namespaces_keys:
  assumes "get_namespaces c = Inr ns" and "wf_dict (regions_of c)" and "''global'' \<notin> set (dkeys (regions_of c))"
  shows "dkeys ns = ''global'' # dkeys (regions_of c) \<and>
    (\<forall>r ri. dget (regions_of c) r = Some ri \<longrightarrow> (\<exists>i. dget ns r = Some i \<and> ni_region i = r \<and>
       Some (ni_id i) = ri_id ri \<and> ni_target i = ri_target ri \<and>
       ni_warmup i = opt_get (PInt 0) (ri_warmup ri) \<and> ni_instances i = opt_get (PInt 1) (ri_instances ri)))"
proof -
  from assms(1) obtain g where ns: "rfold ns_loop (regions_of c) [(''global'', \<lparr>ni_region = g, ni_id = PInt 0,
      ni_target = opt_get PNone (global_target c), ni_warmup = PInt 0, ni_instances = PInt 1\<rparr>)] = Inr ns"
    by (auto simp: get_namespaces_def rbind_eq_Inr)
  let ?g = "[(''global'', \<lparr>ni_region = g, ni_id = PInt 0, ni_target = opt_get PNone (global_target c),
      ni_warmup = PInt 0, ni_instances = PInt 1\<rparr>)]"
  from ns_loop_eq_puts [OF ns] obtain es where
    es: "list_all2 (\<lambda>(r, ri) (r', i). r' = r \<and> region_namespace r ri = Inr i) (regions_of c) es"
    and ns': "ns = dmerge ?g es" by blast
  from es have k: "dkeys es = dkeys (regions_of c)"
    by (induction rule: list_all2_induct) auto
  have "wf_dict (?g @ es)" using assms(2,3) by (simp add: wf_dict_def k flip: set_map)
  from dmerge_fresh [OF this] ns' have eq: "ns = ?g @ es" by simp
  have get: "\<exists>i. dget es r = Some i \<and> region_namespace r ri = Inr i" if "dget (regions_of c) r = Some ri" for r ri
    using es that by (induction rule: list_all2_induct) (auto split: if_splits)
  have "r \<noteq> ''global''" if "dget (regions_of c) r = Some ri" for r ri
    using that assms(3) by (auto simp: rev_image_eqI dest: map_of_SomeD)
  then have "\<exists>i. dget ns r = Some i \<and> region_namespace r ri = Inr i" if "dget (regions_of c) r = Some ri" for r ri
    using get [OF that] that by (simp add: eq)
  then show ?thesis
    using k eq by (fastforce simp: region_namespace_def rbind_eq_Inr)
qed

lemma get_namespaces_keys_witness:
  "\<exists>ns. get_namespaces sample_config = Inr ns \<and> dkeys ns = [''global'', ''us'', ''eu'']"
proof -
  obtain ns where n: "get_namespaces sample_config = Inr ns"
    by (simp add: get_namespaces_def regions_of_def region_namespace_def sample_config_def sample_region_def)
  from get_namespaces_keys [OF n] n show ?thesis
    by (simp add: regions_of_def wf_dict_def sample_config_def)
qed

end
