(* ===== verification/Params.thy ===== *)
theory Params
  imports Py_Value
begin

text \<open>
  Parameter values of an experiment and the replacement rules (\<^verbatim>\<open>to_named_value\<close> and
  \<^verbatim>\<open>replace_values\<close> of \<^verbatim>\<open>tools/experiment.py\<close>).
\<close>

section \<open>The data of an experiment file\<close>

text \<open>
  A value in the file is a scalar or an object with a name and a value. \<open>nv_value\<close> is \<open>None\<close>
  for an object without a \<^verbatim>\<open>value\<close> key (\<^verbatim>\<open>NameOnlyParameterValue\<close>, as in a match condition).
\<close>

record named =
  nv_name :: string
  nv_value :: "pval option"

datatype spec = Plain pval | Named named

text \<open>
  The \<^verbatim>\<open>match\<close> key of a rule: absent or falsy, a list of conditions, or some other truthy
  object. A condition maps parameters to values.
\<close>

type_synonym clause = "(string, spec) dict"

datatype match_spec = MAbsent | MList "clause list" | MOther

record replace =
  rp_match :: match_spec
  rp_set :: "(string, spec) dict option"

type_synonym combination = "(string, named) dict"

section \<open>to_named_value\<close>

definition to_named_value :: "string \<Rightarrow> spec \<Rightarrow> named" where
  "to_named_value param v = (case v of
     Named n \<Rightarrow> n
   | Plain x \<Rightarrow> \<lparr>nv_name = last (split ''.'' param) @ py_str x, nv_value = Some x\<rparr>)"

section \<open>replace_values\<close>

definition unknown_match :: "string \<Rightarrow> exn" where
  "unknown_match p = ValueError (''Unknown parameter '' @ [CHR 34] @ p @ [CHR 34] @ '' specified in replace.match'')"

definition unknown_set :: "string \<Rightarrow> exn" where
  "unknown_set p = ValueError (''Unknown parameter '' @ [CHR 34] @ p @ [CHR 34] @ '' specified in replace.set'')"

definition bad_match :: exn where
  "bad_match = ValueError ''replace.match must be empty or a list of OR-ed conditions''"

text \<open>One condition: it leaves the loop at the first parameter that differs.\<close>

fun and_match :: "combination \<Rightarrow> clause \<Rightarrow> bool res" where
  "and_match nv [] = Inr True"
| "and_match nv ((p, v) # rest) =
     rbind (req (unknown_match p) (dget nv p)) (\<lambda>n.
       case v of
         Named m \<Rightarrow> if nv_name m \<noteq> nv_name n then Inr False else and_match nv rest
       | Plain x \<Rightarrow> rbind (req (KeyError ''value'') (nv_value n)) (\<lambda>y.
           if \<not> py_eq x y then Inr False else and_match nv rest))"

definition conditions_of :: "match_spec \<Rightarrow> clause list res" where
  "conditions_of m = (case m of MAbsent \<Rightarrow> Inr [] | MList cs \<Rightarrow> Inr cs | MOther \<Rightarrow> Inl bad_match)"

text \<open>All conditions are evaluated, whether or not an earlier one matched.\<close>

definition or_match :: "combination \<Rightarrow> clause list \<Rightarrow> bool res" where
  "or_match nv cs = rfold (\<lambda>c b. rbind (and_match nv c) (\<lambda>a. Inr (b \<or> a))) cs (cs = [])"

definition set_one :: "string \<times> spec \<Rightarrow> combination \<Rightarrow> combination res" where
  "set_one pv nv = (if fst pv \<notin> set (dkeys nv) then Inl (unknown_set (fst pv))
     else Inr (dset (fst pv) (to_named_value (fst pv) (snd pv)) nv))"

definition apply_rule :: "replace \<Rightarrow> combination \<Rightarrow> combination res" where
  "apply_rule r nv =
     rbind (conditions_of (rp_match r)) (\<lambda>cs.
     rbind (or_match nv cs) (\<lambda>b.
       if b then rbind (req (KeyError ''set'') (rp_set r)) (\<lambda>kvs. rfold set_one kvs nv)
       else Inr nv))"

definition replace_values :: "replace list \<Rightarrow> combination \<Rightarrow> combination res" where
  "replace_values rs nv = rfold apply_rule rs nv"

section \<open>What a rule means\<close>

text \<open>One test of a condition, and a condition as a conjunction of its tests.\<close>

definition test_holds :: "combination \<Rightarrow> string \<times> spec \<Rightarrow> bool" where
  "test_holds nv pv = (case dget nv (fst pv) of None \<Rightarrow> False | Some n \<Rightarrow>
     (case snd pv of Named m \<Rightarrow> nv_name m = nv_name n
      | Plain x \<Rightarrow> (case nv_value n of None \<Rightarrow> False | Some y \<Rightarrow> py_eq x y)))"

definition rule_matches :: "combination \<Rightarrow> clause list \<Rightarrow> bool" where
  "rule_matches nv cs \<longleftrightarrow> cs = [] \<or> (\<exists>c \<in> set cs. \<forall>t \<in> set c. test_holds nv t)"

lemma and_match_Inr: "and_match nv c = Inr b \<Longrightarrow> b \<longleftrightarrow> (\<forall>t \<in> set c. test_holds nv t)"
proof (induction c)
  case Nil
  then show ?case by simp
next
  case (Cons t c)
  obtain p v where t: "t = (p, v)" by force
  from Cons.prems obtain n where n: "dget nv p = Some n"
    by (auto simp: t rbind_eq_Inr)
  show ?case
  proof (cases v)
    case (Named m)
    with Cons n show ?thesis by (simp add: t test_holds_def split: if_splits)
  next
    case (Plain x)
    with Cons.prems n obtain y where y: "nv_value n = Some y"
      by (auto simp: t rbind_eq_Inr)
    with Cons Plain n show ?thesis by (simp add: t test_holds_def split: if_splits)
  qed
qed

lemma or_loop_Inr:
  "rfold (\<lambda>c b. rbind (and_match nv c) (\<lambda>a. Inr (b \<or> a))) cs b0 = Inr b \<Longrightarrow>
   b \<longleftrightarrow> b0 \<or> (\<exists>c \<in> set cs. \<forall>t \<in> set c. test_holds nv t)"
  by (induction cs arbitrary: b0) (auto simp: rbind_eq_Inr dest!: and_match_Inr)

lemma or_match_Inr: "or_match nv cs = Inr b \<Longrightarrow> b \<longleftrightarrow> rule_matches nv cs"
  unfolding or_match_def rule_matches_def by (drule or_loop_Inr) blast

text \<open>When every parameter named is known and carries a value, evaluation does not fail.\<close>

definition known :: "combination \<Rightarrow> bool" where
  "known nv \<longleftrightarrow> (\<forall>n \<in> snd ` set nv. nv_value n \<noteq> None)"

lemma known_get: "known nv \<Longrightarrow> dget nv p = Some n \<Longrightarrow> \<exists>v. nv_value n = Some v"
  by (force simp: known_def dest: map_of_SomeD)

lemma and_match_total:
  "known nv \<Longrightarrow> fst ` set c \<subseteq> set (dkeys nv) \<Longrightarrow> \<not> isl (and_match nv c)"
proof (induction c)
  case Nil
  show ?case by simp
next
  case (Cons t c)
  obtain p v where t: "t = (p, v)" by force
  obtain n where n: "dget nv p = Some n"
    using Cons.prems(2) dget_Some_of_key [of p nv] by (auto simp: t)
  obtain y where y: "nv_value n = Some y" using known_get [OF Cons.prems(1) n] by blast
  have "\<not> isl (and_match nv c)" using Cons by simp
  then show ?case by (cases v) (simp_all add: t n y)
qed

lemma or_match_total:
  assumes "known nv" and "\<forall>c \<in> set cs. fst ` set c \<subseteq> set (dkeys nv)"
  shows "or_match nv cs = Inr (rule_matches nv cs)"
proof -
  have "\<exists>b. rfold (\<lambda>c b. rbind (and_match nv c) (\<lambda>a. Inr (b \<or> a))) cs b0 = Inr b" for b0
    using assms(2)
  proof (induction cs arbitrary: b0)
    case Nil
    then show ?case by simp
  next
    case (Cons c cs)
    from assms(1) Cons.prems obtain b where "and_match nv c = Inr b"
      using and_match_total [of nv c] by (cases "and_match nv c") auto
    with Cons show ?case by simp
  qed
  then obtain b where "or_match nv cs = Inr b" unfolding or_match_def by blast
  with or_match_Inr show ?thesis by blast
qed

text \<open>The assignments of a matching rule.\<close>

lemma set_one_known: "p \<in> fst ` set nv \<Longrightarrow> set_one (p, v) nv = Inr (dset p (to_named_value p v) nv)"
  by (simp add: set_one_def)

lemma set_one_unknown: "p \<notin> fst ` set nv \<Longrightarrow> set_one (p, v) nv = Inl (unknown_set p)"
  by (simp add: set_one_def)

lemma set_one_keys: "set_one kv nv = Inr nv' \<Longrightarrow> dkeys nv' = dkeys nv"
  by (auto simp: set_one_def dset_keys simp del: set_map split: if_splits)

lemma set_loop_keys: "rfold set_one kvs nv = Inr nv' \<Longrightarrow> dkeys nv' = dkeys nv"
  by (rule rfold_inv [where I = "\<lambda>x. dkeys x = dkeys nv"]) (auto dest: set_one_keys)

lemma set_loop_eq:
  "fst ` set kvs \<subseteq> set (dkeys nv) \<Longrightarrow>
   rfold set_one kvs nv = Inr (dmerge nv (map (\<lambda>(p, v). (p, to_named_value p v)) kvs))"
proof (induction kvs arbitrary: nv)
  case Nil
  then show ?case by simp
next
  case (Cons kv kvs)
  obtain p v where kv: "kv = (p, v)" by force
  have p: "p \<in> fst ` set nv" using Cons.prems kv by auto
  let ?nv = "dset p (to_named_value p v) nv"
  have "fst ` set ?nv = fst ` set nv"
    using set_one_keys [OF set_one_known [OF p]] by (rule dkeys_eq_set)
  then have "rfold set_one kvs ?nv = Inr (dmerge ?nv (map (\<lambda>(p, v). (p, to_named_value p v)) kvs))"
    using Cons by simp
  then show ?case using p by (simp add: kv set_one_known dmerge_def)
qed

lemma set_loop_Inl:
  "rfold set_one kvs nv = Inl e \<Longrightarrow>
   \<exists>p \<in> fst ` set kvs. p \<notin> set (dkeys nv) \<and> e = unknown_set p"
proof (induction kvs arbitrary: nv)
  case Nil
  then show ?case by simp
next
  case (Cons kv kvs)
  obtain p v where kv: "kv = (p, v)" by force
  show ?case
  proof (cases "p \<in> fst ` set nv")
    case True
    let ?nv = "dset p (to_named_value p v) nv"
    have k: "fst ` set ?nv = fst ` set nv"
      using set_one_keys [OF set_one_known [OF True]] by (rule dkeys_eq_set)
    from Cons.prems True have "rfold set_one kvs ?nv = Inl e" by (simp add: kv set_one_known)
    from Cons.IH [OF this] k show ?thesis by (auto simp: kv)
  next
    case False
    with Cons.prems show ?thesis by (simp add: kv set_one_unknown)
  qed
qed

lemma apply_rule_keys: "apply_rule r nv = Inr nv' \<Longrightarrow> dkeys nv' = dkeys nv"
  by (auto simp: apply_rule_def rbind_eq_Inr dest: set_loop_keys split: if_splits)

lemma replace_values_dkeys: "replace_values rs nv = Inr nv' \<Longrightarrow> dkeys nv' = dkeys nv"
  unfolding replace_values_def
  by (rule rfold_inv [where I = "\<lambda>x. dkeys x = dkeys nv"]) (auto dest: apply_rule_keys)

text \<open>A rule as a pure function, for rules that only name known parameters.\<close>

definition rule_effect :: "replace \<Rightarrow> combination \<Rightarrow> combination" where
  "rule_effect r nv = (case conditions_of (rp_match r) of Inl _ \<Rightarrow> nv | Inr cs \<Rightarrow>
     if rule_matches nv cs
     then dmerge nv (map (\<lambda>(p, v). (p, to_named_value p v)) (case rp_set r of None \<Rightarrow> [] | Some kvs \<Rightarrow> kvs))
     else nv)"

definition valued :: "spec \<Rightarrow> bool" where
  "valued v = (case v of Plain _ \<Rightarrow> True | Named n \<Rightarrow> nv_value n \<noteq> None)"

definition rule_ok :: "string set \<Rightarrow> replace \<Rightarrow> bool" where
  "rule_ok ps r \<longleftrightarrow>
     (\<exists>cs. conditions_of (rp_match r) = Inr cs \<and> (\<forall>c \<in> set cs. fst ` set c \<subseteq> ps)) \<and>
     (\<exists>kvs. rp_set r = Some kvs \<and> fst ` set kvs \<subseteq> ps \<and> (\<forall>kv \<in> set kvs. valued (snd kv)))"

lemma valued_to_named: "valued v \<Longrightarrow> nv_value (to_named_value p v) \<noteq> None"
  by (auto simp: valued_def to_named_value_def split: spec.splits)

lemma known_dset: "known nv \<Longrightarrow> nv_value n \<noteq> None \<Longrightarrow> known (dset p n nv)"
  by (induction nv) (auto simp: known_def)

lemma known_merge:
  "known nv \<Longrightarrow> \<forall>kv \<in> set kvs. valued (snd kv) \<Longrightarrow>
   known (dmerge nv (map (\<lambda>(p, v). (p, to_named_value p v)) kvs))"
  unfolding dmerge_def
  by (induction kvs arbitrary: nv) (auto simp: known_dset valued_to_named split_beta)

lemma rule_effect_known: "known nv \<Longrightarrow> rule_ok ps r \<Longrightarrow> known (rule_effect r nv)"
  by (auto simp: rule_effect_def rule_ok_def intro: known_merge)

lemma apply_rule_eq:
  "known nv \<Longrightarrow> rule_ok (set (dkeys nv)) r \<Longrightarrow> apply_rule r nv = Inr (rule_effect r nv)"
  by (auto simp: apply_rule_def rule_effect_def rule_ok_def or_match_total set_loop_eq)

lemma replace_values_eq:
  "known nv \<Longrightarrow> \<forall>r \<in> set rs. rule_ok (set (dkeys nv)) r \<Longrightarrow>
   replace_values rs nv = Inr (fold rule_effect rs nv)"
proof (induction rs arbitrary: nv)
  case Nil
  then show ?case by (simp add: replace_values_def)
next
  case (Cons r rs)
  have r: "apply_rule r nv = Inr (rule_effect r nv)"
    using Cons.prems by (simp add: apply_rule_eq)
  have "known (rule_effect r nv)"
    using Cons.prems rule_effect_known by auto
  moreover have "fst ` set (rule_effect r nv) = fst ` set nv"
    using apply_rule_keys [OF r] by (rule dkeys_eq_set)
  ultimately have "replace_values rs (rule_effect r nv) = Inr (fold rule_effect rs (rule_effect r nv))"
    using Cons by simp
  then show ?case by (simp add: replace_values_def r)
qed

section \<open>What rules change, and how they fail\<close>

text \<open>The parameters a rule assigns and those its conditions read.\<close>

definition sets :: "replace \<Rightarrow> string set" where
  "sets r = (case rp_set r of None \<Rightarrow> {} | Some kvs \<Rightarrow> fst ` set kvs)"

definition reads :: "replace \<Rightarrow> string set" where
  "reads r = (case rp_match r of MList cs \<Rightarrow> (\<Union>c \<in> set cs. fst ` set c) | _ \<Rightarrow> {})"

lemma set_one_frame: "set_one kv nv = Inr nv' \<Longrightarrow> p \<noteq> fst kv \<Longrightarrow> dget nv' p = dget nv p"
  by (auto simp: set_one_def split: if_splits)

lemma set_loop_frame:
  "rfold set_one kvs nv = Inr nv' \<Longrightarrow> p \<notin> fst ` set kvs \<Longrightarrow> dget nv' p = dget nv p"
  by (induction kvs arbitrary: nv) (auto simp: rbind_eq_Inr dest: set_one_frame)

lemma apply_rule_frame: "apply_rule r nv = Inr nv' \<Longrightarrow> p \<notin> sets r \<Longrightarrow> dget nv' p = dget nv p"
  by (auto simp: apply_rule_def sets_def rbind_eq_Inr set_loop_frame split: if_splits)

lemma rules_frame:
  "rfold apply_rule rs nv = Inr nv' \<Longrightarrow> \<forall>r \<in> set rs. p \<notin> sets r \<Longrightarrow> dget nv' p = dget nv p"
  by (induction rs arbitrary: nv) (auto simp: rbind_eq_Inr dest: apply_rule_frame)

lemma and_match_Inl:
  "and_match nv c = Inl e \<Longrightarrow> known nv \<Longrightarrow> \<exists>p \<in> fst ` set c. p \<notin> set (dkeys nv) \<and> e = unknown_match p"
proof (induction c)
  case Nil
  then show ?case by simp
next
  case (Cons t c)
  obtain p v where t: "t = (p, v)" by force
  show ?case
  proof (cases "dget nv p")
    case None
    with Cons.prems show ?thesis by (simp add: t map_of_eq_None_iff)
  next
    case (Some n)
    moreover obtain y where "nv_value n = Some y" using known_get [OF Cons.prems(2) Some] by blast
    ultimately have "and_match nv c = Inl e"
      using Cons.prems(1) by (simp add: t split: spec.splits if_splits)
    with Cons.IH Cons.prems(2) show ?thesis by simp
  qed
qed

lemma or_loop_Inl:
  "rfold (\<lambda>c b. rbind (and_match nv c) (\<lambda>a. Inr (b \<or> a))) cs b0 = Inl e \<Longrightarrow> \<exists>c \<in> set cs. and_match nv c = Inl e"
  by (induction cs arbitrary: b0) (auto simp: rbind_eq_Inl)

lemma apply_rule_Inl:
  assumes "apply_rule r nv = Inl e" "known nv" "rp_set r \<noteq> None"
  shows "(rp_match r = MOther \<and> e = bad_match) \<or>
    (\<exists>p \<in> reads r - set (dkeys nv). e = unknown_match p) \<or> (\<exists>p \<in> sets r - set (dkeys nv). e = unknown_set p)"
proof -
  from assms(1) consider
    "conditions_of (rp_match r) = Inl e"
  | cs where "conditions_of (rp_match r) = Inr cs" "or_match nv cs = Inl e"
  | kvs where "rp_set r = Some kvs" "rfold set_one kvs nv = Inl e"
    using assms(3) by (auto simp: apply_rule_def rbind_eq_Inl split: if_splits)
  then show ?thesis
  proof cases
    case 1
    then show ?thesis by (auto simp: conditions_of_def split: match_spec.splits)
  next
    case 2
    then obtain c where c: "c \<in> set cs" "and_match nv c = Inl e"
      using or_loop_Inl unfolding or_match_def by meson
    moreover have "fst ` set c \<subseteq> reads r"
      using 2(1) c(1) by (auto simp: conditions_of_def reads_def split: match_spec.splits)
    ultimately show ?thesis using and_match_Inl [OF c(2) assms(2)] by blast
  next
    case 3
    with set_loop_Inl [OF 3(2)] show ?thesis by (simp add: sets_def) blast
  qed
qed

lemma apply_rule_known:
  assumes "apply_rule r nv = Inr nv'" "known nv" "\<forall>kvs. rp_set r = Some kvs \<longrightarrow> (\<forall>kv \<in> set kvs. valued (snd kv))"
  shows "known nv'"
proof -
  have "known x'" if "rfold set_one kvs x = Inr x'" "known x" "\<forall>kv \<in> set kvs. valued (snd kv)" for kvs x x'
    using that
    by (induction kvs arbitrary: x)
      (auto simp: rbind_eq_Inr set_one_def known_dset valued_to_named split: if_splits)
  then show ?thesis
    using assms by (auto simp: apply_rule_def rbind_eq_Inr split: if_splits)
qed

lemma rules_Inl:
  assumes "rfold apply_rule rs nv = Inl e" "known nv"
    "\<forall>r \<in> set rs. \<exists>kvs. rp_set r = Some kvs \<and> (\<forall>kv \<in> set kvs. valued (snd kv))"
  shows "\<exists>r \<in> set rs. (rp_match r = MOther \<and> e = bad_match) \<or>
    (\<exists>p \<in> reads r - set (dkeys nv). e = unknown_match p) \<or> (\<exists>p \<in> sets r - set (dkeys nv). e = unknown_set p)"
  using assms
proof (induction rs arbitrary: nv)
  case Nil
  then show ?case by simp
next
  case (Cons r rs)
  show ?case
  proof (cases "apply_rule r nv")
    case (Inl x)
    with Cons.prems(1) have "apply_rule r nv = Inl e" by simp
    with apply_rule_Inl [OF this Cons.prems(2)] Cons.prems(3) show ?thesis by auto
  next
    case (Inr nv')
    have "known nv'" using apply_rule_known [OF Inr Cons.prems(2)] Cons.prems(3) by auto
    moreover have "fst ` set nv' = fst ` set nv" using apply_rule_keys [OF Inr] by (rule dkeys_eq_set)
    ultimately show ?thesis using Cons.IH [of nv'] Cons.prems Inr by auto
  qed
qed

section \<open>Properties\<close>

definition sample_combination :: combination where
  "sample_combination = [(''ycsb.n'', \<lparr>nv_name = ''n1'', nv_value = Some (PInt 1)\<rparr>),
     (''ycsb.hot'', \<lparr>nv_name = ''hot'', nv_value = Some (PStr ''all'')\<rparr>)]"

definition sample_rule :: replace where
  "sample_rule = \<lparr>rp_match = MList [[(''ycsb.n'', Plain (PInt 2))], [(''ycsb.hot'', Named \<lparr>nv_name = ''hot'', nv_value = None\<rparr>)]],
     rp_set = Some [(''ycsb.n'', Plain (PInt 7))]\<rparr>"

definition sample_bad_rule :: replace where
  "sample_bad_rule = \<lparr>rp_match = MAbsent, rp_set = Some [(''ycsb.cold'', Plain (PInt 7))]\<rparr>"

text \<open>C6 Replacement rules that name only parameters of the combination never fail. They apply one after
  the other, each seeing the values the earlier ones left: a rule fires when it has no condition or
  when every test of one of its conditions holds (an object compares names, a scalar compares
  values), and then assigns exactly the values of its \<^verbatim>\<open>set\<close>.\<close>

theorem replace_values_semantics:
  assumes "known nv" and "\<forall>r \<in> set rs. rule_ok (set (dkeys nv)) r"
  shows "replace_values rs nv = Inr (fold (\<lambda>r nv.
      case conditions_of (rp_match r) of
        Inl _ \<Rightarrow> nv
      | Inr cs \<Rightarrow>
          if cs = [] \<or> (\<exists>c \<in> set cs. \<forall>t \<in> set c. test_holds nv t)
          then dmerge nv (map (\<lambda>(p, v). (p, to_named_value p v)) (the (rp_set r)))
          else nv) rs nv)"
proof -
  have "fold rule_effect rs nv = fold (\<lambda>r nv.
      case conditions_of (rp_match r) of
        Inl _ \<Rightarrow> nv
      | Inr cs \<Rightarrow>
          if cs = [] \<or> (\<exists>c \<in> set cs. \<forall>t \<in> set c. test_holds nv t)
          then dmerge nv (map (\<lambda>(p, v). (p, to_named_value p v)) (the (rp_set r)))
          else nv) rs nv"
    using assms(2)
    by (intro fold_cong)
      (auto simp: rule_effect_def rule_matches_def rule_ok_def fun_eq_iff split: sum.splits)
  with replace_values_eq [OF assms] show ?thesis by simp
qed

lemma replace_values_semantics_witness:
  "replace_values [sample_rule] sample_combination = Inr
     [(''ycsb.n'', \<lparr>nv_name = ''n7'', nv_value = Some (PInt 7)\<rparr>),
      (''ycsb.hot'', \<lparr>nv_name = ''hot'', nv_value = Some (PStr ''all'')\<rparr>)]"
proof -
  have k: "known sample_combination" by (simp add: known_def sample_combination_def)
  have r: "\<forall>r \<in> set [sample_rule]. rule_ok (set (dkeys sample_combination)) r"
    by (simp add: rule_ok_def sample_rule_def sample_combination_def conditions_of_def valued_def)
  have n: "to_named_value ''ycsb.n'' (Plain (PInt 7)) = \<lparr>nv_name = ''n7'', nv_value = Some (PInt 7)\<rparr>"
    by code_simp
  from replace_values_semantics [OF k r] show ?thesis
    by (simp add: sample_rule_def sample_combination_def conditions_of_def test_holds_def dmerge_def n)
qed

text \<open>Replacement never adds, drops or reorders a parameter, and a parameter that no rule assigns keeps
  its name and value.\<close>

theorem replace_values_frame:
  assumes "replace_values rs nv = Inr nv'"
  shows "dkeys nv' = dkeys nv \<and>
    (\<forall>p. (\<forall>r \<in> set rs. \<forall>kvs. rp_set r = Some kvs \<longrightarrow> p \<notin> set (dkeys kvs)) \<longrightarrow> dget nv' p = dget nv p)"
proof -
  have "p \<notin> sets r" if "\<forall>kvs. rp_set r = Some kvs \<longrightarrow> p \<notin> set (dkeys kvs)" for p r
    using that by (simp add: sets_def split: option.split)
  with assms show ?thesis
    unfolding replace_values_def by (meson replace_values_dkeys [unfolded replace_values_def] rules_frame)
qed

lemma replace_values_frame_witness:
  "\<exists>nv'. replace_values [sample_rule] sample_combination = Inr nv' \<and>
     dget nv' ''ycsb.hot'' = Some \<lparr>nv_name = ''hot'', nv_value = Some (PStr ''all'')\<rparr>"
proof -
  have "\<exists>nv'. replace_values [sample_rule] sample_combination = Inr nv'"
    by (simp add: replace_values_def apply_rule_def or_match_def set_one_def
        sample_rule_def sample_combination_def conditions_of_def)
  then obtain nv' where r: "replace_values [sample_rule] sample_combination = Inr nv'" by blast
  have "\<forall>r \<in> set [sample_rule]. \<forall>kvs. rp_set r = Some kvs \<longrightarrow> ''ycsb.hot'' \<notin> set (dkeys kvs)"
    by (simp add: sample_rule_def)
  with replace_values_frame [OF r] r show ?thesis by (simp add: sample_combination_def)
qed

text \<open>When every rule has a \<^verbatim>\<open>set\<close> and every value of it carries a value, replacement fails only for the
  three documented reasons: a \<^verbatim>\<open>match\<close> that is not a list, a condition on a parameter the combination
  does not have, or an assignment to one.\<close>

theorem replace_values_errors:
  assumes "replace_values rs nv = Inl e" and "known nv"
    and "\<forall>r \<in> set rs. \<exists>kvs. rp_set r = Some kvs \<and> (\<forall>kv \<in> set kvs. valued (snd kv))"
  shows "(\<exists>r \<in> set rs. rp_match r = MOther \<and> e = bad_match) \<or>
    (\<exists>r \<in> set rs. \<exists>p \<in> reads r - set (dkeys nv). e = unknown_match p) \<or>
    (\<exists>r \<in> set rs. \<exists>p \<in> sets r - set (dkeys nv). e = unknown_set p)"
  using rules_Inl [OF assms [unfolded replace_values_def]] by meson

lemma replace_values_errors_witness:
  "replace_values [sample_rule, sample_bad_rule] sample_combination = Inl (unknown_set ''ycsb.cold'')"
proof -
  let ?v = "replace_values [sample_rule, sample_bad_rule] sample_combination"
  obtain e where e: "?v = Inl e"
    by (simp add: replace_values_def apply_rule_def or_match_def set_one_def sample_bad_rule_def
        sample_rule_def sample_combination_def conditions_of_def)
  have k: "known sample_combination" by (simp add: known_def sample_combination_def)
  have s: "\<forall>r \<in> set [sample_rule, sample_bad_rule].
      \<exists>kvs. rp_set r = Some kvs \<and> (\<forall>kv \<in> set kvs. valued (snd kv))"
    by (simp add: sample_rule_def sample_bad_rule_def valued_def)
  from replace_values_errors [OF e k s] e show ?thesis
    by (simp add: sample_rule_def sample_bad_rule_def sample_combination_def reads_def sets_def)
qed

end
