(* ===== verification/Bench_Args.thy ===== *)
theory Bench_Args
  imports Params
begin

text \<open>
  The generator \<^verbatim>\<open>benchmark_args\<close> of \<^verbatim>\<open>tools/experiment.py\<close>: it reads an experiment, builds
  every combination of the parameter values in the order of \<^verbatim>\<open>param_keys\<close>, applies the
  replacement rules and yields the command-line arguments, the metadata and the tag of each
  benchmark. A generator yields some items and then ends or raises; since its body does not
  depend on what the consumer does between two items, it is the list of the items it yields
  together with the exception it raises at the end, if any.
\<close>

section \<open>The experiment\<close>

datatype param_key = KeyName string | KeyObj string bool

datatype value_field = VList "spec list" | VOne spec

text \<open>
  The scalar keys of the file (\<^verbatim>\<open>dbtype\<close>, \<^verbatim>\<open>benchmark\<close>, \<^verbatim>\<open>scalefactor\<close>, \<^verbatim>\<open>time\<close>, \<^verbatim>\<open>rate\<close>,
  \<^verbatim>\<open>isolation\<close>, \<^verbatim>\<open>reload_every\<close>) stay a dictionary: the code reads them by subscript. The
  name is set by \<^verbatim>\<open>load_experiment\<close>; \<open>e_replace\<close> is \<^verbatim>\<open>exp.get("replace") or []\<close>.
\<close>

record exp_file =
  e_name :: string
  e_scalars :: "(string, pval) dict"
  e_param_keys :: "param_key list option"
  e_param_values :: "(string, value_field) dict option"
  e_replace :: "replace list"

definition scalar :: "exp_file \<Rightarrow> string \<Rightarrow> pval res" where
  "scalar e k = req (KeyError k) (dget (e_scalars e) k)"

record bench_item =
  bi_args :: "string list"
  bi_metadata :: "(string, pval) dict"
  bi_tag :: string

section \<open>Setting up\<close>

definition base_keys :: "string list" where
  "base_keys = [''dbtype'', ''benchmark'', ''scalefactor'', ''time'', ''rate'', ''isolation'']"

definition base_values :: "exp_file \<Rightarrow> (string, pval) dict res" where
  "base_values e = rmap (\<lambda>k. rbind (scalar e k) (\<lambda>v. Inr (k, v))) base_keys"

definition set_flag :: "string \<Rightarrow> string \<Rightarrow> string list" where
  "set_flag k s = [''-s'', k @ ''='' @ s]"

definition base_args :: "(string, pval) dict \<Rightarrow> string list" where
  "base_args kvs = concat (map (\<lambda>(k, v). set_flag k (py_str v)) kvs)"

text \<open>The metadata leaves \<^verbatim>\<open>dbtype\<close> out and starts with the prefix.\<close>

definition base_metadata :: "string option \<Rightarrow> (string, pval) dict \<Rightarrow> (string, pval) dict" where
  "base_metadata pre kvs =
     (''prefix'', PStr (case pre of None \<Rightarrow> [] | Some p \<Rightarrow> p)) # filter (\<lambda>(k, v). k \<noteq> ''dbtype'') kvs"

fun key_entry :: "param_key \<Rightarrow> string \<times> bool" where
  "key_entry (KeyName k) = (k, False)"
| "key_entry (KeyObj k always) = (k, always)"

definition build_keys :: "param_key list \<Rightarrow> (string, bool) dict" where
  "build_keys pks = dmerge [] (map key_entry pks)"

fun value_list :: "value_field \<Rightarrow> spec list" where
  "value_list (VList vs) = vs"
| "value_list (VOne v) = [v]"

definition named_parameters :: "(string, value_field) dict \<Rightarrow> (string, named list) dict" where
  "named_parameters pvs = map (\<lambda>(p, vs). (p, map (to_named_value p) (value_list vs))) pvs"

definition tag_params :: "(string, bool) dict \<Rightarrow> (string, value_field) dict \<Rightarrow> string list" where
  "tag_params keys pvs = [p. (p, vs) \<leftarrow> pvs,
     1 < length (value_list vs) \<or> dget keys p = Some True]"

definition mismatch :: exn where
  "mismatch = ValueError ''The parameters in param_values do not match those in param_keys''"

section \<open>Combinations\<close>

text \<open>One pass of the loop over \<^verbatim>\<open>param_keys\<close> extends every combination by every value.\<close>

definition extend_with :: "(string, named list) dict \<Rightarrow> string \<Rightarrow> combination list \<Rightarrow> combination list res" where
  "extend_with np p cs = (if cs = [] then Inr [] else
     rbind (req (KeyError p) (dget np p)) (\<lambda>vs. Inr [dset p v x. x \<leftarrow> cs, v \<leftarrow> vs]))"

definition combinations :: "string list \<Rightarrow> (string, named list) dict \<Rightarrow> combination list res" where
  "combinations keys np = rfold (extend_with np) keys [[]]"

section \<open>One benchmark\<close>

text \<open>The comma separates values for helm, so it is escaped with a backslash in strings.\<close>

definition escape :: "pval \<Rightarrow> string" where
  "escape v = (case v of PStr s \<Rightarrow> replace_char (CHR '','') [CHR 92, CHR '',''] s | _ \<Rightarrow> py_str v)"

record building =
  b_args :: "string list"
  b_metadata :: "(string, pval) dict"
  b_tag :: "string list"

text \<open>The message's dump of the whole combination is left out.\<close>

definition none_value :: "string \<Rightarrow> exn" where
  "none_value p = ValueError (''Combination has a None value for '' @ [CHR 34] @ p @ [CHR 34])"

definition add_param :: "string list \<Rightarrow> string \<times> named \<Rightarrow> building \<Rightarrow> building res" where
  "add_param tags pn b = rbind (req (KeyError ''value'') (nv_value (snd pn))) (\<lambda>v.
     if v = PNone then Inl (none_value (fst pn))
     else Inr \<lparr>b_args = b_args b @ set_flag (fst pn) (escape v),
               b_metadata = dset (fst pn) v (b_metadata b),
               b_tag = b_tag b @ (if fst pn \<in> set tags then [nv_name (snd pn)] else [])\<rparr>)"

definition opt_part :: "string option \<Rightarrow> string list" where
  "opt_part s = (case s of None \<Rightarrow> [] | Some x \<Rightarrow> if x = [] then [] else [x])"

definition one_benchmark :: "exp_file \<Rightarrow> string option \<Rightarrow> string option \<Rightarrow> (string, pval) dict
    \<Rightarrow> string list \<Rightarrow> combination \<Rightarrow> bench_item res" where
  "one_benchmark e pre suf base tags c =
     rbind (replace_values (e_replace e) c) (\<lambda>c'.
     rbind (rfold (add_param tags) c' \<lparr>b_args = [], b_metadata = [], b_tag = opt_part pre @ [e_name e]\<rparr>)
       (\<lambda>b. let tag = join ''-'' (b_tag b @ opt_part suf)
            in Inr \<lparr>bi_args = base_args base @ b_args b @ set_flag ''tag'' tag,
                    bi_metadata = dmerge (base_metadata pre base) (b_metadata b),
                    bi_tag = tag\<rparr>))"

section \<open>The generator\<close>

record exp_setup =
  s_base :: "(string, pval) dict"
  s_keys :: "(string, bool) dict"
  s_tags :: "string list"
  s_combinations :: "combination list"

definition set_up :: "exp_file \<Rightarrow> exp_setup res" where
  "set_up e =
     rbind (base_values e) (\<lambda>base.
     rbind (req (KeyError ''param_keys'') (e_param_keys e)) (\<lambda>pks.
     rbind (req (KeyError ''param_values'') (e_param_values e)) (\<lambda>pvs.
       let keys = build_keys pks in
       if set (dkeys keys) \<noteq> set (dkeys pvs) then Inl mismatch
       else rbind (combinations (dkeys keys) (named_parameters pvs)) (\<lambda>cs.
         Inr \<lparr>s_base = base, s_keys = keys, s_tags = tag_params keys pvs, s_combinations = cs\<rparr>))))"

definition benchmark_args :: "exp_file \<Rightarrow> string option \<Rightarrow> string option \<Rightarrow> bench_item list \<times> exn option" where
  "benchmark_args e pre suf = (case set_up e of
     Inl x \<Rightarrow> ([], Some x)
   | Inr s \<Rightarrow> generate (one_benchmark e pre suf (s_base s) (s_tags s)) (s_combinations s))"

section \<open>The combinations are the product of the value lists\<close>

lemma concat_concat_map: "concat (concat xss) = concat (map concat xss)"
  by (induction xss) auto

lemma product_lists_snoc:
  "product_lists (xss @ [vs]) = [l @ [v]. l \<leftarrow> product_lists xss, v \<leftarrow> vs]"
  by (induction xss) (simp_all add: map_concat concat_concat_map comp_def)

lemma product_lists_length: "l \<in> set (product_lists xss) \<Longrightarrow> length l = length xss"
  by (simp add: in_set_product_lists_length)

lemma dset_zip_fresh:
  "length l = length ks \<Longrightarrow> p \<notin> set ks \<Longrightarrow> dset p v (zip ks l) = zip (ks @ [p]) (l @ [v])"
  by (induction l ks rule: list_induct2) auto

lemma combinations_eq:
  "distinct keys \<Longrightarrow> (\<And>p. p \<in> set keys \<Longrightarrow> dget np p = Some (vals p)) \<Longrightarrow>
   combinations keys np = Inr (map (zip keys) (product_lists (map vals keys)))"
proof (induction keys rule: rev_induct)
  case Nil
  then show ?case by (simp add: combinations_def)
next
  case (snoc p ks)
  let ?cs = "map (zip ks) (product_lists (map vals ks))"
  have IH: "combinations ks np = Inr ?cs" using snoc by simp
  have np: "dget np p = Some (vals p)" using snoc.prems by simp
  have step: "[dset p v x. x \<leftarrow> ?cs, v \<leftarrow> vals p]
      = map (zip (ks @ [p])) (product_lists (map vals ks @ [vals p]))"
  proof -
    have "map (\<lambda>v. dset p v (zip ks l)) (vals p) = map (\<lambda>v. zip (ks @ [p]) (l @ [v])) (vals p)"
      if "l \<in> set (product_lists (map vals ks))" for l
      using product_lists_length [OF that] snoc.prems(1) by (simp add: dset_zip_fresh)
    then show ?thesis
      by (simp add: product_lists_snoc map_concat comp_def cong: map_cong)
  qed
  show ?case
    using IH np step unfolding combinations_def
    by (auto simp: rfold_append extend_with_def)
qed

definition candidates :: "(string, value_field) dict \<Rightarrow> string \<Rightarrow> named list" where
  "candidates pvs p = (case dget pvs p of None \<Rightarrow> [] | Some vs \<Rightarrow> map (to_named_value p) (value_list vs))"

lemma named_parameters_get:
  "dget (named_parameters pvs) p = map_option (\<lambda>vs. map (to_named_value p) (value_list vs)) (dget pvs p)"
  unfolding named_parameters_def by (rule map_of_map_key)

lemma wf_build_keys: "distinct (dkeys (build_keys pks))"
  using wf_dict_dmerge [of "[]"] by (simp add: build_keys_def wf_dict_def)

lemma set_up_eq:
  assumes "set_up e = Inr s"
  obtains base pks pvs where "base_values e = Inr base" "e_param_keys e = Some pks"
    "e_param_values e = Some pvs" "fst ` set (build_keys pks) = fst ` set pvs"
    "s = \<lparr>s_base = base, s_keys = build_keys pks, s_tags = tag_params (build_keys pks) pvs,
      s_combinations = map (zip (dkeys (build_keys pks)))
        (product_lists (map (candidates pvs) (dkeys (build_keys pks))))\<rparr>"
proof -
  from assms obtain base pks pvs cs where s: "base_values e = Inr base" "e_param_keys e = Some pks"
    "e_param_values e = Some pvs" "fst ` set (build_keys pks) = fst ` set pvs"
    "combinations (dkeys (build_keys pks)) (named_parameters pvs) = Inr cs"
    "s = \<lparr>s_base = base, s_keys = build_keys pks, s_tags = tag_params (build_keys pks) pvs,
      s_combinations = cs\<rparr>"
    by (auto simp: set_up_def rbind_eq_Inr Let_def split: if_splits)
  have "dget (named_parameters pvs) p = Some (candidates pvs p)"
    if "p \<in> set (dkeys (build_keys pks))" for p
    using that s(4) dget_Some_of_key [of p pvs]
    by (auto simp: named_parameters_get candidates_def)
  from combinations_eq [OF wf_build_keys this] s(5)
  have "cs = map (zip (dkeys (build_keys pks))) (product_lists (map (candidates pvs) (dkeys (build_keys pks))))"
    by simp
  with s that show ?thesis by blast
qed

section \<open>One benchmark in closed form\<close>

definition value_of :: "named \<Rightarrow> pval" where
  "value_of n = (case nv_value n of None \<Rightarrow> PNone | Some v \<Rightarrow> v)"

definition usable :: "combination \<Rightarrow> bool" where
  "usable c \<longleftrightarrow> (\<forall>pn \<in> set c. value_of (snd pn) \<noteq> PNone)"

lemma add_param_eq:
  "value_of n \<noteq> PNone \<Longrightarrow> add_param tags (p, n) b = Inr
     \<lparr>b_args = b_args b @ set_flag p (escape (value_of n)),
      b_metadata = dset p (value_of n) (b_metadata b),
      b_tag = b_tag b @ (if p \<in> set tags then [nv_name n] else [])\<rparr>"
  by (auto simp: add_param_def value_of_def split: option.splits)

lemma add_param_Inr: "add_param tags pn b = Inr b' \<Longrightarrow> value_of (snd pn) \<noteq> PNone"
  by (auto simp: add_param_def value_of_def rbind_eq_Inr split: if_splits)

lemma add_params_usable: "rfold (add_param tags) c b = Inr b' \<Longrightarrow> usable c"
  by (induction c arbitrary: b) (auto simp: rbind_eq_Inr usable_def dest: add_param_Inr)

lemma add_params_eq:
  "usable c \<Longrightarrow> rfold (add_param tags) c b = Inr
     \<lparr>b_args = b_args b @ concat (map (\<lambda>(p, n). set_flag p (escape (value_of n))) c),
      b_metadata = dmerge (b_metadata b) (map (\<lambda>(p, n). (p, value_of n)) c),
      b_tag = b_tag b @ [nv_name n. (p, n) \<leftarrow> c, p \<in> set tags]\<rparr>"
proof (induction c arbitrary: b)
  case Nil
  then show ?case by (simp add: dmerge_def)
next
  case (Cons pn c)
  obtain p n where pn: "pn = (p, n)" by force
  from Cons.prems have "value_of n \<noteq> PNone" and "usable c" by (auto simp: usable_def pn)
  with Cons.IH show ?case by (simp add: pn add_param_eq dmerge_def)
qed

lemma one_benchmark_Inr:
  assumes "one_benchmark e pre suf base tags c = Inr item"
  obtains c' where "replace_values (e_replace e) c = Inr c'" "usable c'"
    "bi_args item = base_args base @ concat (map (\<lambda>(p, n). set_flag p (escape (value_of n))) c')
       @ set_flag ''tag'' (bi_tag item)"
    "bi_metadata item = dmerge (base_metadata pre base) (dmerge [] (map (\<lambda>(p, n). (p, value_of n)) c'))"
    "bi_tag item = join ''-'' (opt_part pre @ [e_name e] @ [nv_name n. (p, n) \<leftarrow> c', p \<in> set tags] @ opt_part suf)"
proof -
  from assms obtain c' b where c': "replace_values (e_replace e) c = Inr c'"
    and b: "rfold (add_param tags) c' \<lparr>b_args = [], b_metadata = [], b_tag = opt_part pre @ [e_name e]\<rparr> = Inr b"
    by (auto simp: one_benchmark_def rbind_eq_Inr)
  have u: "usable c'" using b by (rule add_params_usable)
  show ?thesis
    by (rule that [OF c' u])
      (use assms c' add_params_eq [OF u] in \<open>auto simp: one_benchmark_def Let_def\<close>)
qed

lemma one_benchmark_eq:
  assumes "replace_values (e_replace e) c = Inr c'" and "usable c'"
  shows "one_benchmark e pre suf base tags c = Inr
    (let tag = join ''-'' (opt_part pre @ [e_name e] @ [nv_name n. (p, n) \<leftarrow> c', p \<in> set tags] @ opt_part suf)
     in \<lparr>bi_args = base_args base @ concat (map (\<lambda>(p, n). set_flag p (escape (value_of n))) c') @ set_flag ''tag'' tag,
         bi_metadata = dmerge (base_metadata pre base) (dmerge [] (map (\<lambda>(p, n). (p, value_of n)) c')),
         bi_tag = tag\<rparr>)"
  using assms by (simp add: one_benchmark_def add_params_eq Let_def)

lemma one_benchmark_suffix:
  "map_sum id bi_metadata (one_benchmark e pre suf base tags c) =
   map_sum id bi_metadata (one_benchmark e pre suf' base tags c)"
  by (auto simp: one_benchmark_def rbind_def Let_def split: sum.splits)

lemma add_params_Inl:
  "rfold (add_param tags) c b = Inl x \<Longrightarrow> \<exists>(p, n) \<in> set c. (nv_value n = None \<and> x = KeyError ''value'') \<or>
     (nv_value n = Some PNone \<and> x = none_value p)"
proof (induction c arbitrary: b)
  case Nil
  then show ?case by simp
next
  case (Cons pn c)
  obtain p n where pn: "pn = (p, n)" by force
  show ?case
  proof (cases "value_of n = PNone")
    case True
    with Cons.prems show ?thesis by (auto simp: pn add_param_def value_of_def split: option.splits)
  next
    case False
    with Cons.prems Cons.IH show ?thesis by (simp add: pn add_param_eq)
  qed
qed

lemma one_benchmark_Inl:
  "one_benchmark e pre suf base tags c = Inl x \<Longrightarrow> replace_values (e_replace e) c = Inl x \<or>
   (\<exists>c'. replace_values (e_replace e) c = Inr c' \<and>
      (\<exists>(p, n) \<in> set c'. (nv_value n = None \<and> x = KeyError ''value'') \<or> (nv_value n = Some PNone \<and> x = none_value p)))"
  unfolding one_benchmark_def rbind_eq_Inl Let_def by (auto dest!: add_params_Inl)

lemma build_keys_set: "fst ` set (build_keys pks) = fst ` key_entry ` set pks"
  using pd.set_keys_puts [of "[]" "map key_entry pks"] by (simp add: build_keys_def dmerge_def)

section \<open>Escaping\<close>

text \<open>Every comma stands behind a backslash.\<close>

fun commas_escaped :: "string \<Rightarrow> bool" where
  "commas_escaped [] = True"
| "commas_escaped (c # s) = (if c = CHR 92 then (case s of [] \<Rightarrow> True | d # t \<Rightarrow> commas_escaped t)
     else c \<noteq> CHR '','' \<and> commas_escaped s)"

lemma escape_replace_escaped:
  "CHR 92 \<notin> set s \<Longrightarrow> commas_escaped (replace_char (CHR '','') [CHR 92, CHR '',''] s)"
  by (induction s) (auto simp: replace_char_def)

lemma no_comma_escaped: "CHR '','' \<notin> set s \<Longrightarrow> CHR 92 \<notin> set s \<Longrightarrow> commas_escaped s"
  by (induction s) auto

section \<open>The default experiment\<close>

text \<open>The experiment of \<^verbatim>\<open>tools/experiments/default.yaml\<close>, as \<^verbatim>\<open>yaml.safe_load\<close> reads it.\<close>

definition default_experiment :: exp_file where
  "default_experiment = \<lparr>e_name = ''default'',
     e_scalars = [(''dbtype'', PStr ''sunstorm''), (''benchmark'', PStr ''hot''), (''scalefactor'', PInt 10),
       (''time'', PInt 10), (''rate'', PInt 10000), (''isolation'', PStr ''TRANSACTION_SERIALIZABLE''),
       (''reload_every'', PInt 15)],
     e_param_keys = Some [KeyName ''hot.weights'', KeyName ''terminals'', KeyObj ''hot.keyspertxn'' True,
       KeyName ''hot.hot'', KeyName ''pseudo''],
     e_param_values = Some [(''terminals'', VOne (Plain PNone)), (''hot.keyspertxn'', VOne (Plain (PInt 4))),
       (''hot.hot'', VList [Plain (PInt 0), Plain (PInt 100)]),
       (''hot.weights'', VList [Named \<lparr>nv_name = ''F-mr0'', nv_value = Some (PStr ''100000,0,0,0,0,0,0,0,0,0'')\<rparr>]),
       (''pseudo'', VList [Plain (PInt 1), Plain (PInt 2)])],
     e_replace =
       [\<lparr>rp_match = MList [[(''hot.weights'', Named \<lparr>nv_name = ''F-mr0'', nv_value = None\<rparr>)]],
         rp_set = Some [(''terminals'', Plain (PInt 1))]\<rparr>,
        \<lparr>rp_match = MList [[(''hot.hot'', Plain (PInt 0)), (''pseudo'', Plain (PInt 2))],
           [(''hot.hot'', Plain (PInt 100)), (''pseudo'', Plain (PInt 1))]],
         rp_set = Some [(''hot.keyspertxn'', Named \<lparr>nv_name = ''8keys'', nv_value = Some (PInt 8)\<rparr>)]\<rparr>]\<rparr>"

text \<open>Its setup, and what its rules make of a combination.\<close>

definition default_base :: "(string, pval) dict" where
  "default_base = [(''dbtype'', PStr ''sunstorm''), (''benchmark'', PStr ''hot''), (''scalefactor'', PInt 10),
       (''time'', PInt 10), (''rate'', PInt 10000), (''isolation'', PStr ''TRANSACTION_SERIALIZABLE'')]"

definition default_combination :: "string \<times> int \<Rightarrow> string \<times> int \<Rightarrow> combination" where
  "default_combination h p = [
    (''hot.weights'', \<lparr>nv_name = ''F-mr0'', nv_value = Some (PStr ''100000,0,0,0,0,0,0,0,0,0'')\<rparr>),
    (''terminals'', \<lparr>nv_name = ''terminalsNone'', nv_value = Some PNone\<rparr>),
    (''hot.keyspertxn'', \<lparr>nv_name = ''keyspertxn4'', nv_value = Some (PInt 4)\<rparr>),
    (''hot.hot'', \<lparr>nv_name = fst h, nv_value = Some (PInt (snd h))\<rparr>),
    (''pseudo'', \<lparr>nv_name = fst p, nv_value = Some (PInt (snd p))\<rparr>)]"

definition default_setup :: exp_setup where
  "default_setup = \<lparr>s_base = default_base,
     s_keys = [(''hot.weights'', False), (''terminals'', False), (''hot.keyspertxn'', True), (''hot.hot'', False), (''pseudo'', False)],
     s_tags = [''hot.keyspertxn'', ''hot.hot'', ''pseudo''],
     s_combinations = [default_combination h p. h \<leftarrow> [(''hot0'', 0), (''hot100'', 100)], p \<leftarrow> [(''pseudo1'', 1), (''pseudo2'', 2)]]\<rparr>"

lemma default_set_up: "set_up default_experiment = Inr default_setup"
proof -
  let ?K = "[(''hot.weights'', False), (''terminals'', False), (''hot.keyspertxn'', True), (''hot.hot'', False), (''pseudo'', False)]"
  let ?P = "the (e_param_values default_experiment)"
  have b: "base_values default_experiment = Inr default_base"
    by (simp add: base_values_def default_experiment_def base_keys_def scalar_def default_base_def)
  have k: "build_keys (the (e_param_keys default_experiment)) = ?K"
    by (simp add: default_experiment_def build_keys_def dmerge_def)
  have s: "fst ` set ?K = fst ` set ?P"
    by (auto simp: default_experiment_def)
  have t: "tag_params ?K ?P = [''hot.keyspertxn'', ''hot.hot'', ''pseudo'']"
    by (simp add: default_experiment_def tag_params_def)
  have n: "named_parameters ?P = [(''terminals'', [\<lparr>nv_name = ''terminalsNone'', nv_value = Some PNone\<rparr>]),
      (''hot.keyspertxn'', [\<lparr>nv_name = ''keyspertxn4'', nv_value = Some (PInt 4)\<rparr>]),
      (''hot.hot'', [\<lparr>nv_name = ''hot0'', nv_value = Some (PInt 0)\<rparr>, \<lparr>nv_name = ''hot100'', nv_value = Some (PInt 100)\<rparr>]),
      (''hot.weights'', [\<lparr>nv_name = ''F-mr0'', nv_value = Some (PStr ''100000,0,0,0,0,0,0,0,0,0'')\<rparr>]),
      (''pseudo'', [\<lparr>nv_name = ''pseudo1'', nv_value = Some (PInt 1)\<rparr>, \<lparr>nv_name = ''pseudo2'', nv_value = Some (PInt 2)\<rparr>])]"
    by (simp add: named_parameters_def to_named_value_def str_simps default_experiment_def)
  have c: "combinations (dkeys ?K) (named_parameters ?P) = Inr (s_combinations default_setup)"
    unfolding n by (simp add: default_setup_def default_combination_def combinations_def extend_with_def)
  obtain ks ps where "e_param_keys default_experiment = Some ks" "e_param_values default_experiment = Some ps"
    by (simp add: default_experiment_def)
  with b k s t c show ?thesis
    by (simp add: set_up_def default_setup_def)
qed

definition default_replaced :: "string \<times> int \<Rightarrow> string \<times> int \<Rightarrow> string \<times> int \<Rightarrow> combination" where
  "default_replaced k h p = [
    (''hot.weights'', \<lparr>nv_name = ''F-mr0'', nv_value = Some (PStr ''100000,0,0,0,0,0,0,0,0,0'')\<rparr>),
    (''terminals'', \<lparr>nv_name = ''terminals1'', nv_value = Some (PInt 1)\<rparr>),
    (''hot.keyspertxn'', \<lparr>nv_name = fst k, nv_value = Some (PInt (snd k))\<rparr>),
    (''hot.hot'', \<lparr>nv_name = fst h, nv_value = Some (PInt (snd h))\<rparr>),
    (''pseudo'', \<lparr>nv_name = fst p, nv_value = Some (PInt (snd p))\<rparr>)]"

lemma default_rules:
  "replace_values (e_replace default_experiment) (default_combination h p) = Inr
     (default_replaced (if snd h = 0 \<and> snd p = 2 \<or> snd h = 100 \<and> snd p = 1 then (''8keys'', 8) else (''keyspertxn4'', 4)) h p)"
  by (auto simp: default_experiment_def default_combination_def default_replaced_def str_simps
      replace_values_def apply_rule_def conditions_of_def or_match_def set_one_def to_named_value_def)

lemma default_replaced_usable: "usable (default_replaced k h p)"
  by (simp add: usable_def default_replaced_def value_of_def)

lemma generate_suffix:
  "map_prod (map bi_metadata) id (generate (one_benchmark e pre suf base tags) cs) =
   map_prod (map bi_metadata) id (generate (one_benchmark e pre suf' base tags) cs)"
proof -
  have "map_prod (map bi_metadata) id (generate (one_benchmark e pre x base tags) cs) =
      generate (\<lambda>c. map_sum id bi_metadata (one_benchmark e pre x base tags c)) cs" for x
    by (simp add: generate_map map_prod_def split_beta)
  then show ?thesis by (simp only: one_benchmark_suffix [of e pre suf base tags _ suf'])
qed

lemma base_values_total: "\<forall>k \<in> set base_keys. k \<in> set (dkeys (e_scalars e)) \<Longrightarrow> \<exists>base. base_values e = Inr base"
proof -
  assume k: "\<forall>k \<in> set base_keys. k \<in> set (dkeys (e_scalars e))"
  have "rbind (scalar e x) (\<lambda>v. Inr (x, v)) = Inr (x, the (dget (e_scalars e) x))" if "x \<in> set base_keys" for x
  proof -
    have "x \<in> fst ` set (e_scalars e)" using k that by simp
    from dget_Some_of_key [OF this] show ?thesis by (auto simp: scalar_def)
  qed
  then have "base_values e = Inr (map (\<lambda>k. (k, the (dget (e_scalars e) k))) base_keys)"
    unfolding base_values_def by (rule rmap_all_Inr)
  then show ?thesis by blast
qed

lemma filter_escape: "CHR 92 \<notin> set s \<Longrightarrow> filter (\<lambda>c. c \<noteq> CHR 92) (replace_char (CHR '','') [CHR 92, CHR '',''] s) = s"
  by (induction s) (auto simp: replace_char_def)

section \<open>Properties\<close>

lemma benchmark_args_items:
  "set_up e = Inr s \<Longrightarrow> benchmark_args e pre suf = (items, None) \<Longrightarrow>
   list_all2 (\<lambda>c item. one_benchmark e pre suf (s_base s) (s_tags s) c = Inr item) (s_combinations s) items"
  by (simp add: benchmark_args_def generate_None rmap_Inr_iff)

text \<open>C4 The combinations of an accepted experiment are the full product of its value lists: the keys are the
  distinct parameter keys in their order, the last key varies fastest, and there are as many combinations
  as the product of the numbers of values.\<close>

theorem combinations_product:
  assumes "set_up e = Inr s"
  shows "\<exists>pvs. e_param_values e = Some pvs \<and>
    distinct (dkeys (s_keys s)) \<and> set (dkeys (s_keys s)) = set (dkeys pvs) \<and>
    s_combinations s = map (zip (dkeys (s_keys s)))
      (product_lists (map (\<lambda>p. map (to_named_value p) (value_list (the (dget pvs p)))) (dkeys (s_keys s)))) \<and>
    length (s_combinations s) = foldr (*) (map (\<lambda>p. length (value_list (the (dget pvs p)))) (dkeys (s_keys s))) 1"
proof -
  from set_up_eq [OF assms] obtain base pks pvs where s: "e_param_values e = Some pvs"
    "fst ` set (build_keys pks) = fst ` set pvs"
    "s = \<lparr>s_base = base, s_keys = build_keys pks, s_tags = tag_params (build_keys pks) pvs,
      s_combinations = map (zip (dkeys (build_keys pks)))
        (product_lists (map (candidates pvs) (dkeys (build_keys pks))))\<rparr>" by metis
  define ks where "ks = dkeys (build_keys pks)"
  have ks: "distinct ks" "set ks = fst ` set pvs"
    using wf_build_keys [of pks] s(2) by (simp_all add: ks_def)
  have "candidates pvs p = map (to_named_value p) (value_list (the (dget pvs p)))" if "p \<in> set ks" for p
    using that ks(2) dget_Some_of_key [of p pvs] by (auto simp: candidates_def)
  then have c: "map (candidates pvs) ks = map (\<lambda>p. map (to_named_value p) (value_list (the (dget pvs p)))) ks"
    by (rule map_cong [OF refl])
  have "dkeys (s_keys s) = ks" "s_combinations s = map (zip ks) (product_lists (map (candidates pvs) ks))"
    by (simp_all add: s(3) ks_def)
  then show ?thesis
    using s(1) ks by (intro exI [of _ pvs]) (simp add: c length_product_lists comp_def)
qed

lemma combinations_product_witness:
  "length (s_combinations default_setup) = foldr (*) (map (\<lambda>p. length (value_list
     (the (dget (the (e_param_values default_experiment)) p)))) (dkeys (s_keys default_setup))) 1 \<and>
   length (s_combinations default_setup) = 4"
proof
  from combinations_product [OF default_set_up]
  show "length (s_combinations default_setup) = foldr (*) (map (\<lambda>p. length (value_list
     (the (dget (the (e_param_values default_experiment)) p)))) (dkeys (s_keys default_setup))) 1" by force
  show "length (s_combinations default_setup) = 4" by (simp add: default_setup_def)
qed

text \<open>C5 When the generator finishes, it has yielded one benchmark per combination, in their order. A
  benchmark's parameters are those of its combination after the replacement rules, none without a value;
  its arguments are the base settings, one setting per parameter and the tag; its metadata are the base
  values (without the database type) overridden by the parameters; and its tag joins the prefix, the
  experiment's name, the names of the values of the tag parameters and the suffix.\<close>

theorem benchmark_items:
  assumes "set_up e = Inr s" and "benchmark_args e pre suf = (items, None)"
  shows "list_all2 (\<lambda>c item. \<exists>c'. replace_values (e_replace e) c = Inr c' \<and>
      (\<forall>(p, n) \<in> set c'. value_of n \<noteq> PNone) \<and>
      bi_args item = base_args (s_base s) @ concat (map (\<lambda>(p, n). [''-s'', p @ ''='' @ escape (value_of n)]) c')
        @ [''-s'', ''tag='' @ bi_tag item] \<and>
      bi_metadata item = dmerge (base_metadata pre (s_base s)) (dmerge [] (map (\<lambda>(p, n). (p, value_of n)) c')) \<and>
      bi_tag item = join ''-'' (opt_part pre @ [e_name e] @ [nv_name n. (p, n) \<leftarrow> c', p \<in> set (s_tags s)]
        @ opt_part suf))
    (s_combinations s) items"
  using benchmark_args_items [OF assms]
proof (rule list_all2_mono)
  fix c item
  assume "one_benchmark e pre suf (s_base s) (s_tags s) c = Inr item"
  then obtain c' where c': "replace_values (e_replace e) c = Inr c'" "usable c'"
    "bi_args item = base_args (s_base s) @ concat (map (\<lambda>(p, n). set_flag p (escape (value_of n))) c')
       @ set_flag ''tag'' (bi_tag item)"
    "bi_metadata item = dmerge (base_metadata pre (s_base s)) (dmerge [] (map (\<lambda>(p, n). (p, value_of n)) c'))"
    "bi_tag item = join ''-'' (opt_part pre @ [e_name e] @ [nv_name n. (p, n) \<leftarrow> c', p \<in> set (s_tags s)] @ opt_part suf)"
    by (rule one_benchmark_Inr)
  then show "\<exists>c'. replace_values (e_replace e) c = Inr c' \<and>
      (\<forall>(p, n) \<in> set c'. value_of n \<noteq> PNone) \<and>
      bi_args item = base_args (s_base s) @ concat (map (\<lambda>(p, n). [''-s'', p @ ''='' @ escape (value_of n)]) c')
        @ [''-s'', ''tag='' @ bi_tag item] \<and>
      bi_metadata item = dmerge (base_metadata pre (s_base s)) (dmerge [] (map (\<lambda>(p, n). (p, value_of n)) c')) \<and>
      bi_tag item = join ''-'' (opt_part pre @ [e_name e] @ [nv_name n. (p, n) \<leftarrow> c', p \<in> set (s_tags s)]
        @ opt_part suf)"
    by (intro exI [of _ c'] conjI c') (simp_all add: usable_def set_flag_def split_beta)
qed

lemma benchmark_items_witness:
  "\<exists>items. benchmark_args default_experiment None None = (items, None) \<and>
     map bi_tag items = [''default-keyspertxn4-hot0-pseudo1'', ''default-8keys-hot0-pseudo2'',
       ''default-8keys-hot100-pseudo1'', ''default-keyspertxn4-hot100-pseudo2'']"
proof -
  obtain items where i: "benchmark_args default_experiment None None = (items, None)"
    by (simp add: benchmark_args_def default_set_up default_setup_def
        one_benchmark_eq [OF default_rules default_replaced_usable] Let_def)
  have "s_combinations default_setup = [default_combination (''hot0'', 0) (''pseudo1'', 1),
      default_combination (''hot0'', 0) (''pseudo2'', 2), default_combination (''hot100'', 100) (''pseudo1'', 1),
      default_combination (''hot100'', 100) (''pseudo2'', 2)]"
    by (simp add: default_setup_def)
  with benchmark_items [OF default_set_up i] i show ?thesis
    by (simp add: list_all2_Cons1 default_rules)
      (auto simp: default_replaced_def default_setup_def opt_part_def default_experiment_def join_Cons)
qed

text \<open>The suffix, which the driver fills with a time stamp, changes neither the metadata of any item nor how
  many items there are nor the exception the generator ends with, as its documentation promises.\<close>

theorem suffix_not_in_metadata:
  "map bi_metadata (fst (benchmark_args e pre suf)) = map bi_metadata (fst (benchmark_args e pre suf')) \<and>
   snd (benchmark_args e pre suf) = snd (benchmark_args e pre suf')"
  using generate_suffix [of e pre suf _ _ _ suf']
  by (cases "set_up e") (auto simp: benchmark_args_def map_prod_def split_beta)

text \<open>When the generator raises, either the experiment was rejected before the first item, or every
  combination before one was yielded and the exception is that combination's: one of its replacement
  rules, or a parameter that is still without a value after them.\<close>

theorem generator_failure:
  assumes "benchmark_args e pre suf = (items, Some x)"
  shows "(set_up e = Inl x \<and> items = []) \<or>
    (\<exists>s c. set_up e = Inr s \<and> length items < length (s_combinations s) \<and>
      c = s_combinations s ! length items \<and>
      list_all2 (\<lambda>c item. one_benchmark e pre suf (s_base s) (s_tags s) c = Inr item)
        (take (length items) (s_combinations s)) items \<and>
      (replace_values (e_replace e) c = Inl x \<or>
       (\<exists>c'. replace_values (e_replace e) c = Inr c' \<and>
          (\<exists>(p, n) \<in> set c'. (nv_value n = None \<and> x = KeyError ''value'') \<or>
             (nv_value n = Some PNone \<and> x = none_value p)))))"
proof (cases "set_up e")
  case (Inl y)
  with assms show ?thesis by (simp add: benchmark_args_def)
next
  case (Inr s)
  let ?f = "one_benchmark e pre suf (s_base s) (s_tags s)"
  from assms Inr have g: "generate ?f (s_combinations s) = (items, Some x)" by (simp add: benchmark_args_def)
  from generate_prefix [of ?f "s_combinations s"] g obtain n where
    n: "rmap ?f (take n (s_combinations s)) = Inr items" "n < length (s_combinations s)"
      "?f (s_combinations s ! n) = Inl x" by auto
  have items: "list_all2 (\<lambda>c item. ?f c = Inr item) (take n (s_combinations s)) items"
    using n(1) by (simp add: rmap_Inr_iff)
  then have len: "length items = n" using n(2) by (simp add: list_all2_lengthD [symmetric])
  from n(3) have "replace_values (e_replace e) (s_combinations s ! n) = Inl x \<or>
      (\<exists>c'. replace_values (e_replace e) (s_combinations s ! n) = Inr c' \<and>
        (\<exists>(p, n) \<in> set c'. (nv_value n = None \<and> x = KeyError ''value'') \<or>
             (nv_value n = Some PNone \<and> x = none_value p)))"
    by (rule one_benchmark_Inl)
  with Inr items len n(2) show ?thesis by blast
qed

text \<open>Without its first replacement rule the default experiment has no number of terminals.\<close>

lemma generator_failure_witness:
  "benchmark_args (default_experiment\<lparr>e_replace := []\<rparr>) None None = ([], Some (none_value ''terminals''))"
proof -
  have u: "set_up (default_experiment\<lparr>e_replace := []\<rparr>) = Inr default_setup"
    using default_set_up by (simp add: set_up_def base_values_def scalar_def)
  have v: "benchmark_args (default_experiment\<lparr>e_replace := []\<rparr>) None None = ([], Some (none_value ''terminals''))"
    unfolding benchmark_args_def u
    by (simp add: default_setup_def default_combination_def one_benchmark_def replace_values_def add_param_def)
  from generator_failure [OF v] v show ?thesis by blast
qed

text \<open>An experiment whose parameter keys and parameter values differ as sets yields nothing and raises the
  documented error, whatever else it holds.\<close>

theorem keys_values_mismatch:
  assumes "\<forall>k \<in> set base_keys. k \<in> set (dkeys (e_scalars e))"
    and "e_param_keys e = Some pks" and "e_param_values e = Some pvs"
    and "fst ` key_entry ` set pks \<noteq> set (dkeys pvs)"
  shows "benchmark_args e pre suf = ([], Some mismatch)"
proof -
  obtain base where "base_values e = Inr base" using base_values_total [OF assms(1)] by blast
  then show ?thesis using assms(2-4) by (simp add: benchmark_args_def set_up_def build_keys_set)
qed

lemma keys_values_mismatch_witness:
  "benchmark_args (default_experiment\<lparr>e_param_keys := Some [KeyName ''pseudo'']\<rparr>) None None = ([], Some mismatch)"
proof -
  let ?e = "default_experiment\<lparr>e_param_keys := Some [KeyName ''pseudo'']\<rparr>"
  have k: "\<forall>k \<in> set base_keys. k \<in> set (dkeys (e_scalars ?e))"
    by (simp add: default_experiment_def base_keys_def)
  have p: "e_param_keys ?e = Some [KeyName ''pseudo'']" by simp
  obtain pvs where v: "e_param_values ?e = Some pvs" and t: "''terminals'' \<in> set (dkeys pvs)"
    by (simp add: default_experiment_def)
  have "''terminals'' \<notin> fst ` key_entry ` set [KeyName ''pseudo'']" by simp
  with t have d: "fst ` key_entry ` set [KeyName ''pseudo''] \<noteq> set (dkeys pvs)" by metis
  show ?thesis by (rule keys_values_mismatch [OF k p v d])
qed

text \<open>Helm splits the value of a setting at commas: the escaping puts a backslash before every comma of a
  parameter's text, and dropping the backslashes gives the text back.\<close>

theorem escape_commas:
  assumes "CHR 92 \<notin> set s"
  shows "commas_escaped (escape (PStr s)) \<and> filter (\<lambda>c. c \<noteq> CHR 92) (escape (PStr s)) = s"
  using escape_replace_escaped [OF assms] filter_escape [OF assms] by (simp add: escape_def)

lemma escape_commas_witness:
  "commas_escaped (escape (PStr ''100,0'')) \<and> escape (PStr ''100,0'') = ''100'' @ [CHR 92] @ '',0''"
  using escape_commas [of "''100,0''"] by (simp add: escape_def replace_char_def)

end
