(* ===== verification/Csv.thy ===== *)
theory Csv
  imports Py_Str
begin

text \<open>
  The part of Python's \<^verbatim>\<open>csv\<close> module that \<^verbatim>\<open>Progress.save\<close> and \<^verbatim>\<open>Progress.load\<close> use, with
  the text files they open: the default dialect's writer (a cell is quoted when it holds a
  comma, a quote or a line break, quotes are doubled, rows end with CR LF), the translation
  of line ends when a text file is read, and the reader's state machine. The main result is
  that reading what was written gives the cells back.
\<close>

abbreviation (input) CR :: char where "CR \<equiv> CHR 0x0D"
abbreviation (input) LF :: char where "LF \<equiv> CHR 0x0A"
abbreviation (input) QUOTE :: char where "QUOTE \<equiv> CHR 0x22"
abbreviation (input) COMMA :: char where "COMMA \<equiv> CHR 0x2C"

section \<open>Writing\<close>

definition needs_quote :: "string \<Rightarrow> bool" where
  "needs_quote s \<longleftrightarrow> list_ex (\<lambda>c. c = COMMA \<or> c = QUOTE \<or> c = CR \<or> c = LF) s"

definition double_quotes :: "string \<Rightarrow> string" where
  "double_quotes s = replace_char QUOTE [QUOTE, QUOTE] s"

definition write_cell :: "string \<Rightarrow> string" where
  "write_cell s = (if needs_quote s then [QUOTE] @ double_quotes s @ [QUOTE] else s)"

text \<open>A row that is one empty cell is written as a pair of quotes.\<close>

definition write_row :: "string list \<Rightarrow> string" where
  "write_row cells = (if cells = [[]] then [QUOTE, QUOTE] else join [COMMA] (map write_cell cells)) @ [CR, LF]"

definition write_rows :: "string list list \<Rightarrow> string" where
  "write_rows rows = concat (map write_row rows)"

section \<open>Reading\<close>

text \<open>Text mode turns CR LF and a lone CR into LF.\<close>

fun universal_newlines :: "string \<Rightarrow> string" where
  "universal_newlines [] = []"
| "universal_newlines (c # s) =
     (if c = CR then LF # (case s of [] \<Rightarrow> [] | d # t \<Rightarrow>
         if d = LF then universal_newlines t else universal_newlines s)
      else c # universal_newlines s)"

text \<open>
  The states of the reader, with the cells of the row so far and the cell being read. After
  the translation a line break is always LF, so it ends the record and the state that eats
  the rest of a line end is never entered.
\<close>

datatype cstate = StartRecord | StartField | InField | InQuoted | QuoteInQuoted

fun read_rows :: "cstate \<Rightarrow> string \<Rightarrow> string list \<Rightarrow> string \<Rightarrow> string list list" where
  "read_rows st cell cells [] = (if st = StartRecord then [] else [cells @ [cell]])"
| "read_rows st cell cells (c # s) = (case st of
     StartRecord \<Rightarrow>
       if c = LF then [] # read_rows StartRecord [] [] s
       else if c = QUOTE then read_rows InQuoted [] [] s
       else if c = COMMA then read_rows StartField [] [[]] s
       else read_rows InField [c] [] s
   | StartField \<Rightarrow>
       if c = LF then (cells @ [[]]) # read_rows StartRecord [] [] s
       else if c = QUOTE then read_rows InQuoted [] cells s
       else if c = COMMA then read_rows StartField [] (cells @ [[]]) s
       else read_rows InField [c] cells s
   | InField \<Rightarrow>
       if c = LF then (cells @ [cell]) # read_rows StartRecord [] [] s
       else if c = COMMA then read_rows StartField [] (cells @ [cell]) s
       else read_rows InField (cell @ [c]) cells s
   | InQuoted \<Rightarrow>
       if c = QUOTE then read_rows QuoteInQuoted cell cells s
       else read_rows InQuoted (cell @ [c]) cells s
   | QuoteInQuoted \<Rightarrow>
       if c = QUOTE then read_rows InQuoted (cell @ [c]) cells s
       else if c = COMMA then read_rows StartField [] (cells @ [cell]) s
       else if c = LF then (cells @ [cell]) # read_rows StartRecord [] [] s
       else read_rows InField (cell @ [c]) cells s)"

definition csv_rows :: "string \<Rightarrow> string list list" where
  "csv_rows text = read_rows StartRecord [] [] (universal_newlines text)"

section \<open>Reading back what was written\<close>

lemma universal_newlines_append:
  "CR \<notin> set s \<Longrightarrow> universal_newlines (s @ t) = s @ universal_newlines t"
  by (induction s) auto

text \<open>What the reader does at the end of a cell.\<close>

definition after_cell :: "string list \<Rightarrow> char \<Rightarrow> string \<Rightarrow> string list list" where
  "after_cell cells c s = (if c = COMMA then read_rows StartField [] cells s
     else cells # read_rows StartRecord [] [] s)"

lemma read_plain:
  "\<not> needs_quote s \<Longrightarrow> c = COMMA \<or> c = LF \<Longrightarrow>
   read_rows InField cell cells (s @ c # t) = after_cell (cells @ [cell @ s]) c t"
  by (induction s arbitrary: cell) (auto simp: needs_quote_def after_cell_def)

lemma read_quoted:
  "c = COMMA \<or> c = LF \<Longrightarrow>
   read_rows InQuoted cell cells (double_quotes s @ QUOTE # c # t) = after_cell (cells @ [cell @ s]) c t"
  by (induction s arbitrary: cell) (auto simp: double_quotes_def replace_char_def after_cell_def)

lemma read_cell:
  assumes "c = COMMA \<or> c = LF"
  shows "read_rows StartField [] cells (write_cell s @ c # t) = after_cell (cells @ [s]) c t"
proof (cases "needs_quote s")
  case True
  then show ?thesis using read_quoted [OF assms, of "[]"] by (simp add: write_cell_def)
next
  case False
  show ?thesis
  proof (cases s)
    case Nil
    then show ?thesis using assms False by (auto simp: write_cell_def after_cell_def)
  next
    case (Cons d u)
    with False have "\<not> needs_quote u" and "d \<noteq> COMMA" "d \<noteq> QUOTE" "d \<noteq> LF"
      by (auto simp: needs_quote_def)
    with False Cons read_plain [OF this(1) assms, of "[d]"] show ?thesis
      by (simp add: write_cell_def)
  qed
qed

lemma read_cells:
  "row \<noteq> [] \<Longrightarrow>
   read_rows StartField [] cells (join [COMMA] (map write_cell row) @ LF # t) =
   (cells @ row) # read_rows StartRecord [] [] t"
proof (induction row arbitrary: cells)
  case Nil
  then show ?case by simp
next
  case (Cons s row)
  show ?case
  proof (cases row)
    case Nil
    then show ?thesis by (simp add: read_cell after_cell_def)
  next
    case (Cons s' row')
    then have "read_rows StartField [] cells (join [COMMA] (map write_cell (s # row)) @ LF # t) =
        read_rows StartField [] (cells @ [s]) (join [COMMA] (map write_cell row) @ LF # t)"
      by (simp add: read_cell after_cell_def)
    also have "\<dots> = (cells @ s # row) # read_rows StartRecord [] [] t"
      using Cons.IH Cons by simp
    finally show ?thesis .
  qed
qed

lemma start_record_field:
  "s \<noteq> [] \<Longrightarrow> hd s \<noteq> LF \<Longrightarrow> read_rows StartRecord [] [] s = read_rows StartField [] [] s"
  by (cases s) auto

lemma write_cell_start: "write_cell s \<noteq> [] \<Longrightarrow> hd (write_cell s) \<noteq> LF"
  by (cases s) (auto simp: write_cell_def needs_quote_def)

lemma write_cell_empty [simp]: "write_cell [] = []"
  by (simp add: write_cell_def needs_quote_def)

lemma write_cell_Nil: "write_cell s = [] \<longleftrightarrow> s = []"
  by (auto simp: write_cell_def needs_quote_def)

lemma read_row:
  assumes "row \<noteq> []"
  shows "read_rows StartRecord [] []
      ((if row = [[]] then [QUOTE, QUOTE] else join [COMMA] (map write_cell row)) @ LF # t) =
    row # read_rows StartRecord [] [] t"
proof (cases "row = [[]]")
  case True
  then show ?thesis by simp
next
  case False
  let ?s = "join [COMMA] (map write_cell row)"
  have "?s \<noteq> [] \<and> hd ?s \<noteq> LF"
  proof (cases row)
    case Nil
    with assms show ?thesis by simp
  next
    case (Cons s row')
    then show ?thesis
      using False write_cell_start [of s]
      by (cases "write_cell s = []") (auto simp: join_Cons write_cell_Nil)
  qed
  then have "read_rows StartRecord [] [] (?s @ LF # t) = read_rows StartField [] [] (?s @ LF # t)"
    by (intro start_record_field) auto
  with False show ?thesis using read_cells [OF assms, of "[]"] by simp
qed

lemma write_cell_CR: "CR \<notin> set s \<Longrightarrow> CR \<notin> set (write_cell s)"
  by (auto simp: write_cell_def double_quotes_def replace_char_def split: if_splits)

lemma universal_write_row:
  assumes "\<forall>s \<in> set row. CR \<notin> set s"
  shows "universal_newlines (write_row row @ t) =
    (if row = [[]] then [QUOTE, QUOTE] else join [COMMA] (map write_cell row)) @ LF # universal_newlines t"
proof -
  let ?s = "if row = [[]] then [QUOTE, QUOTE] else join [COMMA] (map write_cell row)"
  have "CR \<notin> set ?s"
    using assms write_cell_CR by (auto dest!: join_chars)
  from universal_newlines_append [OF this] show ?thesis
    by (simp add: write_row_def)
qed

lemma csv_round_trip:
  "\<forall>row \<in> set rows. row \<noteq> [] \<and> (\<forall>s \<in> set row. CR \<notin> set s) \<Longrightarrow> csv_rows (write_rows rows) = rows"
proof (induction rows)
  case Nil
  then show ?case by (simp add: csv_rows_def write_rows_def)
next
  case (Cons row rows)
  then have "csv_rows (write_rows (row # rows)) = row # csv_rows (write_rows rows)"
    by (simp add: csv_rows_def write_rows_def universal_write_row read_row)
  with Cons show ?case by simp
qed

end
