(* ===== verification/Progress.thy ===== *)
theory Progress
  imports Py_Value Csv
begin

text \<open>
  The class \<^verbatim>\<open>Progress\<close> of \<^verbatim>\<open>tools/experiment.py\<close>: the records of the benchmarks of an
  experiment, in a list that mirrors a CSV file. \<^verbatim>\<open>get_or_insert\<close> returns a reference into the
  list, so a record is addressed by its index and the runner changes it in place. The contract
  the runner relies on is the locale \<open>record_store\<close>, interpreted here on the model.
\<close>

type_synonym prec = "(string, pval) dict"

record progress =
  p_recs :: "prec list"
  p_file :: "string option"

definition DONE :: string where "DONE = ''done''"
definition ERROR :: string where "ERROR = ''error''"
definition PENDING :: string where "PENDING = ''pending''"

definition STATUSES :: "pval list" where
  "STATUSES = [PStr DONE, PStr ERROR, PStr PENDING]"

section \<open>The file\<close>

text \<open>The text of a cell: \<^verbatim>\<open>None\<close> is written as an empty cell, other values with \<^verbatim>\<open>str\<close>.\<close>

definition cell_text :: "pval \<Rightarrow> string" where
  "cell_text v = (if v = PNone then [] else py_str v)"

definition fieldnames :: "prec list \<Rightarrow> string list" where
  "fieldnames rs = sort (remdups (concat (map dkeys rs)))"

definition dict_row :: "string list \<Rightarrow> prec \<Rightarrow> string list" where
  "dict_row fs r = map (\<lambda>f. case dget r f of None \<Rightarrow> [] | Some v \<Rightarrow> cell_text v) fs"

definition save :: "progress \<Rightarrow> progress" where
  "save p = (if p_recs p = [] then p
     else let fs = fieldnames (p_recs p)
          in p\<lparr>p_file := Some (write_rows (fs # map (dict_row fs) (p_recs p)))\<rparr>)"

text \<open>
  \<^verbatim>\<open>csv.DictReader\<close>: the first row names the fields, empty rows are skipped, cells missing at
  the end of a row are \<^verbatim>\<open>None\<close>; cells beyond the header are dropped here (Python collects them
  under the key \<^verbatim>\<open>None\<close>).
\<close>

definition dict_reader :: "string list list \<Rightarrow> prec list" where
  "dict_reader rows = (case rows of [] \<Rightarrow> [] | fs # rest \<Rightarrow>
     map (\<lambda>row. dmerge [] (zip fs (map PStr row @ replicate (length fs - length row) PNone)))
       (filter (\<lambda>row. row \<noteq> []) rest))"

text \<open>\<^verbatim>\<open>load\<close> says whether there is a file; without one it leaves the records alone.\<close>

definition load :: "progress \<Rightarrow> bool \<times> progress" where
  "load p = (case p_file p of
     None \<Rightarrow> (False, p)
   | Some text \<Rightarrow> (True, p\<lparr>p_recs := dict_reader (csv_rows text)\<rparr>))"

section \<open>Records\<close>

definition stringify :: "(string, pval) dict \<Rightarrow> (string, string) dict" where
  "stringify md = map (\<lambda>(k, v). (k, py_str v)) md"

text \<open>\<^verbatim>\<open>metadata.items() <= res.items()\<close>\<close>

definition matches :: "(string, string) dict \<Rightarrow> prec \<Rightarrow> bool" where
  "matches m r \<longleftrightarrow> list_all (\<lambda>(k, v). case dget r k of None \<Rightarrow> False | Some w \<Rightarrow> py_eq (PStr v) w) m"

fun find_match :: "(string, string) dict \<Rightarrow> prec list \<Rightarrow> nat option" where
  "find_match m [] = None"
| "find_match m (r # rs) = (if matches m r then Some 0 else map_option Suc (find_match m rs))"

definition new_record :: "(string, string) dict \<Rightarrow> prec" where
  "new_record m = dmerge [(''status'', PStr PENDING), (''reloaded'', PBool False)]
     (map (\<lambda>(k, v). (k, PStr v)) m)"

definition get_or_insert :: "(string, pval) dict \<Rightarrow> progress \<Rightarrow> nat \<times> progress" where
  "get_or_insert md p = (let m = stringify md in
     case find_match m (p_recs p) of
       Some i \<Rightarrow> (i, p)
     | None \<Rightarrow> (length (p_recs p), save (p\<lparr>p_recs := p_recs p @ [new_record m]\<rparr>)))"

text \<open>A change of the record the runner holds a reference to.\<close>

definition change :: "nat \<Rightarrow> (prec \<Rightarrow> prec) \<Rightarrow> progress \<Rightarrow> progress" where
  "change i f p = p\<lparr>p_recs := (p_recs p)[i := f (p_recs p ! i)]\<rparr>"

section \<open>Finding records\<close>

lemma find_match_Some:
  "find_match m rs = Some i \<longleftrightarrow> i < length rs \<and> matches m (rs ! i) \<and> (\<forall>j < i. \<not> matches m (rs ! j))"
proof (induction rs arbitrary: i)
  case Nil
  then show ?case by simp
next
  case (Cons r rs)
  then show ?case
    by (cases i) (auto simp: less_Suc_eq_0_disj)
qed

lemma find_match_None: "find_match m rs = None \<longleftrightarrow> (\<forall>r \<in> set rs. \<not> matches m r)"
  by (induction rs) auto

lemma save_recs [simp]: "p_recs (save p) = p_recs p"
  by (simp add: save_def Let_def)

lemma matches_iff: "matches m r \<longleftrightarrow> (\<forall>(k, v) \<in> set m. dget r k = Some (PStr v))"
  by (auto simp: matches_def list_all_iff split: option.splits)

lemma wf_stringify [simp]: "wf_dict (stringify md) \<longleftrightarrow> wf_dict md"
  by (simp add: wf_dict_def stringify_def comp_def split_beta)

lemma wf_map_PStr [simp]: "wf_dict (map (\<lambda>(k, v). (k, PStr v)) m) \<longleftrightarrow> wf_dict m"
  by (simp add: wf_dict_def comp_def split_beta)

lemma wf_new_record [simp]: "wf_dict (new_record m)"
  unfolding new_record_def by (rule wf_dict_dmerge) (simp add: wf_dict_def)

lemma new_record_get:
  "wf_dict m \<Longrightarrow> dget (new_record m) k = (case dget m k of Some v \<Rightarrow> Some (PStr v)
     | None \<Rightarrow> if k = ''status'' then Some (PStr PENDING) else if k = ''reloaded'' then Some (PBool False) else None)"
proof -
  assume m: "wf_dict m"
  have w: "wf_dict [(''status'', PStr PENDING), (''reloaded'', PBool False)]"
    by (simp add: wf_dict_def)
  have "dget (map (\<lambda>(k, v). (k, PStr v)) m) k = map_option PStr (dget m k)"
    using map_of_map_key [of "\<lambda>_. PStr" m k] by simp
  then show ?thesis using m w by (simp add: new_record_def dmerge_get_wf split: option.splits)
qed

lemma new_record_matches: "wf_dict m \<Longrightarrow> matches m (new_record m)"
  by (auto simp: matches_iff new_record_get wf_dict_def)

lemma get_or_insert_cases:
  obtains (found) i where "get_or_insert md p = (i, p)" "find_match (stringify md) (p_recs p) = Some i"
  | (inserted) "get_or_insert md p = (length (p_recs p), save (p\<lparr>p_recs := p_recs p @ [new_record (stringify md)]\<rparr>))"
      "\<forall>r \<in> set (p_recs p). \<not> matches (stringify md) r"
  by (cases "find_match (stringify md) (p_recs p)")
    (auto simp: get_or_insert_def Let_def find_match_None)

section \<open>The contract of a record store\<close>

text \<open>
  What the runner needs of the store: the record it gets matches what it asked for, the other
  records stay, asking again gives the same record, and a change of one record is a change of
  that record only.
\<close>

locale record_store =
  fixes acquire :: "'m \<Rightarrow> 's \<Rightarrow> nat \<times> 's"
    and recs :: "'s \<Rightarrow> 'r list"
    and alter :: "nat \<Rightarrow> ('r \<Rightarrow> 'r) \<Rightarrow> 's \<Rightarrow> 's"
    and describes :: "'m \<Rightarrow> 'r \<Rightarrow> bool"
    and valid :: "'m \<Rightarrow> bool"
  assumes acquire_index: "acquire m s = (i, t) \<Longrightarrow> i < length (recs t)"
    and acquire_describes: "valid m \<Longrightarrow> acquire m s = (i, t) \<Longrightarrow> describes m (recs t ! i)"
    and acquire_first: "acquire m s = (i, t) \<Longrightarrow> j < i \<Longrightarrow> \<not> describes m (recs t ! j)"
    and acquire_frame: "acquire m s = (i, t) \<Longrightarrow> take (length (recs s)) (recs t) = recs s"
    and acquire_present: "i < length (recs s) \<Longrightarrow> describes m (recs s ! i) \<Longrightarrow>
      (\<And>j. j < i \<Longrightarrow> \<not> describes m (recs s ! j)) \<Longrightarrow> acquire m s = (i, s)"
    and recs_alter: "recs (alter i f s) = (recs s)[i := f (recs s ! i)]"
begin

text \<open>Asking again returns the same record and changes nothing.\<close>

lemma acquire_twice:
  assumes "valid m" and "acquire m s = (i, t)"
  shows "acquire m t = (i, t)"
  by (rule acquire_present)
    (use assms acquire_index acquire_describes acquire_first in auto)

text \<open>Nor does a change of the record in between, as long as it still describes its benchmark.\<close>

lemma acquire_after_alter:
  assumes m: "valid m" and a: "acquire m s = (i, t)"
    and f: "describes m (f (recs t ! i))"
  shows "acquire m (alter i f t) = (i, alter i f t)"
proof (rule acquire_present)
  show "i < length (recs (alter i f t))" using acquire_index [OF a] by (simp add: recs_alter)
  show "describes m (recs (alter i f t) ! i)"
    using acquire_index [OF a] f by (simp add: recs_alter)
  show "\<not> describes m (recs (alter i f t) ! j)" if "j < i" for j
    using acquire_first [OF a that] that by (simp add: recs_alter)
qed

lemma acquire_keeps: "acquire m s = (i, t) \<Longrightarrow> j < length (recs s) \<Longrightarrow> recs t ! j = recs s ! j"
  using acquire_frame [of m s i t] by (metis nth_take)

lemma acquire_grows: "acquire m s = (i, t) \<Longrightarrow> length (recs s) \<le> length (recs t)"
  using acquire_frame [of m s i t] by (metis length_take min.cobounded2 nat_le_linear take_all_iff)

end

lemma get_or_insert_store:
  "record_store get_or_insert p_recs change (\<lambda>md. matches (stringify md)) wf_dict"
proof unfold_locales
  fix md :: "(string, pval) dict" and p q :: progress and i j
  assume a: "get_or_insert md p = (i, q)"
  show "i < length (p_recs q)"
    using a by (cases rule: get_or_insert_cases [of md p]) (auto simp: find_match_Some)
  show "j < i \<Longrightarrow> \<not> matches (stringify md) (p_recs q ! j)"
    using a by (cases rule: get_or_insert_cases [of md p]) (auto simp: find_match_Some nth_append)
  show "take (length (p_recs p)) (p_recs q) = p_recs p"
    using a by (cases rule: get_or_insert_cases [of md p]) auto
next
  fix md :: "(string, pval) dict" and p q :: progress and i
  assume "wf_dict md" and a: "get_or_insert md p = (i, q)"
  then show "matches (stringify md) (p_recs q ! i)"
    by (cases rule: get_or_insert_cases [of md p]) (auto simp: find_match_Some new_record_matches)
next
  fix md :: "(string, pval) dict" and p :: progress and i
  assume "i < length (p_recs p)" and "matches (stringify md) (p_recs p ! i)"
    and "\<And>j. j < i \<Longrightarrow> \<not> matches (stringify md) (p_recs p ! j)"
  then have "find_match (stringify md) (p_recs p) = Some i"
    by (simp add: find_match_Some)
  then show "get_or_insert md p = (i, p)" by (simp add: get_or_insert_def)
next
  fix p :: progress and i and f :: "prec \<Rightarrow> prec"
  show "p_recs (change i f p) = (p_recs p)[i := f (p_recs p ! i)]"
    by (simp add: change_def)
qed

interpretation store: record_store get_or_insert p_recs change "\<lambda>md. matches (stringify md)" wf_dict
  by (rule get_or_insert_store)

section \<open>Saving and loading\<close>

text \<open>What a record becomes in the file: every field of the file, as a string.\<close>

definition as_loaded :: "string list \<Rightarrow> prec \<Rightarrow> prec" where
  "as_loaded fs r = map (\<lambda>f. (f, PStr (case dget r f of None \<Rightarrow> [] | Some v \<Rightarrow> cell_text v))) fs"

definition no_cr :: "prec \<Rightarrow> bool" where
  "no_cr r \<longleftrightarrow> (\<forall>(k, v) \<in> set r. CR \<notin> set k \<and> CR \<notin> set (cell_text v))"

lemma set_fieldnames: "set (fieldnames rs) = (\<Union>r \<in> set rs. fst ` set r)"
  by (auto simp: fieldnames_def)

lemma distinct_fieldnames: "distinct (fieldnames rs)"
  by (simp add: fieldnames_def)

lemma dict_reader_rows:
  assumes "fs \<noteq> []" and "distinct fs"
  shows "dict_reader (fs # map (dict_row fs) rs) = map (as_loaded fs) rs"
proof -
  have z: "zip fs (map PStr (dict_row fs r)) = as_loaded fs r" for r
    unfolding dict_row_def as_loaded_def by (induction fs) simp_all
  have "wf_dict (as_loaded fs r)" for r
    using assms(2) by (simp add: wf_dict_def as_loaded_def comp_def)
  then have "dmerge [] (zip fs (map PStr (dict_row fs r))) = as_loaded fs r" for r
    by (simp add: z dmerge_Nil_left)
  moreover have "filter (\<lambda>row. row \<noteq> []) (map (dict_row fs) rs) = map (dict_row fs) rs"
    using assms(1) by (auto simp: dict_row_def filter_empty_conv intro: filter_True)
  ultimately show ?thesis by (simp add: dict_reader_def) (simp add: dict_row_def)
qed

lemma dict_row_cells:
  assumes "no_cr r" and "s \<in> set (dict_row fs r)"
  shows "CR \<notin> set s"
proof -
  from assms(2) obtain f where s: "s = (case dget r f of None \<Rightarrow> [] | Some v \<Rightarrow> cell_text v)"
    by (auto simp: dict_row_def)
  show ?thesis
  proof (cases "dget r f")
    case (Some v)
    then have "(f, v) \<in> set r" by (rule map_of_SomeD)
    with assms(1) s Some show ?thesis by (auto simp: no_cr_def)
  qed (simp add: s)
qed

lemma load_save:
  assumes ne: "p_recs p \<noteq> []" and keys: "\<forall>r \<in> set (p_recs p). r \<noteq> []" and cr: "\<forall>r \<in> set (p_recs p). no_cr r"
  shows "p_recs (snd (load (save p))) = map (as_loaded (fieldnames (p_recs p))) (p_recs p)"
proof -
  let ?fs = "fieldnames (p_recs p)"
  have fs: "?fs \<noteq> []"
  proof
    assume "?fs = []"
    then have e: "set ?fs = {}" by simp
    obtain r where r: "r \<in> set (p_recs p)" using ne by (cases "p_recs p") auto
    with keys have "r \<noteq> []" by blast
    then obtain kv where "kv \<in> set r" by (cases r) auto
    with r have "fst kv \<in> set ?fs" unfolding set_fieldnames by blast
    with e show False by (metis empty_iff)
  qed
  have nc: "no_cr r" if "r \<in> set (p_recs p)" for r
    using cr that by blast
  have f: "CR \<notin> set f" if "f \<in> set ?fs" for f
  proof -
    from that obtain r where r: "r \<in> set (p_recs p)" and "f \<in> fst ` set r"
      unfolding set_fieldnames by blast
    then obtain v where "(f, v) \<in> set r" by auto
    with nc [OF r] show ?thesis by (auto simp: no_cr_def)
  qed
  have "row \<noteq> [] \<and> (\<forall>s \<in> set row. CR \<notin> set s)" if "row \<in> set (?fs # map (dict_row ?fs) (p_recs p))" for row
  proof (cases "row = ?fs")
    case True
    with fs f show ?thesis by simp
  next
    case False
    with that obtain r where r: "r \<in> set (p_recs p)" "row = dict_row ?fs r" by auto
    have "row \<noteq> []" using fs r(2) by (simp add: dict_row_def)
    with dict_row_cells [OF nc [OF r(1)]] r(2) show ?thesis by blast
  qed
  then have "csv_rows (write_rows (?fs # map (dict_row ?fs) (p_recs p))) = ?fs # map (dict_row ?fs) (p_recs p)"
    by (intro csv_round_trip) blast
  then show ?thesis
    using ne by (simp add: load_def save_def Let_def dict_reader_rows [OF fs distinct_fieldnames])
qed

lemma as_loaded_get:
  "dget (as_loaded fs r) k = (if k \<in> set fs then
     Some (PStr (case dget r k of None \<Rightarrow> [] | Some v \<Rightarrow> cell_text v)) else None)"
  unfolding as_loaded_def by (induction fs) auto

lemma cell_text_PStr [simp]: "cell_text (PStr s) = s"
  by (simp add: cell_text_def)

text \<open>A record that matches still matches after the file was written and read.\<close>

lemma matches_as_loaded:
  assumes "r \<in> set rs" and "matches m r"
  shows "matches m (as_loaded (fieldnames rs) r)"
proof -
  have "k \<in> set (fieldnames rs)" if "dget r k = Some v" for k v
    using that assms(1) unfolding set_fieldnames by (force dest: map_of_SomeD)
  with assms(2) show ?thesis
    by (fastforce simp: matches_iff as_loaded_get)
qed

section \<open>Properties\<close>

definition sample_metadata :: "(string, pval) dict" where
  "sample_metadata = [(''prefix'', PStr []), (''time'', PInt 10)]"

definition no_progress :: progress where
  "no_progress = \<lparr>p_recs = [], p_file = None\<rparr>"

text \<open>C7 \<open>get_or_insert\<close> returns the first record that holds every metadata value as text; a new one is
  appended only when there is none, starts pending and not reloaded, and is saved at once. The other
  records stay as they are, and asking again returns the same record and inserts nothing.\<close>

theorem get_or_insert_record:
  assumes "wf_dict md" and "get_or_insert md p = (i, q)"
  shows "i < length (p_recs q) \<and>
    (\<forall>(k, v) \<in> set md. dget (p_recs q ! i) k = Some (PStr (py_str v))) \<and>
    (\<forall>j < i. \<not> matches (stringify md) (p_recs q ! j)) \<and>
    take (length (p_recs p)) (p_recs q) = p_recs p \<and>
    (i < length (p_recs p) \<longrightarrow> q = p) \<and>
    (i \<ge> length (p_recs p) \<longrightarrow> q = save (p\<lparr>p_recs := p_recs p @ [new_record (stringify md)]\<rparr>) \<and>
      (''status'' \<notin> set (dkeys md) \<longrightarrow> dget (p_recs q ! i) ''status'' = Some (PStr PENDING)) \<and>
      (''reloaded'' \<notin> set (dkeys md) \<longrightarrow> dget (p_recs q ! i) ''reloaded'' = Some (PBool False))) \<and>
    get_or_insert md q = (i, q)"
proof -
  note d = store.acquire_describes [OF assms]
  have m: "\<forall>(k, v) \<in> set md. dget (p_recs q ! i) k = Some (PStr (py_str v))"
    using d by (fastforce simp: matches_iff stringify_def)
  have n: "dget (new_record (stringify md)) k = (if k = ''status'' then Some (PStr PENDING) else Some (PBool False))"
    if "k \<notin> set (dkeys md)" "k = ''status'' \<or> k = ''reloaded''" for k
  proof -
    have "dget (stringify md) k = None"
      using that(1) map_of_map_key [of "\<lambda>_. py_str" md k] by (simp add: stringify_def map_of_eq_None_iff)
    then show ?thesis using that(2) assms(1) by (auto simp: new_record_get)
  qed
  have f: "(i < length (p_recs p) \<longrightarrow> q = p) \<and>
    (i \<ge> length (p_recs p) \<longrightarrow> q = save (p\<lparr>p_recs := p_recs p @ [new_record (stringify md)]\<rparr>) \<and>
      (''status'' \<notin> set (dkeys md) \<longrightarrow> dget (p_recs q ! i) ''status'' = Some (PStr PENDING)) \<and>
      (''reloaded'' \<notin> set (dkeys md) \<longrightarrow> dget (p_recs q ! i) ''reloaded'' = Some (PBool False)))"
    using assms(2)
  proof (cases rule: get_or_insert_cases [of md p])
    case (found j)
    with assms(2) show ?thesis by (auto simp: find_match_Some)
  next
    case inserted
    with assms(2) n [of "''status''"] n [of "''reloaded''"] show ?thesis by auto
  qed
  show ?thesis
    using store.acquire_index [OF assms(2)] store.acquire_first [OF assms(2)] store.acquire_frame [OF assms(2)]
      store.acquire_twice [OF assms] m f by blast
qed

lemma get_or_insert_record_witness:
  "\<exists>i q. get_or_insert sample_metadata no_progress = (i, q) \<and>
     dget (p_recs q ! i) ''status'' = Some (PStr PENDING) \<and> dget (p_recs q ! i) ''time'' = Some (PStr ''10'')"
proof -
  obtain i q where g: "get_or_insert sample_metadata no_progress = (i, q)" by force
  have w: "wf_dict sample_metadata" by (simp add: wf_dict_def sample_metadata_def)
  from get_or_insert_record [OF w g] g show ?thesis
    by (auto simp: sample_metadata_def no_progress_def str_simps)
qed

text \<open>C8 Saving and loading gives back every record in its place, with the columns of all records: a value
  comes back as its text, and a column the record did not have as the empty text. (A carriage return
  in a cell would come back as a line feed, because the files are opened without \<^verbatim>\<open>newline=''\<close>.)\<close>

theorem save_load_round_trip:
  assumes "p_recs p \<noteq> []" and "\<forall>r \<in> set (p_recs p). r \<noteq> [] \<and> no_cr r"
  shows "\<exists>q. load (save p) = (True, q) \<and> length (p_recs q) = length (p_recs p) \<and>
    (\<forall>i < length (p_recs p). \<forall>k. dget (p_recs q ! i) k =
      (if \<exists>r \<in> set (p_recs p). k \<in> set (dkeys r)
       then Some (PStr (case dget (p_recs p ! i) k of None \<Rightarrow> [] | Some v \<Rightarrow> cell_text v)) else None))"
proof -
  obtain b q where q: "load (save p) = (b, q)" by force
  have b: "b" using q assms(1) by (simp add: load_def save_def Let_def)
  have "p_recs q = map (as_loaded (fieldnames (p_recs p))) (p_recs p)"
    using load_save [of p] assms q by simp
  then show ?thesis using q b by (intro exI [of _ q]) (simp add: as_loaded_get set_fieldnames)
qed

lemma save_load_round_trip_witness:
  "\<exists>q. load (save \<lparr>p_recs = [[(''reloaded'', PBool True), (''tag'', PStr ''a,b'')], [(''tag'', PStr [])]], p_file = None\<rparr>) = (True, q) \<and>
     dget (p_recs q ! 0) ''reloaded'' = Some (PStr ''True'') \<and> dget (p_recs q ! 0) ''tag'' = Some (PStr ''a,b'') \<and>
     dget (p_recs q ! 1) ''reloaded'' = Some (PStr [])"
proof -
  let ?p = "\<lparr>p_recs = [[(''reloaded'', PBool True), (''tag'', PStr ''a,b'')], [(''tag'', PStr [])]], p_file = None\<rparr>"
  have n: "p_recs ?p \<noteq> []" by simp
  have c: "\<forall>r \<in> set (p_recs ?p). r \<noteq> [] \<and> no_cr r" by (simp add: no_cr_def cell_text_def)
  from save_load_round_trip [OF n c] show ?thesis
    by (auto simp: cell_text_def)
qed

text \<open>A benchmark finds its record again in a later run: after the file was written and read,
  \<open>get_or_insert\<close> inserts nothing and returns a record that matches, at the old place or before it.\<close>

theorem record_found_after_reload:
  assumes "wf_dict md" and "get_or_insert md p = (i, q)" and "\<forall>r \<in> set (p_recs q). r \<noteq> [] \<and> no_cr r"
  shows "\<exists>j \<le> i. get_or_insert md (snd (load (save q))) = (j, snd (load (save q))) \<and>
    matches (stringify md) (p_recs (snd (load (save q))) ! j)"
proof -
  let ?l = "snd (load (save q))"
  have i: "i < length (p_recs q)" using store.acquire_index [OF assms(2)] .
  then have ne: "p_recs q \<noteq> []" by auto
  have l: "p_recs ?l = map (as_loaded (fieldnames (p_recs q))) (p_recs q)"
    using load_save [OF ne] assms(3) by blast
  have "matches (stringify md) (p_recs ?l ! i)"
    using i matches_as_loaded [OF nth_mem [OF i] store.acquire_describes [OF assms(1,2)]] by (simp add: l)
  note m = this
  define j where "j = (LEAST k. matches (stringify md) (p_recs ?l ! k))"
  have j: "j \<le> i" "matches (stringify md) (p_recs ?l ! j)"
    "\<And>k. k < j \<Longrightarrow> \<not> matches (stringify md) (p_recs ?l ! k)"
    unfolding j_def using m by (auto intro: Least_le LeastI dest: not_less_Least)
  have "get_or_insert md ?l = (j, ?l)"
    by (rule store.acquire_present) (use i j in \<open>simp_all add: l\<close>)
  with j show ?thesis by blast
qed

lemma record_found_after_reload_witness:
  "\<exists>i q. get_or_insert sample_metadata no_progress = (i, q) \<and>
     (\<exists>j \<le> i. get_or_insert sample_metadata (snd (load (save q))) = (j, snd (load (save q))))"
proof -
  obtain i q where g: "get_or_insert sample_metadata no_progress = (i, q)" by force
  have w: "wf_dict sample_metadata" by (simp add: wf_dict_def sample_metadata_def)
  have "p_recs q = [new_record (stringify sample_metadata)]"
    using g by (auto simp: get_or_insert_def no_progress_def)
  then have "\<forall>r \<in> set (p_recs q). r \<noteq> [] \<and> no_cr r"
    by (simp add: new_record_def stringify_def sample_metadata_def dmerge_def no_cr_def cell_text_def
        PENDING_def str_simps)
  from record_found_after_reload [OF w g this] g show ?thesis by blast
qed

end
