(* ===== verification/Runner.thy ===== *)
theory Runner
  imports Progress Bench_Args Config
begin

text \<open>
  The experiment runner: \<^verbatim>\<open>main\<close> of \<^verbatim>\<open>tools/experiment.py\<close>. For every benchmark of the
  generator it gets the progress record, skips it when it is done, otherwise creates and loads
  the database when the reload counter says so, executes the benchmark and records the outcome.
  The calls of \<^verbatim>\<open>benchmark.main\<close>, the answers of the user and the MinIO check act on a world of
  any type; the runner's own state is the progress store, the reload counter and the tags
  handed to the result collector.
\<close>

record 'w env =
  bench :: "string list \<Rightarrow> 'w \<Rightarrow> (string, pval) dict res \<times> 'w"
  ask :: "'w \<Rightarrow> bool \<times> 'w"
  check_connection :: "'w \<Rightarrow> bool \<times> 'w"

text \<open>The command-line options (\<^verbatim>\<open>args\<close>); a missing \<^verbatim>\<open>--set\<close> is the empty list.\<close>

record run_opts =
  o_set :: "string list"
  o_prefix :: string
  o_dry_run :: bool
  o_new :: bool
  o_y :: bool
  o_output :: bool
  o_skip_create_load :: bool
  o_sload :: bool
  o_logs_per_sec :: int
  o_interactive :: bool

record 'w run_state =
  rs_progress :: progress
  rs_counter :: int
  rs_submitted :: "string list"
  rs_world :: 'w

section \<open>One benchmark\<close>

definition create_set_arg :: "string list \<Rightarrow> string list" where
  "create_set_arg ss = concat (map (\<lambda>s. [''-s'', s]) ss)"

definition common_args :: "run_opts \<Rightarrow> bench_item \<Rightarrow> string list" where
  "common_args opt item = bi_args item @ create_set_arg (o_set opt) @
     (if o_dry_run opt then [''--dry-run''] else [])"

definition call :: "'w env \<Rightarrow> string list \<Rightarrow> 'w run_state \<Rightarrow> (string, pval) dict res \<times> 'w run_state" where
  "call env argv st = (case bench env argv (rs_world st) of (r, w) \<Rightarrow> (r, st\<lparr>rs_world := w\<rparr>))"

definition change_record :: "nat \<Rightarrow> (prec \<Rightarrow> prec) \<Rightarrow> 'w run_state \<Rightarrow> 'w run_state" where
  "change_record i f st = st\<lparr>rs_progress := change i f (rs_progress st)\<rparr>"

text \<open>How the \<^verbatim>\<open>try\<close> block ends: normally, by \<^verbatim>\<open>break\<close>, or with an exception.\<close>

datatype outcome = Completed | Broke | Raised exn

definition confirm_phase :: "'w env \<Rightarrow> run_opts \<Rightarrow> 'w run_state \<Rightarrow> outcome \<times> 'w run_state" where
  "confirm_phase env opt st = (if o_interactive opt
     then (case ask env (rs_world st) of (b, w) \<Rightarrow> (if b then Completed else Broke, st\<lparr>rs_world := w\<rparr>))
     else (Completed, st))"

definition load_phase :: "'w env \<Rightarrow> run_opts \<Rightarrow> bench_item \<Rightarrow> nat \<Rightarrow> int \<Rightarrow> 'w run_state
    \<Rightarrow> outcome \<times> 'w run_state" where
  "load_phase env opt item i n st =
     (if o_skip_create_load opt \<or> rs_counter st \<noteq> 0 then (Completed, st)
      else case call env (''create'' # common_args opt item) st of
        (Inl e, st1) \<Rightarrow> (Raised e, st1)
      | (Inr _, st1) \<Rightarrow>
          (case call env ((if o_sload opt then ''sload'' else ''load'') # common_args opt item) st1 of
            (Inl e, st2) \<Rightarrow> (Raised e, st2)
          | (Inr _, st2) \<Rightarrow> (Completed,
              (change_record i (dset ''reloaded'' (PBool True)) st2)\<lparr>rs_counter := n\<rparr>)))"

definition execute_phase :: "'w env \<Rightarrow> run_opts \<Rightarrow> bench_item \<Rightarrow> nat \<Rightarrow> 'w run_state
    \<Rightarrow> outcome \<times> 'w run_state" where
  "execute_phase env opt item i st =
     (case call env ([''execute'', ''--logs-per-sec'', show_int (o_logs_per_sec opt)] @ common_args opt item) st of
        (Inl e, st1) \<Rightarrow> (Raised e, st1)
      | (Inr result, st1) \<Rightarrow> (Completed,
          (change_record i (\<lambda>r. dset ''tag'' (PStr (bi_tag item)) (dmerge r result)) st1)
            \<lparr>rs_submitted := rs_submitted st1 @
               (if o_output opt \<and> \<not> o_dry_run opt then [bi_tag item] else [])\<rparr>))"

definition try_body :: "'w env \<Rightarrow> run_opts \<Rightarrow> bench_item \<Rightarrow> nat \<Rightarrow> int \<Rightarrow> 'w run_state
    \<Rightarrow> outcome \<times> 'w run_state" where
  "try_body env opt item i n st = (case confirm_phase env opt st of
     (Completed, st1) \<Rightarrow> (case load_phase env opt item i n st1 of
         (Completed, st2) \<Rightarrow> execute_phase env opt item i st2
       | x \<Rightarrow> x)
   | x \<Rightarrow> x)"

section \<open>The loop\<close>

definition save_state :: "'w run_state \<Rightarrow> 'w run_state" where
  "save_state st = st\<lparr>rs_progress := save (rs_progress st)\<rparr>"

definition on_error :: "nat \<Rightarrow> 'w run_state \<Rightarrow> 'w run_state" where
  "on_error i st = save_state ((change_record i (dset ''status'' (PStr ERROR)) st)\<lparr>rs_counter := 0\<rparr>)"

definition on_success :: "nat \<Rightarrow> 'w run_state \<Rightarrow> 'w run_state" where
  "on_success i st = save_state ((change_record i (dset ''status'' (PStr DONE)) st)
     \<lparr>rs_counter := rs_counter st - 1\<rparr>)"

text \<open>The loop is left at its end or by \<^verbatim>\<open>break\<close> (\<open>LoopLeft\<close>), or an exception leaves \<^verbatim>\<open>main\<close>.\<close>

datatype ending = LoopLeft | Uncaught exn

fun run_items :: "'w env \<Rightarrow> run_opts \<Rightarrow> int \<Rightarrow> exn option \<Rightarrow> bench_item list \<Rightarrow> 'w run_state
    \<Rightarrow> ending \<times> 'w run_state" where
  "run_items env opt n fin [] st = (case fin of None \<Rightarrow> (LoopLeft, st) | Some e \<Rightarrow> (Uncaught e, st))"
| "run_items env opt n fin (item # items) st =
     (case get_or_insert (bi_metadata item) (rs_progress st) of (i, p) \<Rightarrow>
       (let st1 = st\<lparr>rs_progress := p\<rparr> in
        case dget (p_recs p ! i) ''status'' of
          None \<Rightarrow> (Uncaught (KeyError ''status''), st1)
        | Some s \<Rightarrow>
            if \<not> list_ex (py_eq s) STATUSES
            then (Uncaught (ValueError (''Unknown status: '' @ py_str s)), st1)
            else if py_eq s (PStr DONE) then run_items env opt n fin items st1
            else case try_body env opt item i n st1 of
                (Broke, st2) \<Rightarrow> (LoopLeft, st2)
              | (Completed, st2) \<Rightarrow> run_items env opt n fin items (on_success i st2)
              | (Raised e, st2) \<Rightarrow> if is_exception e
                  then run_items env opt n fin items (on_error i st2)
                  else (Uncaught e, st2)))"

section \<open>main\<close>

text \<open>
  \<^verbatim>\<open>exp.get("reload_every") or 0\<close>, compared with 0: a string cannot be compared. The key is an
  integer by its declared type; a float is outside the model and read as its floor.
\<close>

definition reload_every :: "exp_file \<Rightarrow> int res" where
  "reload_every e = (case dget (e_scalars e) ''reload_every'' of
     None \<Rightarrow> Inr 0
   | Some (PInt n) \<Rightarrow> Inr n
   | Some (PBool b) \<Rightarrow> Inr (if b then 1 else 0)
   | Some (PFloat q) \<Rightarrow> Inr \<lfloor>q\<rfloor>
   | Some PNone \<Rightarrow> Inr 0
   | Some (PStr s) \<Rightarrow> if s = [] then Inr 0 else Inl (TypeError ''reload_every''))"

definition start_progress :: "run_opts \<Rightarrow> string option \<Rightarrow> progress" where
  "start_progress opt file = (let p = \<lparr>p_recs = [], p_file = file\<rparr>
     in if o_new opt then p else snd (load p))"

definition run_benchmarks :: "'w env \<Rightarrow> run_opts \<Rightarrow> exp_file \<Rightarrow> int \<Rightarrow> string \<Rightarrow> progress \<Rightarrow> 'w
    \<Rightarrow> int res \<times> 'w run_state" where
  "run_benchmarks env opt e n timestamp p w =
     (case benchmark_args e (Some (o_prefix opt)) (Some timestamp) of (items, fin) \<Rightarrow>
       (case run_items env opt n fin items
              \<lparr>rs_progress = p, rs_counter = 0, rs_submitted = [], rs_world = w\<rparr> of
          (LoopLeft, st) \<Rightarrow> (Inr 0, st)
        | (Uncaught x, st) \<Rightarrow> (Inl x, st)))"

definition experiment_main :: "'w env \<Rightarrow> run_opts \<Rightarrow> exp_file option \<Rightarrow> string list \<Rightarrow> main_config \<Rightarrow> string
    \<Rightarrow> string option \<Rightarrow> 'w \<Rightarrow> int res \<times> 'w run_state" where
  "experiment_main env opt ex contexts yaml timestamp file w =
     (let p = start_progress opt file;
          st = (\<lambda>p w. \<lparr>rs_progress = p, rs_counter = 0, rs_submitted = [], rs_world = w\<rparr>) in
      case ex of
        None \<Rightarrow> (Inr 1, st \<lparr>p_recs = [], p_file = file\<rparr> w)
      | Some e \<Rightarrow>
          (case rbind (reload_every e) (\<lambda>n. rbind (get_main_config contexts yaml) (\<lambda>_. Inr n)) of
             Inl x \<Rightarrow> (Inl x, st p w)
           | Inr n \<Rightarrow>
              (case (if o_y opt then (True, w) else ask env w) of
                 (False, w1) \<Rightarrow> (Inr 0, st p w1)
               | (True, w1) \<Rightarrow>
                  (case (if o_output opt then check_connection env w1 else (True, w1)) of
                     (False, w2) \<Rightarrow> (Inr 1, st p w2)
                   | (True, w2) \<Rightarrow> run_benchmarks env opt e n timestamp p w2))))"

section \<open>The order of the calls\<close>

text \<open>
  The environment with a log: which operation each call of \<^verbatim>\<open>benchmark.main\<close> asked for, and
  whether it returned.
\<close>

type_synonym call_log = "(string \<times> bool) list"

definition logged :: "'w env \<Rightarrow> (call_log \<times> 'w) env" where
  "logged env = \<lparr>
     bench = (\<lambda>argv lw. case bench env argv (snd lw) of (r, w) \<Rightarrow>
       (r, (fst lw @ [(hd argv, \<not> isl r)], w))),
     ask = (\<lambda>lw. case ask env (snd lw) of (b, w) \<Rightarrow> (b, (fst lw, w))),
     check_connection = (\<lambda>lw. case check_connection env (snd lw) of (b, w) \<Rightarrow> (b, (fst lw, w)))\<rparr>"

text \<open>
  The discipline of reloading: with the counter at 0 the database is created and loaded before
  the next execution, and after a failed call it is created and loaded again.
\<close>

fun scheduled :: "string \<Rightarrow> int \<Rightarrow> int \<Rightarrow> call_log \<Rightarrow> bool" where
  "scheduled ld n c [] = True"
| "scheduled ld n c ((p, ok) # rest) =
     (if c \<noteq> 0 then p = ''execute'' \<and> scheduled ld n (if ok then c - 1 else 0) rest
      else p = ''create'' \<and> (if \<not> ok then scheduled ld n 0 rest else
        (case rest of [] \<Rightarrow> False | (p2, ok2) # rest2 \<Rightarrow>
           p2 = ld \<and> (if \<not> ok2 then scheduled ld n 0 rest2 else
             (case rest2 of [] \<Rightarrow> False | (p3, ok3) # rest3 \<Rightarrow>
                p3 = ''execute'' \<and> scheduled ld n (if ok3 then n - 1 else 0) rest3)))))"

abbreviation log_of :: "(call_log \<times> 'w) run_state \<Rightarrow> call_log" where
  "log_of st \<equiv> fst (rs_world st)"

definition load_op :: "run_opts \<Rightarrow> string" where
  "load_op opt = (if o_sload opt then ''sload'' else ''load'')"

lemma call_logged:
  assumes "call (logged env) (p # argv) st = (r, st')"
  shows "log_of st' = log_of st @ [(p, \<not> isl r)]" and "rs_counter st' = rs_counter st"
  using assms by (auto simp: call_def logged_def split: prod.splits)

lemma change_record_frame [simp]:
  "rs_world (change_record i f st) = rs_world st"
  "rs_counter (change_record i f st) = rs_counter st"
  by (simp_all add: change_record_def)

lemma confirm_logged:
  "confirm_phase (logged env) opt st = (out, st') \<Longrightarrow>
   log_of st' = log_of st \<and> rs_counter st' = rs_counter st \<and> (\<forall>e. out \<noteq> Raised e)"
  by (auto simp: confirm_phase_def logged_def split: prod.splits if_splits)

text \<open>What a part of the \<^verbatim>\<open>try\<close> block adds to the log, and what may follow it.\<close>

definition adds :: "(call_log \<times> 'w) run_state \<Rightarrow> (call_log \<times> 'w) run_state \<Rightarrow> call_log \<Rightarrow> bool" where
  "adds st st' l \<longleftrightarrow> log_of st' = log_of st @ l"

lemma execute_logged:
  assumes "execute_phase (logged env) opt item i st = (out, st')"
  shows "\<exists>ok. adds st st' [(''execute'', ok)] \<and> rs_counter st' = rs_counter st \<and>
    out \<noteq> Broke \<and> (ok \<longleftrightarrow> out = Completed)"
proof -
  obtain r st1 where c: "call (logged env)
      ([''execute'', ''--logs-per-sec'', show_int (o_logs_per_sec opt)] @ common_args opt item) st = (r, st1)"
    by force
  from call_logged [OF c [simplified]] assms c show ?thesis
    by (cases r) (auto simp: execute_phase_def adds_def)
qed

lemma load_logged:
  assumes "load_phase (logged env) opt item i n st = (out, st')" and "\<not> o_skip_create_load opt"
  shows "out \<noteq> Broke \<and>
    (if rs_counter st \<noteq> 0 then out = Completed \<and> st' = st
     else (out = Completed \<and> rs_counter st' = n \<and> adds st st' [(''create'', True), (load_op opt, True)])
        \<or> (out \<noteq> Completed \<and> (adds st st' [(''create'', False)] \<or>
             adds st st' [(''create'', True), (load_op opt, False)])))"
proof (cases "rs_counter st = 0")
  case True
  obtain r1 st1 where c1: "call (logged env) (''create'' # common_args opt item) st = (r1, st1)"
    by force
  obtain r2 st2 where c2: "call (logged env) ((if o_sload opt then ''sload'' else ''load'')
      # common_args opt item) st1 = (r2, st2)"
    by force
  from call_logged [OF c1] call_logged [OF c2] assms c1 c2 True show ?thesis
    by (cases r1; cases r2) (auto simp: load_phase_def adds_def load_op_def)
next
  case False
  with assms show ?thesis by (simp add: load_phase_def)
qed

text \<open>One benchmark keeps the discipline, whatever follows.\<close>

lemma try_body_logged:
  assumes "try_body (logged env) opt item i n st = (out, st')" and skip: "\<not> o_skip_create_load opt"
  shows "\<exists>l. adds st st' l \<and> (out = Broke \<longrightarrow> l = []) \<and>
    (\<forall>rest. scheduled (load_op opt) n (if out = Completed then rs_counter st' - 1 else 0) rest \<longrightarrow>
       out \<noteq> Broke \<longrightarrow> scheduled (load_op opt) n (rs_counter st) (l @ rest))"
proof -
  obtain o1 st1 where c: "confirm_phase (logged env) opt st = (o1, st1)" by force
  note c' = confirm_logged [OF c]
  show ?thesis
  proof (cases o1)
    case Completed
    obtain o2 st2 where l: "load_phase (logged env) opt item i n st1 = (o2, st2)" by force
    note l' = load_logged [OF l skip]
    show ?thesis
    proof (cases o2)
      case Completed': Completed
      with Completed c l assms(1) have e: "execute_phase (logged env) opt item i st2 = (out, st')"
        by (simp add: try_body_def)
      from execute_logged [OF e] obtain ok where ok: "adds st2 st' [(''execute'', ok)]"
        "rs_counter st' = rs_counter st2" "out \<noteq> Broke" "ok \<longleftrightarrow> out = Completed" by blast
      show ?thesis
      proof (cases "rs_counter st1 = 0")
        case True
        with l' Completed' have "adds st1 st2 [(''create'', True), (load_op opt, True)]"
          and "rs_counter st2 = n" by auto
        with ok c' True show ?thesis
          by (intro exI [of _ "[(''create'', True), (load_op opt, True), (''execute'', ok)]"])
            (auto simp: adds_def)
      next
        case False
        with l' ok c' show ?thesis
          by (intro exI [of _ "[(''execute'', ok)]"]) (auto simp: adds_def)
      qed
    next
      case Broke
      with l' show ?thesis by simp
    next
      case (Raised e)
      with Completed c l assms(1) have o: "out = Raised e" "st' = st2" by (auto simp: try_body_def)
      from l' Raised consider "rs_counter st1 = 0" "adds st1 st2 [(''create'', False)]"
        | "rs_counter st1 = 0" "adds st1 st2 [(''create'', True), (load_op opt, False)]"
        by (auto split: if_splits)
      then show ?thesis
        using c' o by cases (force simp: adds_def)+
    qed
  next
    case Broke
    with c assms(1) c' show ?thesis by (auto simp: try_body_def adds_def)
  next
    case (Raised e)
    with c' show ?thesis by simp
  qed
qed

lemma on_error_frame [simp]:
  "rs_world (on_error i st) = rs_world st" "rs_counter (on_error i st) = 0"
  by (simp_all add: on_error_def save_state_def)

lemma on_success_frame [simp]:
  "rs_world (on_success i st) = rs_world st" "rs_counter (on_success i st) = rs_counter st - 1"
  by (simp_all add: on_success_def save_state_def)

text \<open>The cases of one round of the loop, as a rule the invariants below share.\<close>

lemma run_items_Cons:
  assumes "run_items env opt n fin (item # items) st = (en, st')"
  obtains (stop) i p e where "get_or_insert (bi_metadata item) (rs_progress st) = (i, p)"
      "en = Uncaught e" "st' = st\<lparr>rs_progress := p\<rparr>"
  | (skip) i p where "get_or_insert (bi_metadata item) (rs_progress st) = (i, p)"
      "dget (p_recs p ! i) ''status'' = Some (PStr DONE)"
      "run_items env opt n fin items (st\<lparr>rs_progress := p\<rparr>) = (en, st')"
  | (broke) i p where "get_or_insert (bi_metadata item) (rs_progress st) = (i, p)"
      "try_body env opt item i n (st\<lparr>rs_progress := p\<rparr>) = (Broke, st')" "en = LoopLeft"
  | (completed) i p st2 where "get_or_insert (bi_metadata item) (rs_progress st) = (i, p)"
      "try_body env opt item i n (st\<lparr>rs_progress := p\<rparr>) = (Completed, st2)"
      "run_items env opt n fin items (on_success i st2) = (en, st')"
  | (failed) i p st2 e where "get_or_insert (bi_metadata item) (rs_progress st) = (i, p)"
      "try_body env opt item i n (st\<lparr>rs_progress := p\<rparr>) = (Raised e, st2)" "is_exception e"
      "run_items env opt n fin items (on_error i st2) = (en, st')"
  | (uncaught) i p e where "get_or_insert (bi_metadata item) (rs_progress st) = (i, p)"
      "try_body env opt item i n (st\<lparr>rs_progress := p\<rparr>) = (Raised e, st')" "en = Uncaught e"
proof -
  obtain i p where g: "get_or_insert (bi_metadata item) (rs_progress st) = (i, p)" by force
  obtain out st2 where b: "try_body env opt item i n (st\<lparr>rs_progress := p\<rparr>) = (out, st2)" by force
  show ?thesis
  proof (cases "dget (p_recs p ! i) ''status''")
    case None
    with g assms show ?thesis by (auto intro: stop)
  next
    case (Some s)
    then show ?thesis
      using g b assms
      by (cases out) (auto simp: Let_def split: if_splits intro: stop skip broke completed failed uncaught)
  qed
qed

lemma run_items_logged:
  assumes "\<not> o_skip_create_load opt"
  shows "run_items (logged env) opt n fin items st = (en, st') \<Longrightarrow>
    \<exists>l. adds st st' l \<and> scheduled (load_op opt) n (rs_counter st) l"
proof (induction items arbitrary: st)
  case Nil
  then show ?case by (intro exI [of _ "[]"]) (auto simp: adds_def split: option.splits)
next
  case (Cons item items)
  from Cons.prems show ?case
  proof (cases rule: run_items_Cons)
    case stop
    then show ?thesis by (intro exI [of _ "[]"]) (simp add: adds_def)
  next
    case skip
    from Cons.IH [OF skip(3)] show ?thesis by (simp add: adds_def)
  next
    case broke
    from try_body_logged [OF broke(2) assms] show ?thesis
      by (intro exI [of _ "[]"]) (auto simp: adds_def)
  next
    case (completed i p st2)
    from try_body_logged [OF completed(2) assms] Cons.IH [OF completed(3)] show ?thesis
      by (auto simp: adds_def)
  next
    case (failed i p st2 e)
    from try_body_logged [OF failed(2) assms] Cons.IH [OF failed(4)] show ?thesis
      by (auto simp: adds_def)
  next
    case (uncaught i p e)
    from try_body_logged [OF uncaught(2) assms] show ?thesis
      by (auto simp: adds_def) (metis append.right_neutral scheduled.simps(1))
  qed
qed

text \<open>With no failing call the discipline is a fixed pattern.\<close>

definition reload_pattern :: "string \<Rightarrow> int \<Rightarrow> nat \<Rightarrow> string list" where
  "reload_pattern ld n j = (if n dvd int j then [''create'', ld, ''execute''] else [''execute''])"

lemma scheduled_pattern:
  "scheduled ld n c l \<Longrightarrow> \<forall>(p, ok) \<in> set l. ok \<Longrightarrow> 0 < n \<Longrightarrow> 0 \<le> c \<Longrightarrow> c < n \<Longrightarrow> n dvd int j + c \<Longrightarrow>
   \<exists>k. map fst l = concat (map (reload_pattern ld n) [j ..< j + k])"
proof (induction "length l" arbitrary: l c j rule: less_induct)
  case less
  show ?case
  proof (cases l)
    case Nil
    then show ?thesis by (intro exI [of _ 0]) simp
  next
    case (Cons x rest)
    obtain p ok where x: "x = (p, ok)" by force
    have ok: ok using less.prems(2) by (simp add: Cons x)
    have up: "[j ..< j + Suc k] = j # [Suc j ..< Suc j + k]" for k by (simp add: upt_conv_Cons)
    show ?thesis
    proof (cases "c = 0")
      case True
      with less.prems(1) Cons x ok obtain ok2 ok3 rest3 where
        l: "l = (''create'', True) # (ld, ok2) # (''execute'', ok3) # rest3"
        using less.prems(2) by (auto split: list.splits if_splits)
      with less.prems(2) have oks: ok2 ok3 by auto
      with l True less.prems(1) have s: "scheduled ld n (n - 1) rest3" by simp
      have d: "n dvd int (Suc j) + (n - 1)"
        using less.prems(6) True by (simp add: add.commute)
      from less.hyps [OF _ s _ less.prems(3) _ _ d] l less.prems(2,3)
      obtain k where "map fst rest3 = concat (map (reload_pattern ld n) [Suc j ..< Suc j + k])"
        by auto
      with l True less.prems(6) show ?thesis
        by (intro exI [of _ "Suc k"]) (simp only: up, simp add: reload_pattern_def)
    next
      case False
      with less.prems(1) Cons x ok have p: "p = ''execute''" and s: "scheduled ld n (c - 1) rest"
        by auto
      have d: "n dvd int (Suc j) + (c - 1)" using less.prems(6) by simp
      have nd: "\<not> n dvd int j"
      proof
        assume "n dvd int j"
        with less.prems(6) have "n dvd c" by (simp add: dvd_add_right_iff)
        with False less.prems(4,5) show False by (auto dest: zdvd_imp_le)
      qed
      from less.hyps [OF _ s _ less.prems(3) _ _ d] Cons less.prems(2,4,5) False
      obtain k where "map fst rest = concat (map (reload_pattern ld n) [Suc j ..< Suc j + k])"
        by auto
      with Cons x p nd show ?thesis
        by (intro exI [of _ "Suc k"]) (simp only: up, simp add: reload_pattern_def)
    qed
  qed
qed

section \<open>Resuming\<close>

text \<open>
  Fields the runner itself writes into a record; the metadata of a benchmark has to stay clear
  of them for the record to be found again.
\<close>

definition result_fields :: "string set" where
  "result_fields = {''throughput'', ''goodput''}"

definition own_fields :: "string set" where
  "own_fields = {''status'', ''reloaded'', ''tag''} \<union> result_fields"

definition item_ok :: "bench_item \<Rightarrow> bool" where
  "item_ok item \<longleftrightarrow> wf_dict (bi_metadata item) \<and> CR \<notin> set (bi_tag item) \<and>
     (\<forall>(k, v) \<in> set (bi_metadata item). k \<notin> own_fields \<and> CR \<notin> set k \<and> CR \<notin> set (py_str v))"

lemma own_fields_mem:
  "''status'' \<in> own_fields" "''reloaded'' \<in> own_fields" "''tag'' \<in> own_fields"
  "k \<in> result_fields \<Longrightarrow> k \<in> own_fields"
  by (simp_all add: own_fields_def)

text \<open>An environment in which every benchmark returns its two numbers.\<close>

definition succeeds :: "'w env \<Rightarrow> bool" where
  "succeeds env \<longleftrightarrow> (\<forall>argv w. \<exists>d w'. bench env argv w = (Inr d, w') \<and>
     fst ` set d \<subseteq> result_fields \<and> no_cr d)"

definition is_done :: "prec \<Rightarrow> bool" where
  "is_done r \<longleftrightarrow> dget r ''status'' = Some (PStr DONE)"

text \<open>The file agrees with the records.\<close>

definition synced :: "progress \<Rightarrow> bool" where
  "synced p \<longleftrightarrow> p_recs p = [] \<or> p_file (save p) = p_file p"

lemma synced_save [simp]: "synced (save p)"
  by (auto simp: synced_def save_def Let_def)

definition all_done :: "progress \<Rightarrow> bool" where
  "all_done p \<longleftrightarrow> synced p \<and> (\<forall>r \<in> set (p_recs p). is_done r \<and> no_cr r)"

definition covers :: "progress \<Rightarrow> bench_item \<Rightarrow> bool" where
  "covers p item \<longleftrightarrow> (\<exists>r \<in> set (p_recs p). matches (stringify (bi_metadata item)) r)"

lemma no_cr_dset: "no_cr r \<Longrightarrow> CR \<notin> set k \<Longrightarrow> CR \<notin> set (cell_text v) \<Longrightarrow> no_cr (dset k v r)"
  by (induction r) (auto simp: no_cr_def)

lemma no_cr_dmerge: "no_cr r \<Longrightarrow> no_cr d \<Longrightarrow> no_cr (dmerge r d)"
proof (induction d arbitrary: r)
  case Nil
  then show ?case by simp
next
  case (Cons kv d)
  obtain k v where kv: "kv = (k, v)" by force
  have "no_cr (dset k v r)" using Cons.prems by (intro no_cr_dset) (auto simp: no_cr_def kv)
  moreover have "no_cr d" using Cons.prems by (auto simp: no_cr_def)
  ultimately have "no_cr (dmerge (dset k v r) d)" by (rule Cons.IH)
  then show ?case by (simp add: dmerge_def kv)
qed

lemma matches_dset: "matches m r \<Longrightarrow> k \<notin> fst ` set m \<Longrightarrow> matches m (dset k v r)"
  by (force simp: matches_iff)

lemma matches_dmerge: "matches m r \<Longrightarrow> fst ` set d \<inter> fst ` set m = {} \<Longrightarrow> matches m (dmerge r d)"
proof (induction d arbitrary: r)
  case Nil
  then show ?case by simp
next
  case (Cons kv d)
  obtain k v where kv: "kv = (k, v)" by force
  have "matches m (dset k v r)" using Cons.prems by (intro matches_dset) (auto simp: kv)
  then have "matches m (dmerge (dset k v r) d)" using Cons by auto
  then show ?case by (simp add: dmerge_def kv)
qed

lemma keys_stringify [simp]: "fst ` set (stringify md) = fst ` set md"
  by (force simp: stringify_def)

lemma item_ok_keys: "item_ok item \<Longrightarrow> fst ` set (stringify (bi_metadata item)) \<inter> own_fields = {}"
  by (auto simp: item_ok_def)

lemma new_record_no_cr: "item_ok item \<Longrightarrow> no_cr (new_record (stringify (bi_metadata item)))"
  unfolding new_record_def
  by (rule no_cr_dmerge) (auto simp: no_cr_def PENDING_def cell_text_def item_ok_def stringify_def)

text \<open>What a completed benchmark has done to its record.\<close>

definition finished_record :: "bool \<Rightarrow> string \<Rightarrow> (string, pval) dict \<Rightarrow> prec \<Rightarrow> prec" where
  "finished_record reloaded tag d r = dset ''status'' (PStr DONE) (dset ''tag'' (PStr tag)
     (dmerge (if reloaded then dset ''reloaded'' (PBool True) r else r) d))"

lemma finished_record_done [simp]: "is_done (finished_record b tag d r)"
  by (simp add: finished_record_def is_done_def)

lemma finished_record_no_cr:
  assumes "no_cr r" and "no_cr d" and "CR \<notin> set tag"
  shows "no_cr (finished_record b tag d r)"
proof -
  have "no_cr (if b then dset ''reloaded'' (PBool True) r else r)"
    using assms by (auto intro!: no_cr_dset simp: cell_text_def)
  then have "no_cr (dmerge (if b then dset ''reloaded'' (PBool True) r else r) d)"
    using assms(2) by (rule no_cr_dmerge)
  then show ?thesis
    unfolding finished_record_def by (intro no_cr_dset) (use assms in \<open>auto simp: DONE_def\<close>)
qed

lemma finished_record_matches:
  assumes "matches m r" and m: "fst ` set m \<inter> own_fields = {}" and d: "fst ` set d \<subseteq> result_fields"
  shows "matches m (finished_record b tag d r)"
proof -
  have o: "''status'' \<notin> fst ` set m" "''tag'' \<notin> fst ` set m" "''reloaded'' \<notin> fst ` set m"
    using m own_fields_mem by (meson disjoint_iff)+
  have dm: "fst ` set d \<inter> fst ` set m = {}"
    using m d own_fields_mem(4) by (meson disjoint_iff subset_iff)
  have "matches m (if b then dset ''reloaded'' (PBool True) r else r)"
    using assms(1) o by (simp add: matches_dset)
  from matches_dmerge [OF this dm] show ?thesis
    unfolding finished_record_def using o by (intro matches_dset)
qed

lemma call_succeeds:
  assumes "succeeds env"
  obtains d w where "call env argv st = (Inr d, st\<lparr>rs_world := w\<rparr>)" "fst ` set d \<subseteq> result_fields" "no_cr d"
proof -
  from assms obtain d w' where "bench env argv (rs_world st) = (Inr d, w')"
    "fst ` set d \<subseteq> result_fields" "no_cr d"
    unfolding succeeds_def by blast
  with that show ?thesis by (simp add: call_def)
qed

lemma try_body_succeeds:
  assumes s: "succeeds env" and i: "\<not> o_interactive opt" "j < length (p_recs (rs_progress st))"
  obtains st' b d where "try_body env opt item j n st = (Completed, st')"
    "p_recs (rs_progress st') = (p_recs (rs_progress st))[j := dset ''tag'' (PStr (bi_tag item))
       (dmerge (if b then dset ''reloaded'' (PBool True) (p_recs (rs_progress st) ! j)
                else p_recs (rs_progress st) ! j) d)]"
    "fst ` set d \<subseteq> result_fields" "no_cr d"
proof -
  have "\<exists>st1 b. load_phase env opt item j n st = (Completed, st1) \<and>
      p_recs (rs_progress st1) = (p_recs (rs_progress st))[j :=
        if b then dset ''reloaded'' (PBool True) (p_recs (rs_progress st) ! j) else p_recs (rs_progress st) ! j]"
  proof (cases "o_skip_create_load opt \<or> rs_counter st \<noteq> 0")
    case True
    then show ?thesis by (intro exI [of _ st] exI [of _ False]) (simp add: load_phase_def)
  next
    case False
    obtain d1 w1 where c1: "call env (''create'' # common_args opt item) st = (Inr d1, st\<lparr>rs_world := w1\<rparr>)"
      using call_succeeds [OF s] by metis
    obtain d2 w2 where c2: "call env ((if o_sload opt then ''sload'' else ''load'') # common_args opt item)
        (st\<lparr>rs_world := w1\<rparr>) = (Inr d2, st\<lparr>rs_world := w1\<rparr>\<lparr>rs_world := w2\<rparr>)"
      using call_succeeds [OF s] by metis
    show ?thesis
      by (rule exI, rule exI [of _ True])
        (use False c1 c2 in \<open>auto simp: load_phase_def change_record_def change_def\<close>)
  qed
  then obtain st1 b where l: "load_phase env opt item j n st = (Completed, st1)"
    "p_recs (rs_progress st1) = (p_recs (rs_progress st))[j :=
        if b then dset ''reloaded'' (PBool True) (p_recs (rs_progress st) ! j) else p_recs (rs_progress st) ! j]"
    by blast
  obtain d w where c: "call env ([''execute'', ''--logs-per-sec'', show_int (o_logs_per_sec opt)] @
      common_args opt item) st1 = (Inr d, st1\<lparr>rs_world := w\<rparr>)"
    and d: "fst ` set d \<subseteq> result_fields" "no_cr d"
    using call_succeeds [OF s] by metis
  show ?thesis
    by (rule that [OF _ _ d])
      (use i l c in \<open>auto simp: try_body_def confirm_phase_def execute_phase_def change_record_def change_def\<close>)
qed

text \<open>
  One round that starts with all records done ends so, and its benchmark has a record.
\<close>

lemma save_synced_id: "synced p \<Longrightarrow> save p = p"
  by (cases p) (auto simp: synced_def save_def Let_def)

lemma run_item_succeeds:
  assumes s: "succeeds env" and i: "\<not> o_interactive opt" and ok: "item_ok item"
    and d: "all_done (rs_progress st)"
  obtains st' where "run_items env opt n fin (item # items) st = run_items env opt n fin items st'"
    "all_done (rs_progress st')" "covers (rs_progress st') item"
    "set (p_recs (rs_progress st)) \<subseteq> set (p_recs (rs_progress st'))"
proof -
  let ?p = "rs_progress st" and ?m = "stringify (bi_metadata item)"
  show ?thesis
  proof (cases rule: get_or_insert_cases [of "bi_metadata item" ?p])
    case (found j)
    then have j: "j < length (p_recs ?p)" "matches ?m (p_recs ?p ! j)" by (auto simp: find_match_Some)
    then have r: "p_recs ?p ! j \<in> set (p_recs ?p)" by simp
    with d have "is_done (p_recs ?p ! j)" by (simp add: all_done_def)
    then have "run_items env opt n fin (item # items) st = run_items env opt n fin items st"
      by (simp add: found is_done_def STATUSES_def)
    moreover have "covers ?p item" using r j unfolding covers_def by blast
    ultimately show ?thesis using that [OF _ d] by simp
  next
    case inserted
    let ?j = "length (p_recs ?p)" and ?q = "save (?p\<lparr>p_recs := p_recs ?p @ [new_record ?m]\<rparr>)"
    let ?st1 = "st\<lparr>rs_progress := ?q\<rparr>"
    have wf: "wf_dict ?m" using ok by (simp add: item_ok_def)
    have own: "fst ` set ?m \<inter> own_fields = {}" using item_ok_keys [OF ok] .
    have status: "dget (new_record ?m) ''status'' = Some (PStr PENDING)"
    proof -
      have "''status'' \<notin> fst ` set ?m" using own own_fields_mem(1) by (meson disjoint_iff)
      then have "dget ?m ''status'' = None" by (simp add: map_of_eq_None_iff)
      with wf show ?thesis by (simp add: new_record_get)
    qed
    obtain st2 b dd where b: "try_body env opt item ?j n ?st1 = (Completed, st2)"
      "p_recs (rs_progress st2) = (p_recs (rs_progress ?st1))[?j := dset ''tag'' (PStr (bi_tag item))
         (dmerge (if b then dset ''reloaded'' (PBool True) (p_recs (rs_progress ?st1) ! ?j)
                  else p_recs (rs_progress ?st1) ! ?j) dd)]"
      "fst ` set dd \<subseteq> result_fields" "no_cr dd"
      by (rule try_body_succeeds [OF s i, where st = ?st1 and j = ?j and item = item and n = n]) auto
    let ?f = "finished_record b (bi_tag item) dd (new_record ?m)"
    let ?st3 = "on_success ?j st2"
    have recs: "p_recs (rs_progress ?st3) = p_recs ?p @ [?f]"
      using b(2) by (simp add: on_success_def save_state_def change_record_def change_def
          finished_record_def)
    have run: "run_items env opt n fin (item # items) st = run_items env opt n fin items ?st3"
      using b(1) status by (simp add: inserted STATUSES_def PENDING_def DONE_def)
    have "synced (rs_progress ?st3)" by (simp add: on_success_def save_state_def)
    moreover have "no_cr ?f"
      by (rule finished_record_no_cr) (use new_record_no_cr [OF ok] b(4) ok in \<open>auto simp: item_ok_def\<close>)
    ultimately have "all_done (rs_progress ?st3)"
      using d recs by (auto simp: all_done_def)
    moreover have "covers (rs_progress ?st3) item"
      using finished_record_matches [OF new_record_matches [OF wf] own b(3)] recs by (simp add: covers_def)
    moreover have "set (p_recs ?p) \<subseteq> set (p_recs (rs_progress ?st3))" by (auto simp: recs)
    ultimately show ?thesis by (rule that [OF run])
  qed
qed

lemma covers_mono: "covers p item \<Longrightarrow> set (p_recs p) \<subseteq> set (p_recs q) \<Longrightarrow> covers q item"
  by (auto simp: covers_def)

lemma run_items_succeeds:
  assumes "succeeds env" and "\<not> o_interactive opt"
  shows "\<forall>item \<in> set items. item_ok item \<Longrightarrow> all_done (rs_progress st) \<Longrightarrow>
    run_items env opt n fin items st = (en, st') \<Longrightarrow>
    all_done (rs_progress st') \<and> (\<forall>item \<in> set items. covers (rs_progress st') item) \<and>
    set (p_recs (rs_progress st)) \<subseteq> set (p_recs (rs_progress st')) \<and>
    en = (case fin of None \<Rightarrow> LoopLeft | Some e \<Rightarrow> Uncaught e)"
proof (induction items arbitrary: st)
  case Nil
  then show ?case by (auto split: option.splits)
next
  case (Cons item items)
  have "item_ok item" using Cons.prems(1) by simp
  from run_item_succeeds [OF assms this Cons.prems(2)] obtain st1 where
    st1: "run_items env opt n fin (item # items) st = run_items env opt n fin items st1"
      "all_done (rs_progress st1)" "covers (rs_progress st1) item"
      "set (p_recs (rs_progress st)) \<subseteq> set (p_recs (rs_progress st1))"
    by metis
  from Cons.IH [OF _ st1(2)] Cons.prems(1,3) st1(1)
  have IH: "all_done (rs_progress st')" "\<forall>item \<in> set items. covers (rs_progress st') item"
    "set (p_recs (rs_progress st1)) \<subseteq> set (p_recs (rs_progress st'))"
    "en = (case fin of None \<Rightarrow> LoopLeft | Some e \<Rightarrow> Uncaught e)" by auto
  have "covers (rs_progress st') item" using covers_mono [OF st1(3) IH(3)] .
  with IH st1(4) show ?case by auto
qed

text \<open>A loop over benchmarks that are all done touches nothing.\<close>

lemma run_items_all_done:
  "\<forall>r \<in> set (p_recs (rs_progress st)). is_done r \<Longrightarrow> \<forall>item \<in> set items. covers (rs_progress st) item \<Longrightarrow>
   run_items env opt n fin items st = (case fin of None \<Rightarrow> LoopLeft | Some e \<Rightarrow> Uncaught e, st)"
proof (induction items)
  case Nil
  then show ?case by (simp split: option.splits)
next
  case (Cons item items)
  let ?p = "rs_progress st"
  from Cons.prems(2) obtain j where g: "get_or_insert (bi_metadata item) ?p = (j, ?p)"
    and j: "j < length (p_recs ?p)"
    by (cases rule: get_or_insert_cases [of "bi_metadata item" ?p])
      (auto simp: covers_def find_match_Some)
  with Cons.prems(1) have "is_done (p_recs ?p ! j)" by simp
  then have "run_items env opt n fin (item # items) st = run_items env opt n fin items st"
    by (simp add: g is_done_def STATUSES_def)
  with Cons show ?case by simp
qed

lemma is_done_as_loaded:
  assumes "r \<in> set rs" and "is_done r"
  shows "is_done (as_loaded (fieldnames rs) r)"
proof -
  have "''status'' \<in> set (fieldnames rs)"
    using assms unfolding set_fieldnames is_done_def by (force dest: map_of_SomeD)
  with assms(2) show ?thesis by (simp add: is_done_def as_loaded_get)
qed

text \<open>Reading the file of a finished session back.\<close>

lemma reload_all_done:
  assumes "all_done p" and "p_recs p \<noteq> []"
  shows "\<forall>r \<in> set (p_recs (snd (load (p\<lparr>p_recs := q\<rparr>)))). is_done r"
    and "covers p item \<Longrightarrow> covers (snd (load (p\<lparr>p_recs := q\<rparr>))) item"
proof -
  have ne: "r \<noteq> []" if "r \<in> set (p_recs p)" for r
    using assms(1) that by (auto simp: all_done_def is_done_def)
  have "save p = p" using assms(1) by (simp add: all_done_def save_synced_id)
  then have "p_recs (snd (load p)) = map (as_loaded (fieldnames (p_recs p))) (p_recs p)"
    using load_save [of p] assms ne by (auto simp: all_done_def)
  moreover have "p_file p \<noteq> None"
  proof
    assume "p_file p = None"
    with \<open>save p = p\<close> have "p_file (save p) = None" by simp
    with assms(2) show False by (simp add: save_def Let_def)
  qed
  then have "p_recs (snd (load (p\<lparr>p_recs := q\<rparr>))) = p_recs (snd (load p))"
    by (auto simp: load_def)
  ultimately have recs: "p_recs (snd (load (p\<lparr>p_recs := q\<rparr>))) = map (as_loaded (fieldnames (p_recs p))) (p_recs p)"
    by simp
  show "\<forall>r \<in> set (p_recs (snd (load (p\<lparr>p_recs := q\<rparr>)))). is_done r"
    using assms(1) by (auto simp: recs all_done_def intro: is_done_as_loaded)
  show "covers p item \<Longrightarrow> covers (snd (load (p\<lparr>p_recs := q\<rparr>))) item"
    by (auto simp: recs covers_def intro: matches_as_loaded)
qed

text \<open>With a succeeding environment every logged call returned.\<close>

definition log_ok :: "(call_log \<times> 'w) run_state \<Rightarrow> bool" where
  "log_ok st \<longleftrightarrow> (\<forall>(p, ok) \<in> set (log_of st). ok)"

lemma log_ok_frame [simp]:
  "log_ok (change_record i f st) = log_ok st" "log_ok (on_error i st) = log_ok st"
  "log_ok (on_success i st) = log_ok st" "log_ok (st\<lparr>rs_progress := p\<rparr>) = log_ok st"
  "log_ok (st\<lparr>rs_counter := c\<rparr>) = log_ok st" "log_ok (st\<lparr>rs_submitted := ts\<rparr>) = log_ok st"
  by (simp_all add: log_ok_def)

lemma call_log_ok:
  assumes "succeeds env" and "call (logged env) (p # argv) st = (r, st')" and "log_ok st"
  shows "log_ok st'"
proof -
  have "\<not> isl r"
    using assms(1) [unfolded succeeds_def, rule_format, of "p # argv" "snd (rs_world st)"] assms(2)
    by (auto simp: call_def logged_def)
  with call_logged [OF assms(2)] assms(3) show ?thesis by (auto simp: log_ok_def)
qed

lemma load_phase_log_ok:
  assumes "succeeds env" and "load_phase (logged env) opt item i n st = (out, st')" and "log_ok st"
  shows "log_ok st'"
proof -
  obtain r1 st1 where c1: "call (logged env) (''create'' # common_args opt item) st = (r1, st1)" by force
  obtain r2 st2 where c2: "call (logged env) ((if o_sload opt then ''sload'' else ''load'') # common_args opt item) st1 = (r2, st2)"
    by force
  note ok1 = call_log_ok [OF assms(1) c1 assms(3)]
  from call_log_ok [OF assms(1) c2 ok1] ok1 assms(2,3) c1 c2 show ?thesis
    by (cases r1; cases r2) (auto simp: load_phase_def split: if_splits)
qed

lemma execute_phase_log_ok:
  assumes "succeeds env" and "execute_phase (logged env) opt item i st = (out, st')" and "log_ok st"
  shows "log_ok st'"
proof -
  obtain r st1 where c: "call (logged env)
      (''execute'' # [''--logs-per-sec'', show_int (o_logs_per_sec opt)] @ common_args opt item) st = (r, st1)"
    by force
  from call_log_ok [OF assms(1) c assms(3)] assms(2) c show ?thesis
    by (cases r) (auto simp: execute_phase_def)
qed

lemma try_body_log_ok:
  assumes "succeeds env" and "try_body (logged env) opt item i n st = (out, st')" and "log_ok st"
  shows "log_ok st'"
proof -
  obtain o1 st1 where c: "confirm_phase (logged env) opt st = (o1, st1)" by force
  obtain o2 st2 where l: "load_phase (logged env) opt item i n st1 = (o2, st2)" by force
  have 1: "log_ok st1" using confirm_logged [OF c] assms(3) by (simp add: log_ok_def)
  have 2: "log_ok st2" using load_phase_log_ok [OF assms(1) l 1] .
  show ?thesis
    using assms(2) c l 1 2 execute_phase_log_ok [OF assms(1) _ 2]
    by (cases o1; cases o2) (auto simp: try_body_def)
qed

lemma run_items_log_ok:
  assumes "succeeds env"
  shows "run_items (logged env) opt n fin items st = (en, st') \<Longrightarrow> log_ok st \<Longrightarrow> log_ok st'"
proof (induction items arbitrary: st)
  case Nil
  then show ?case by (auto split: option.splits)
next
  case (Cons item items)
  from Cons.prems(1) show ?case
    by (cases rule: run_items_Cons)
      (use Cons try_body_log_ok [OF assms] in \<open>fastforce+\<close>)
qed

text \<open>Below zero the counter never comes back to zero unless a call fails.\<close>

lemma scheduled_negative:
  "scheduled ld n c l \<Longrightarrow> c < 0 \<Longrightarrow> \<forall>(p, ok) \<in> set l. ok \<Longrightarrow> map fst l = replicate (length l) ''execute''"
  by (induction ld n c l rule: scheduled.induct) auto

lemma scheduled_once:
  assumes "scheduled ld n 0 l" and "n \<le> 0" and "\<forall>(p, ok) \<in> set l. ok"
  shows "l = [] \<or> (\<exists>k. map fst l = ''create'' # ld # ''execute'' # replicate k ''execute'')"
proof (cases l)
  case Nil
  then show ?thesis by simp
next
  case (Cons x r)
  with assms obtain ok2 ok3 rest where l: "l = (''create'', True) # (ld, ok2) # (''execute'', ok3) # rest"
    by (auto split: list.splits if_splits)
  with assms have "scheduled ld n (n - 1) rest" by auto
  from scheduled_negative [OF this] assms l show ?thesis by auto
qed

lemma run_benchmarks_log:
  assumes "run_benchmarks (logged env) opt e n ts p ([], w) = (r, st)" and "\<not> o_skip_create_load opt"
  shows "scheduled (load_op opt) n 0 (log_of st)"
proof -
  obtain items fin where g: "benchmark_args e (Some (o_prefix opt)) (Some ts) = (items, fin)" by force
  let ?st = "\<lparr>rs_progress = p, rs_counter = 0, rs_submitted = [], rs_world = ([], w)\<rparr>"
  obtain en st' where r: "run_items (logged env) opt n fin items ?st = (en, st')" by force
  have "st = st'" using assms(1) g r by (simp add: run_benchmarks_def split: ending.splits)
  with run_items_logged [OF assms(2) r] show ?thesis by (auto simp: adds_def)
qed

lemma run_benchmarks_log_ok:
  assumes "run_benchmarks (logged env) opt e n ts p ([], w) = (r, st)" and "succeeds env"
  shows "\<forall>(p, ok) \<in> set (log_of st). ok"
proof -
  obtain items fin where g: "benchmark_args e (Some (o_prefix opt)) (Some ts) = (items, fin)" by force
  let ?st = "\<lparr>rs_progress = p, rs_counter = 0, rs_submitted = [], rs_world = ([], w)\<rparr>"
  obtain en st' where r: "run_items (logged env) opt n fin items ?st = (en, st')" by force
  have "st = st'" using assms(1) g r by (simp add: run_benchmarks_def split: ending.splits)
  with run_items_log_ok [OF assms(2) r] show ?thesis by (simp add: log_ok_def)
qed

text \<open>A second session over the same experiment: its benchmarks differ in the tag only.\<close>

lemma covers_metadata: "bi_metadata a = bi_metadata b \<Longrightarrow> covers p a = covers p b"
  by (simp add: covers_def)

lemma covers_any_suffix:
  assumes "\<forall>item \<in> set (fst (benchmark_args e pre suf)). covers p item"
  shows "\<forall>item \<in> set (fst (benchmark_args e pre suf')). covers p item"
proof -
  have m: "map bi_metadata (fst (benchmark_args e pre suf)) = map bi_metadata (fst (benchmark_args e pre suf'))"
    using generate_suffix [of e pre suf _ _ _ suf']
    by (cases "set_up e") (auto simp: benchmark_args_def map_prod_def split_beta)
  show ?thesis
  proof
    fix item assume "item \<in> set (fst (benchmark_args e pre suf'))"
    then have "bi_metadata item \<in> set (map bi_metadata (fst (benchmark_args e pre suf)))" by (simp add: m)
    then obtain i where "i \<in> set (fst (benchmark_args e pre suf))" "bi_metadata i = bi_metadata item" by auto
    with assms covers_metadata show "covers p item" by metis
  qed
qed

lemma suffix_ending: "snd (benchmark_args e pre suf) = snd (benchmark_args e pre suf')"
  using generate_suffix [of e pre suf _ _ _ suf']
  by (cases "set_up e") (auto simp: benchmark_args_def map_prod_def split_beta)

lemma session_all_done:
  assumes "succeeds env" and "\<not> o_interactive opt" and "all_done p"
    and "\<forall>item \<in> set (fst (benchmark_args e (Some (o_prefix opt)) (Some ts))). item_ok item"
    and "run_benchmarks env opt e n ts p w = (Inr k, st)"
  shows "all_done (rs_progress st)"
    and "\<forall>item \<in> set (fst (benchmark_args e (Some (o_prefix opt)) (Some ts))). covers (rs_progress st) item"
    and "snd (benchmark_args e (Some (o_prefix opt)) (Some ts)) = None"
proof -
  obtain items fin where g: "benchmark_args e (Some (o_prefix opt)) (Some ts) = (items, fin)" by force
  let ?st = "\<lparr>rs_progress = p, rs_counter = 0, rs_submitted = [], rs_world = w\<rparr>"
  obtain en st' where r: "run_items env opt n fin items ?st = (en, st')" by force
  have e: "st = st'" "en = LoopLeft" using assms(5) g r by (simp_all add: run_benchmarks_def split: ending.splits)
  from run_items_succeeds [OF assms(1,2) _ _ r] assms(3,4) g e
  show "all_done (rs_progress st)"
    "\<forall>item \<in> set (fst (benchmark_args e (Some (o_prefix opt)) (Some ts))). covers (rs_progress st) item"
    "snd (benchmark_args e (Some (o_prefix opt)) (Some ts)) = None"
    by (auto split: option.splits)
qed

lemma second_session:
  assumes "\<forall>r \<in> set (p_recs p). is_done r"
    and "\<forall>item \<in> set (fst (benchmark_args e (Some (o_prefix opt)) (Some ts))). covers p item"
    and "snd (benchmark_args e (Some (o_prefix opt)) (Some ts)) = None"
  shows "run_benchmarks env opt e n ts p w =
    (Inr 0, \<lparr>rs_progress = p, rs_counter = 0, rs_submitted = [], rs_world = w\<rparr>)"
proof -
  obtain items where g: "benchmark_args e (Some (o_prefix opt)) (Some ts) = (items, None)"
    using assms(3) by (metis prod.collapse)
  then show ?thesis
    using assms(1,2) run_items_all_done [of "\<lparr>rs_progress = p, rs_counter = 0, rs_submitted = [], rs_world = w\<rparr>" items]
    by (simp add: run_benchmarks_def)
qed

text \<open>The record a round works on, and what the other rounds see of it.\<close>

lemma on_error_recs:
  "i < length (p_recs (rs_progress st)) \<Longrightarrow>
   p_recs (rs_progress (on_error i st)) = (p_recs (rs_progress st))
     [i := dset ''status'' (PStr ERROR) (p_recs (rs_progress st) ! i)]"
  by (simp add: on_error_def save_state_def change_record_def change_def)

lemma load_phase_length: "load_phase env opt item i n st = (out, st') \<Longrightarrow>
  length (p_recs (rs_progress st')) = length (p_recs (rs_progress st))"
  by (auto simp: load_phase_def call_def change_record_def change_def split: if_splits prod.splits sum.splits)

lemma execute_phase_length: "execute_phase env opt item i st = (out, st') \<Longrightarrow>
  length (p_recs (rs_progress st')) = length (p_recs (rs_progress st))"
  by (auto simp: execute_phase_def call_def change_record_def change_def split: prod.splits sum.splits)

lemma try_body_length: "try_body env opt item i n st = (out, st') \<Longrightarrow>
  length (p_recs (rs_progress st')) = length (p_recs (rs_progress st))"
  by (auto simp: try_body_def confirm_phase_def dest!: load_phase_length execute_phase_length
      split: if_splits prod.splits outcome.splits)

lemma session_returns:
  assumes "succeeds env" and "\<not> o_interactive opt" and "all_done p"
    and "\<forall>item \<in> set (fst (benchmark_args e (Some (o_prefix opt)) (Some ts))). item_ok item"
    and "snd (benchmark_args e (Some (o_prefix opt)) (Some ts)) = None"
  shows "\<exists>st. run_benchmarks env opt e n ts p w = (Inr 0, st)"
proof -
  obtain items where g: "benchmark_args e (Some (o_prefix opt)) (Some ts) = (items, None)"
    using assms(5) by (metis prod.collapse)
  let ?st = "\<lparr>rs_progress = p, rs_counter = 0, rs_submitted = [], rs_world = w\<rparr>"
  obtain en st' where r: "run_items env opt n None items ?st = (en, st')" by force
  from run_items_succeeds [OF assms(1,2) _ _ r] assms(3,4) g have "en = LoopLeft" by simp
  with g r show ?thesis by (simp add: run_benchmarks_def)
qed

lemma no_items_covered: "\<forall>item \<in> set items. covers p item \<Longrightarrow> p_recs p = [] \<Longrightarrow> items = []"
  by (cases items) (auto simp: covers_def)

lemma after_session:
  assumes "succeeds env" and "\<not> o_interactive opt" and "all_done p"
    and ok: "\<forall>item \<in> set (fst (benchmark_args e (Some (o_prefix opt)) (Some ts))). item_ok item"
    and r: "run_benchmarks env opt e n ts p w = (Inr 0, st)"
  shows "\<exists>q. run_benchmarks env' opt e n ts' (snd (load ((rs_progress st)\<lparr>p_recs := []\<rparr>))) w' =
    (Inr 0, \<lparr>rs_progress = q, rs_counter = 0, rs_submitted = [], rs_world = w'\<rparr>)"
proof -
  note d = session_all_done [OF assms(1,2,3) ok r]
  let ?q = "snd (load ((rs_progress st)\<lparr>p_recs := []\<rparr>))"
  have e: "snd (benchmark_args e (Some (o_prefix opt)) (Some ts')) = None"
    using d(3) suffix_ending [of e "Some (o_prefix opt)" "Some ts" "Some ts'"] by simp
  note c = covers_any_suffix [OF d(2), where suf' = "Some ts'"]
  show ?thesis
  proof (cases "p_recs (rs_progress st) = []")
    case True
    with c have "fst (benchmark_args e (Some (o_prefix opt)) (Some ts')) = []" by (rule no_items_covered)
    with e have "benchmark_args e (Some (o_prefix opt)) (Some ts') = ([], None)" by (simp add: prod_eq_iff)
    then show ?thesis by (simp add: run_benchmarks_def)
  next
    case False
    note l = reload_all_done [OF d(1) False, where q = "[]"]
    have "\<forall>item \<in> set (fst (benchmark_args e (Some (o_prefix opt)) (Some ts'))). covers ?q item"
      using c l(2) by blast
    then show ?thesis by (intro exI) (rule second_session [OF l(1) _ e])
  qed
qed

lemma start_all_done: "all_done (start_progress (opt\<lparr>o_new := True\<rparr>) file)"
  by (simp add: start_progress_def all_done_def synced_def)

section \<open>Properties\<close>

definition sample_env :: "unit env" where
  "sample_env = \<lparr>bench = (\<lambda>argv w. (Inr [(''throughput'', PInt 5)], w)), ask = (\<lambda>w. (True, w)),
     check_connection = (\<lambda>w. (True, w))\<rparr>"

definition sample_opts :: run_opts where
  "sample_opts = \<lparr>o_set = [], o_prefix = [], o_dry_run = False, o_new = True, o_y = True, o_output = False,
     o_skip_create_load = False, o_sload = False, o_logs_per_sec = 20, o_interactive = False\<rparr>"

lemma sample_env_succeeds: "succeeds sample_env"
  by (simp add: succeeds_def sample_env_def result_fields_def no_cr_def cell_text_def str_simps)

text \<open>C1 Whatever the benchmarks do, the calls of a session follow the reloading discipline \<open>scheduled\<close>: from
  a counter at 0 the next calls are create, load and execute, a positive counter allows one execute
  and goes down by one, loading sets it to the experiment's \<^verbatim>\<open>reload_every\<close>, and any failing call makes
  the next benchmark create and load the database again.\<close>

theorem reload_discipline:
  assumes "run_benchmarks (logged env) opt e n ts p ([], w) = (r, st)" and "\<not> o_skip_create_load opt"
  shows "scheduled (if o_sload opt then ''sload'' else ''load'') n 0 (log_of st)"
  using run_benchmarks_log [OF assms] by (simp add: load_op_def)

lemma reload_discipline_witness:
  "\<exists>r st. run_benchmarks (logged sample_env) sample_opts default_experiment 15 ''t'' no_progress ([], ()) = (r, st) \<and>
     scheduled ''load'' 15 0 (log_of st)"
proof -
  obtain r st where r: "run_benchmarks (logged sample_env) sample_opts default_experiment 15 ''t'' no_progress ([], ()) = (r, st)"
    by force
  have "\<not> o_skip_create_load sample_opts" by (simp add: sample_opts_def)
  from reload_discipline [OF r this] r show ?thesis by (simp add: sample_opts_def)
qed

text \<open>C9 When no call fails, the database is created and loaded before the first benchmark and then before
  every \<^verbatim>\<open>reload_every\<close>-th one, and at no other time.\<close>

theorem reload_every_n:
  assumes "run_benchmarks (logged env) opt e n ts p ([], w) = (r, st)" and "\<not> o_skip_create_load opt"
    and "0 < n" and "\<forall>(p, ok) \<in> set (log_of st). ok"
  shows "\<exists>k. map fst (log_of st) = concat (map (\<lambda>j. if n dvd int j
    then [''create'', if o_sload opt then ''sload'' else ''load'', ''execute''] else [''execute'']) [0 ..< k])"
proof -
  from scheduled_pattern [OF run_benchmarks_log [OF assms(1,2)] assms(4,3), of 0] assms(3) obtain k where
    "map fst (log_of st) = concat (map (reload_pattern (load_op opt) n) [0 ..< 0 + k])" by auto
  then show ?thesis by (intro exI [of _ k]) (simp add: reload_pattern_def [abs_def] load_op_def)
qed

lemma reload_every_n_witness:
  "\<exists>r st k. run_benchmarks (logged sample_env) sample_opts default_experiment 2 ''t'' no_progress ([], ()) = (r, st) \<and>
     map fst (log_of st) = concat (map (\<lambda>j. if (2::int) dvd int j
       then [''create'', ''load'', ''execute''] else [''execute'']) [0 ..< k])"
proof -
  obtain r st where r: "run_benchmarks (logged sample_env) sample_opts default_experiment 2 ''t'' no_progress ([], ()) = (r, st)"
    by force
  have s: "\<not> o_skip_create_load sample_opts" "(0::int) < 2" by (simp_all add: sample_opts_def)
  from reload_every_n [OF r s run_benchmarks_log_ok [OF r sample_env_succeeds]] r show ?thesis
    by (auto simp: sample_opts_def)
qed

text \<open>Without a positive \<^verbatim>\<open>reload_every\<close> the counter goes below zero and stays there: when no call fails
  the database is created and loaded exactly once, before the first benchmark.\<close>

theorem loaded_once:
  assumes "run_benchmarks (logged env) opt e n ts p ([], w) = (r, st)" and "\<not> o_skip_create_load opt"
    and "n \<le> 0" and "\<forall>(p, ok) \<in> set (log_of st). ok"
  shows "log_of st = [] \<or> (\<exists>k. map fst (log_of st) =
    ''create'' # (if o_sload opt then ''sload'' else ''load'') # ''execute'' # replicate k ''execute'')"
  using scheduled_once [OF run_benchmarks_log [OF assms(1,2)] assms(3,4)] by (simp add: load_op_def)

lemma loaded_once_witness:
  "\<exists>r st. run_benchmarks (logged sample_env) sample_opts default_experiment 0 ''t'' no_progress ([], ()) = (r, st) \<and>
     (log_of st = [] \<or> (\<exists>k. map fst (log_of st) = ''create'' # ''load'' # ''execute'' # replicate k ''execute''))"
proof -
  obtain r st where r: "run_benchmarks (logged sample_env) sample_opts default_experiment 0 ''t'' no_progress ([], ()) = (r, st)"
    by force
  have s: "\<not> o_skip_create_load sample_opts" "(0::int) \<le> 0" by (simp_all add: sample_opts_def)
  from loaded_once [OF r s run_benchmarks_log_ok [OF r sample_env_succeeds]] r show ?thesis
    by (auto simp: sample_opts_def)
qed

text \<open>C10 A failing benchmark does not end the session: when the calls of a pending benchmark raise an
  ordinary exception, its record is marked as an error and the file is saved, the other records stay, the
  counter goes to 0, and the loop goes on with the next benchmark. An exception outside \<open>Exception\<close>
  (\<^verbatim>\<open>SystemExit\<close>) ends the session at once.\<close>

theorem failure_recorded:
  assumes "get_or_insert (bi_metadata item) (rs_progress st) = (i, p)"
    and "dget (p_recs p ! i) ''status'' = Some (PStr PENDING) \<or> dget (p_recs p ! i) ''status'' = Some (PStr ERROR)"
    and "try_body env opt item i n (st\<lparr>rs_progress := p\<rparr>) = (Raised e, st2)"
  shows "if is_exception e
    then \<exists>st3. run_items env opt n fin (item # items) st = run_items env opt n fin items st3 \<and>
      rs_counter st3 = 0 \<and> rs_world st3 = rs_world st2 \<and> rs_submitted st3 = rs_submitted st2 \<and>
      dget (p_recs (rs_progress st3) ! i) ''status'' = Some (PStr ERROR) \<and>
      (\<forall>j. j \<noteq> i \<longrightarrow> p_recs (rs_progress st3) ! j = p_recs (rs_progress st2) ! j) \<and>
      save (rs_progress st3) = rs_progress st3
    else run_items env opt n fin (item # items) st = (Uncaught e, st2)"
proof (cases "is_exception e")
  case True
  have i: "i < length (p_recs (rs_progress st2))"
    using store.acquire_index [OF assms(1)] try_body_length [OF assms(3)] by simp
  have "run_items env opt n fin (item # items) st = run_items env opt n fin items (on_error i st2)"
    using assms True by (auto simp: STATUSES_def DONE_def PENDING_def ERROR_def)
  moreover have "rs_submitted (on_error i st2) = rs_submitted st2"
    by (simp add: on_error_def save_state_def change_record_def)
  moreover have "save (rs_progress (on_error i st2)) = rs_progress (on_error i st2)"
    by (rule save_synced_id) (simp add: on_error_def save_state_def)
  ultimately show ?thesis
    using True i by (intro if_P [THEN iffD2]) (auto simp: on_error_recs intro!: exI [of _ "on_error i st2"])
next
  case False
  with assms show ?thesis by (auto simp: STATUSES_def DONE_def PENDING_def ERROR_def)
qed

text \<open>An experiment without parameters has one benchmark.\<close>

definition plain_experiment :: exp_file where
  "plain_experiment = default_experiment\<lparr>e_param_keys := Some [], e_param_values := Some [], e_replace := []\<rparr>"

lemma plain_benchmark:
  "\<exists>item. benchmark_args plain_experiment (Some []) (Some ''t'') = ([item], None) \<and> item_ok item"
proof -
  have "base_values plain_experiment = Inr default_base"
    by (simp add: base_values_def plain_experiment_def default_experiment_def base_keys_def scalar_def default_base_def)
  then have u: "set_up plain_experiment = Inr \<lparr>s_base = default_base, s_keys = [], s_tags = [], s_combinations = [[]]\<rparr>"
    by (simp add: set_up_def plain_experiment_def build_keys_def named_parameters_def combinations_def tag_params_def)
  have "replace_values (e_replace plain_experiment) [] = Inr []"
    by (simp add: plain_experiment_def replace_values_def)
  from one_benchmark_eq [OF this, of "Some []" "Some ''t''" default_base "[]"] u
  show ?thesis
    by (simp add: benchmark_args_def usable_def Let_def item_ok_def base_metadata_def default_base_def opt_part_def
        wf_dict_def plain_experiment_def default_experiment_def own_fields_def result_fields_def str_simps)
qed

lemma failure_recorded_witness:
  "\<exists>i p. get_or_insert [] no_progress = (i, p) \<and>
     (\<exists>st3. rs_counter st3 = 0 \<and> dget (p_recs (rs_progress st3) ! i) ''status'' = Some (PStr ERROR) \<and>
       run_items (sample_env\<lparr>bench := \<lambda>argv w. (Inl (ValueError []), w)\<rparr>) sample_opts 1 None
         [\<lparr>bi_args = [], bi_metadata = [], bi_tag = []\<rparr>]
         \<lparr>rs_progress = no_progress, rs_counter = 0, rs_submitted = [], rs_world = ()\<rparr> = (LoopLeft, st3))"
proof -
  let ?env = "sample_env\<lparr>bench := \<lambda>argv w. (Inl (ValueError []), w)\<rparr>"
  let ?item = "\<lparr>bi_args = [], bi_metadata = [], bi_tag = []\<rparr>"
  let ?st = "\<lparr>rs_progress = no_progress, rs_counter = 0, rs_submitted = [], rs_world = ()\<rparr>"
  obtain i p where g: "get_or_insert (bi_metadata ?item) (rs_progress ?st) = (i, p)" by force
  have p: "dget (p_recs p ! i) ''status'' = Some (PStr PENDING) \<or> dget (p_recs p ! i) ''status'' = Some (PStr ERROR)"
    using g by (auto simp: get_or_insert_def no_progress_def stringify_def new_record_def)
  obtain st2 where t: "try_body ?env sample_opts ?item i 1 (?st\<lparr>rs_progress := p\<rparr>) = (Raised (ValueError []), st2)"
    by (simp add: try_body_def confirm_phase_def load_phase_def call_def sample_opts_def)
  from failure_recorded [OF g p t, of None "[]"] g show ?thesis by (simp del: run_items.simps(2)) blast
qed

text \<open>C2 Resuming: an uninterrupted session that starts afresh, and whose benchmarks succeed, ends normally. A
  later session of the same experiment, in any environment and with any time stamp, loads its progress file,
  skips every benchmark and calls nothing: the world is untouched and no result is submitted.\<close>

theorem resume_runs_nothing:
  assumes "succeeds env" and "\<not> o_interactive opt"
    and "\<forall>item \<in> set (fst (benchmark_args e (Some (o_prefix opt)) (Some ts))). item_ok item"
    and "snd (benchmark_args e (Some (o_prefix opt)) (Some ts)) = None"
  shows "\<exists>st. run_benchmarks env opt e n ts (start_progress (opt\<lparr>o_new := True\<rparr>) file) w = (Inr 0, st) \<and>
    (\<forall>env' ts' w'. \<exists>q.
      run_benchmarks env' opt e n ts' (start_progress (opt\<lparr>o_new := False\<rparr>) (p_file (rs_progress st))) w' =
        (Inr 0, \<lparr>rs_progress = q, rs_counter = 0, rs_submitted = [], rs_world = w'\<rparr>))"
proof -
  have s: "start_progress (opt\<lparr>o_new := False\<rparr>) (p_file x) = snd (load (x\<lparr>p_recs := []\<rparr>))" for x
    by (cases x) (simp add: start_progress_def)
  from session_returns [OF assms(1,2) start_all_done assms(3,4)] obtain st where
    st: "run_benchmarks env opt e n ts (start_progress (opt\<lparr>o_new := True\<rparr>) file) w = (Inr 0, st)" by blast
  from after_session [OF assms(1,2) start_all_done assms(3) st] show ?thesis
    by (intro exI [of _ st] conjI st allI) (simp only: s)
qed

lemma resume_runs_nothing_witness:
  "\<exists>st. run_benchmarks sample_env sample_opts plain_experiment 5 ''t''
      (start_progress (sample_opts\<lparr>o_new := True\<rparr>) None) () = (Inr 0, st) \<and>
    (\<exists>q. run_benchmarks sample_env sample_opts plain_experiment 5 ''t2''
      (start_progress (sample_opts\<lparr>o_new := False\<rparr>) (p_file (rs_progress st))) () =
        (Inr 0, \<lparr>rs_progress = q, rs_counter = 0, rs_submitted = [], rs_world = ()\<rparr>))"
proof -
  obtain item where i: "benchmark_args plain_experiment (Some (o_prefix sample_opts)) (Some ''t'') = ([item], None)" "item_ok item"
    using plain_benchmark by (auto simp: sample_opts_def)
  have n: "\<not> o_interactive sample_opts" by (simp add: sample_opts_def)
  have "\<exists>st. run_benchmarks sample_env sample_opts plain_experiment 5 ''t''
      (start_progress (sample_opts\<lparr>o_new := True\<rparr>) None) () = (Inr 0, st) \<and>
    (\<forall>(env' :: unit env) ts' w'. \<exists>q.
      run_benchmarks env' sample_opts plain_experiment 5 ts'
        (start_progress (sample_opts\<lparr>o_new := False\<rparr>) (p_file (rs_progress st))) w' =
        (Inr 0, \<lparr>rs_progress = q, rs_counter = 0, rs_submitted = [], rs_world = w'\<rparr>))"
    by (rule resume_runs_nothing [OF sample_env_succeeds n]) (simp_all add: i)
  then show ?thesis by blast
qed

end
