(* ===== verification/Process.thy ===== *)
theory Process
  imports Py_Prelude
begin

text \<open>
  External processes and thread pools. A task is a program that runs commands one after the
  other (\<^verbatim>\<open>run_subprocess\<close> of \<^verbatim>\<open>tools/utils.py\<close>): a command may fail to start, and with
  \<^verbatim>\<open>check=True\<close> a non-zero return code raises. The pool is \<^verbatim>\<open>concurrent.futures.ThreadPoolExecutor\<close>
  as the tools use it with \<^verbatim>\<open>submit\<close>: tasks are queued, at most \<open>max_workers\<close> of them run at the
  same time, their commands interleave in any way, the exception of a task stays in its future,
  which nobody reads, and leaving the \<^verbatim>\<open>with\<close> block waits until nothing is queued or running.
\<close>

section \<open>Tasks\<close>

text \<open>
  \<open>Exec c check k\<close> runs \<open>c\<close> and goes on with \<open>k\<close>. The result of a command is its return code, or
  \<open>None\<close> when it could not be started.
\<close>

datatype prog = Ret | Fail exn | Exec "string list" bool prog

type_synonym event = "string list \<times> int option"

definition run_subprocess :: "string list \<Rightarrow> bool \<Rightarrow> bool \<Rightarrow> prog \<Rightarrow> prog" where
  "run_subprocess cmd dry_run check k = (if dry_run then k else Exec cmd check k)"

definition program :: "string list \<Rightarrow> string" where
  "program c = (case c of [] \<Rightarrow> [] | x # _ \<Rightarrow> x)"

definition after :: "string list \<Rightarrow> bool \<Rightarrow> prog \<Rightarrow> int option \<Rightarrow> prog" where
  "after c check k rc = (case rc of
     None \<Rightarrow> Fail (OSError (program c))
   | Some n \<Rightarrow> if check \<and> n \<noteq> 0 then Fail (CalledProcessError c) else k)"

text \<open>\<open>runs p es r\<close>: a complete run of \<open>p\<close> has the events \<open>es\<close> and ends with \<open>r\<close>.\<close>

fun runs :: "prog \<Rightarrow> event list \<Rightarrow> exn option \<Rightarrow> bool" where
  "runs Ret es r = (es = [] \<and> r = None)"
| "runs (Fail e) es r = (es = [] \<and> r = Some e)"
| "runs (Exec c check k) es r = (case es of
     [] \<Rightarrow> False
   | (c', rc) # es' \<Rightarrow> c' = c \<and> (case rc of
       None \<Rightarrow> es' = [] \<and> r = Some (OSError (program c))
     | Some n \<Rightarrow> if check \<and> n \<noteq> 0 then es' = [] \<and> r = Some (CalledProcessError c) else runs k es' r))"

lemma runs_Exec:
  "runs (Exec c check k) es r \<longleftrightarrow> (\<exists>rc es'. es = (c, rc) # es' \<and> runs (after c check k rc) es' r)"
  by (auto simp: after_def split: list.splits option.splits)

declare runs.simps(3) [simp del]

lemma runs_checkE:
  assumes "runs (Exec c True k) es r"
  obtains (missing) "es = [(c, None)]" "r = Some (OSError (program c))"
  | (failed) n where "n \<noteq> 0" "es = [(c, Some n)]" "r = Some (CalledProcessError c)"
  | (returned) es' where "es = (c, Some 0) # es'" "runs k es' r"
proof -
  from assms obtain rc es' where "es = (c, rc) # es'" "runs (after c True k rc) es' r" by (auto simp: runs_Exec)
  then show ?thesis
    using that by (cases rc) (auto simp: after_def split: if_splits)
qed

lemma runs_uncheckedE:
  assumes "runs (Exec c False k) es r"
  obtains (missing) "es = [(c, None)]" "r = Some (OSError (program c))"
  | (returned) n es' where "es = (c, Some n) # es'" "runs k es' r"
proof -
  from assms obtain rc es' where "es = (c, rc) # es'" "runs (after c False k rc) es' r" by (auto simp: runs_Exec)
  then show ?thesis
    using that by (cases rc) (auto simp: after_def)
qed

text \<open>The commands a task may run, in order, when nothing fails.\<close>

fun commands :: "prog \<Rightarrow> string list list" where
  "commands (Exec c check k) = c # commands k"
| "commands _ = []"

fun ending :: "prog \<Rightarrow> exn option" where
  "ending Ret = None"
| "ending (Fail e) = Some e"
| "ending (Exec c check k) = ending k"

lemma commands_after: "commands (after c check k rc) = commands k \<or> commands (after c check k rc) = []"
  by (auto simp: after_def split: option.splits)

text \<open>What a task runs is always an initial part of its commands; all of them when nothing fails.\<close>

lemma runs_prefix: "runs p es r \<Longrightarrow> \<exists>n. map fst es = take n (commands p)"
proof (induction p arbitrary: es)
  case (Exec c check k)
  then obtain rc es' where es: "es = (c, rc) # es'" "runs (after c check k rc) es' r"
    by (auto simp: runs_Exec)
  then consider "es' = []" | "runs k es' r"
    by (auto simp: after_def split: option.splits if_splits)
  then show ?case
  proof cases
    case 1
    then show ?thesis by (intro exI [of _ 1]) (simp add: es(1))
  next
    case 2
    from Exec.IH [OF 2] obtain n where "map fst es' = take n (commands k)" by blast
    then show ?thesis by (intro exI [of _ "Suc n"]) (simp add: es(1))
  qed
qed auto

lemma runs_all_zero:
  "runs p es r \<Longrightarrow> \<forall>(c, rc) \<in> set es. rc = Some 0 \<Longrightarrow> map fst es = commands p \<and> r = ending p"
  by (induction p arbitrary: es) (auto simp: runs_Exec after_def)

lemma runs_success: "runs p es None \<Longrightarrow> map fst es = commands p \<and> ending p = None"
proof (induction p arbitrary: es)
  case (Exec c check k)
  then obtain rc es' where es: "es = (c, rc) # es'" "runs (after c check k rc) es' None"
    by (auto simp: runs_Exec)
  then have "runs k es' None" by (auto simp: after_def split: option.splits if_splits)
  from Exec.IH [OF this] es(1) show ?case by simp
qed auto

lemma runs_exists: "\<exists>es. runs p es (ending p) \<and> map fst es = commands p"
proof (induction p)
  case (Exec c check k)
  then obtain es where "runs k es (ending k)" "map fst es = commands k" by blast
  then show ?case by (intro exI [of _ "(c, Some 0) # es"]) (simp add: runs_Exec after_def)
qed auto

section \<open>Thread pools\<close>

text \<open>Every submitted task is queued, running with a rest of its program, or finished.\<close>

datatype status = Queued prog | Running prog | Finished

record pool =
  slots :: "status list"
  trace :: "(nat \<times> event) list"

definition submit_all :: "prog list \<Rightarrow> pool" where
  "submit_all ps = \<lparr>slots = map Queued ps, trace = []\<rparr>"

fun is_running :: "status \<Rightarrow> bool" where
  "is_running (Running _) = True"
| "is_running _ = False"

fun is_queued :: "status \<Rightarrow> bool" where
  "is_queued (Queued _) = True"
| "is_queued _ = False"

definition running :: "pool \<Rightarrow> nat" where
  "running s = length (filter is_running (slots s))"

definition idle :: "pool \<Rightarrow> bool" where
  "idle s \<longleftrightarrow> (\<forall>x \<in> set (slots s). x = Finished)"

text \<open>A free worker takes the first queued task.\<close>

inductive pool_step :: "nat \<Rightarrow> pool \<Rightarrow> pool \<Rightarrow> bool" for workers where
  take_task: "running s < workers \<Longrightarrow> i < length (slots s) \<Longrightarrow> slots s ! i = Queued p \<Longrightarrow>
    \<forall>j < i. \<not> is_queued (slots s ! j) \<Longrightarrow>
    pool_step workers s (s\<lparr>slots := (slots s)[i := Running p]\<rparr>)"
| run_command: "i < length (slots s) \<Longrightarrow> slots s ! i = Running (Exec c check k) \<Longrightarrow>
    pool_step workers s
      (s\<lparr>slots := (slots s)[i := Running (after c check k rc)], trace := trace s @ [(i, c, rc)]\<rparr>)"
| finish: "i < length (slots s) \<Longrightarrow> slots s ! i = Running q \<Longrightarrow> (\<And>c check k. q \<noteq> Exec c check k) \<Longrightarrow>
    pool_step workers s (s\<lparr>slots := (slots s)[i := Finished]\<rparr>)"

inductive_cases pool_stepE: "pool_step workers s t"

abbreviation pool_steps :: "nat \<Rightarrow> pool \<Rightarrow> pool \<Rightarrow> bool" where
  "pool_steps workers \<equiv> (pool_step workers)\<^sup>*\<^sup>*"

text \<open>What one task did.\<close>

definition own :: "nat \<Rightarrow> (nat \<times> 'e) list \<Rightarrow> 'e list" where
  "own i l = map snd (filter (\<lambda>x. fst x = i) l)"

lemma own_simps [simp]:
  "own i [] = []"
  "own i (l @ [(j, e)]) = (if j = i then own i l @ [e] else own i l)"
  by (simp_all add: own_def)

text \<open>
  The invariant of one task: queued, it has done nothing; running, it is where its own events
  have taken it; finished, it has made a complete run.
\<close>

fun task_ok :: "prog \<Rightarrow> event list \<Rightarrow> status \<Rightarrow> bool" where
  "task_ok p es (Queued q) \<longleftrightarrow> q = p \<and> es = []"
| "task_ok p es (Running q) \<longleftrightarrow> (\<forall>es' r. runs q es' r \<longrightarrow> runs p (es @ es') r)"
| "task_ok p es Finished \<longleftrightarrow> (\<exists>r. runs p es r)"

definition consistent :: "prog list \<Rightarrow> pool \<Rightarrow> bool" where
  "consistent ps s \<longleftrightarrow> length (slots s) = length ps \<and> fst ` set (trace s) \<subseteq> {..< length ps} \<and>
     (\<forall>i < length ps. task_ok (ps ! i) (own i (trace s)) (slots s ! i))"

lemma consistent_start: "consistent ps (submit_all ps)"
  by (simp add: consistent_def submit_all_def)

lemma task_ok_update:
  assumes "consistent ps s" and "i < length ps"
    and "\<And>j. j \<noteq> i \<Longrightarrow> own j l = own j (trace s)" and "fst ` set l \<subseteq> {..< length ps}"
    and "task_ok (ps ! i) (own i l) x"
  shows "consistent ps (s\<lparr>slots := (slots s)[i := x], trace := l\<rparr>)"
  using assms by (simp add: consistent_def nth_list_update)

lemma consistent_step:
  assumes "pool_step workers s t" and c: "consistent ps s"
  shows "consistent ps t"
proof -
  have l: "length (slots s) = length ps" "fst ` set (trace s) \<subseteq> {..< length ps}"
    using c by (simp_all add: consistent_def)
  have ok: "task_ok (ps ! i) (own i (trace s)) (slots s ! i)" if "i < length (slots s)" for i
    using c that by (simp add: consistent_def)
  from assms(1) show ?thesis
  proof cases
    case (take_task i p)
    from ok [OF take_task(3)] take_task
    have "consistent ps (s\<lparr>slots := (slots s)[i := Running p], trace := trace s\<rparr>)"
      by (intro task_ok_update [OF c]) (auto simp: l)
    then show ?thesis by (simp add: take_task)
  next
    case (run_command i p check k rc)
    from ok [OF run_command(2)] run_command(3)
    have "runs (ps ! i) (own i (trace s) @ (p, rc) # es) r" if "runs (after p check k rc) es r" for es r
      using that by (simp add: runs_Exec)
    then show ?thesis
      unfolding run_command(1) using run_command(2) by (intro task_ok_update [OF c]) (auto simp: l)
  next
    case (finish i q)
    have "runs q [] (ending q)" using finish(4) by (cases q) auto
    then have "\<exists>r. runs (ps ! i) (own i (trace s)) r"
      using ok [OF finish(2)] finish(3) by fastforce
    then have "consistent ps (s\<lparr>slots := (slots s)[i := Finished], trace := trace s\<rparr>)"
      using finish(2) by (intro task_ok_update [OF c]) (auto simp: l)
    then show ?thesis by (simp add: finish)
  qed
qed

lemma consistent_reachable: "pool_steps workers (submit_all ps) s \<Longrightarrow> consistent ps s"
  by (induction rule: rtranclp_induct) (auto intro: consistent_start consistent_step)

text \<open>When the pool is idle every task has made a complete run of its own.\<close>

lemma idle_complete:
  assumes "pool_steps workers (submit_all ps) s" and "idle s" and "i < length ps"
  shows "\<exists>r. runs (ps ! i) (own i (trace s)) r"
proof -
  have c: "consistent ps s" using assms(1) by (rule consistent_reachable)
  then have "slots s ! i = Finished"
    using assms(2,3) by (simp add: idle_def consistent_def)
  with c assms(3) show ?thesis by (metis consistent_def task_ok.simps(3))
qed

text \<open>At most \<open>workers\<close> tasks run at the same time.\<close>

lemma running_step: "pool_step workers s t \<Longrightarrow> running s \<le> workers \<Longrightarrow> running t \<le> workers"
proof (erule pool_stepE)
  fix i p
  assume "running s < workers" "i < length (slots s)" "slots s ! i = Queued p"
    "t = s\<lparr>slots := (slots s)[i := Running p]\<rparr>"
  then show "running t \<le> workers"
    using filter_update_length [of i "slots s" is_running "Running p"] by (simp add: running_def)
next
  fix i c check k rc
  assume "i < length (slots s)" "slots s ! i = Running (Exec c check k)" "running s \<le> workers"
    "t = s\<lparr>slots := (slots s)[i := Running (after c check k rc)], trace := trace s @ [(i, c, rc)]\<rparr>"
  then show "running t \<le> workers"
    using filter_update_length [of i "slots s" is_running "Running (after c check k rc)"]
    by (simp add: running_def)
next
  fix i q
  assume "i < length (slots s)" "slots s ! i = Running q" "running s \<le> workers"
    "t = s\<lparr>slots := (slots s)[i := Finished]\<rparr>"
  then show "running t \<le> workers"
    using filter_update_length [of i "slots s" is_running Finished] by (simp add: running_def)
qed

lemma running_bound: "pool_steps workers (submit_all ps) s \<Longrightarrow> running s \<le> workers"
proof (induction rule: rtranclp_induct)
  case base
  have "filter is_running (map Queued ps) = []" by (simp add: filter_empty_conv)
  then show ?case by (simp add: running_def submit_all_def)
qed (rule running_step)

section \<open>Termination of the pool\<close>

text \<open>Every step lowers the work left, so leaving the \<^verbatim>\<open>with\<close> block never waits forever.\<close>

fun work :: "status \<Rightarrow> nat" where
  "work (Queued p) = size p + 3"
| "work (Running p) = size p + 2"
| "work Finished = 0"

definition work_left :: "pool \<Rightarrow> nat" where
  "work_left s = sum_list (map work (slots s))"

lemma size_after: "size (after c check k rc) \<le> size k"
  by (cases k) (auto simp: after_def split: option.splits)

lemma pool_step_decreases: "pool_step workers s t \<Longrightarrow> work_left t < work_left s"
  by (erule pool_stepE)
    (auto simp: work_left_def intro!: sum_update_less le_imp_less_Suc size_after)

lemma pool_progress:
  assumes "0 < workers" and "\<not> idle s"
  shows "\<exists>t. pool_step workers s t"
proof (cases "\<exists>i < length (slots s). is_running (slots s ! i)")
  case True
  then obtain i q where i: "i < length (slots s)" "slots s ! i = Running q"
    by (metis is_running.elims(2))
  show ?thesis
  proof (cases q)
    case (Exec c check k)
    with i pool_step.run_command [of i s c check k] show ?thesis by blast
  next
    case Ret
    with i pool_step.finish [of i s q] show ?thesis by blast
  next
    case (Fail e)
    with i pool_step.finish [of i s q] show ?thesis by blast
  qed
next
  case False
  then have nr: "\<not> is_running x" if "x \<in> set (slots s)" for x
    using that by (metis in_set_conv_nth)
  then have "filter is_running (slots s) = []" by (simp add: filter_empty_conv)
  then have r: "running s = 0" by (simp add: running_def)
  from assms(2) obtain x where x: "x \<in> set (slots s)" "x \<noteq> Finished" unfolding idle_def by blast
  with nr [OF x(1)] have "is_queued x" by (cases x) simp_all
  with x(1) have ex: "\<exists>i. i < length (slots s) \<and> is_queued (slots s ! i)" by (metis in_set_conv_nth)
  define i where "i = (LEAST i. i < length (slots s) \<and> is_queued (slots s ! i))"
  from LeastI_ex [OF ex] have i: "i < length (slots s)" "is_queued (slots s ! i)" unfolding i_def by auto
  have "\<forall>j < i. \<not> is_queued (slots s ! j)"
    using not_less_Least [of _ "\<lambda>i. i < length (slots s) \<and> is_queued (slots s ! i)"] i(1)
    unfolding i_def by (metis (no_types, lifting) order.strict_trans)
  moreover obtain p where "slots s ! i = Queued p" using i(2) by (metis is_queued.elims(2))
  ultimately show ?thesis using i(1) r assms(1) pool_step.take_task [of s workers i] by auto
qed

interpretation tp: shrinking "pool_step workers" work_left for workers
  by unfold_locales (rule pool_step_decreases)

lemma pool_terminates: "0 < workers \<Longrightarrow> \<exists>t. pool_steps workers s t \<and> idle t"
  by (rule tp.reaches) (rule pool_progress)

lemma pool_steps_bound: "(pool_step workers ^^ n) s t \<Longrightarrow> n + work_left t \<le> work_left s"
  by (rule tp.steps_bound)

section \<open>Sequences of tasks and pools\<close>

text \<open>
  A function that runs some tasks itself and hands others to a pool: \<open>Inline\<close> runs in the
  calling thread and its exception propagates; \<open>Submit\<close> is a \<^verbatim>\<open>with ThreadPoolExecutor\<close> block.
\<close>

datatype phase = Inline prog | Submit nat "prog list"

definition no_workers :: exn where
  "no_workers = ValueError ''max_workers must be greater than 0''"

definition pool_run :: "nat \<Rightarrow> prog list \<Rightarrow> (nat \<times> event) list \<Rightarrow> bool" where
  "pool_run workers ps l \<longleftrightarrow> (\<exists>s. pool_steps workers (submit_all ps) s \<and> idle s \<and> trace s = l)"

text \<open>The log of every phase in turn, and how the function ends.\<close>

fun phases_run :: "phase list \<Rightarrow> (nat \<times> event) list list \<Rightarrow> exn option \<Rightarrow> bool" where
  "phases_run [] ls r \<longleftrightarrow> ls = [] \<and> r = None"
| "phases_run (Inline p # ph) ls r \<longleftrightarrow> (\<exists>es x ls'. ls = map (Pair 0) es # ls' \<and> runs p es x \<and>
     (case x of Some e \<Rightarrow> ls' = [] \<and> r = Some e | None \<Rightarrow> phases_run ph ls' r))"
| "phases_run (Submit n ps # ph) ls r \<longleftrightarrow> (if n = 0 then ls = [] \<and> r = Some no_workers
     else (\<exists>l ls'. ls = l # ls' \<and> pool_run n ps l \<and> phases_run ph ls' r))"

fun phase_tasks :: "phase \<Rightarrow> prog list" where
  "phase_tasks (Inline p) = [p]"
| "phase_tasks (Submit n ps) = ps"

text \<open>Every function terminates, and its events are those of complete runs of its tasks.\<close>

lemma pool_run_exists: "0 < workers \<Longrightarrow> \<exists>l. pool_run workers ps l"
  using pool_terminates [of workers "submit_all ps"] by (auto simp: pool_run_def)

lemma pool_run_complete:
  "pool_run workers ps l \<Longrightarrow> i < length ps \<Longrightarrow> \<exists>r. runs (ps ! i) (own i l) r"
  unfolding pool_run_def using idle_complete by blast

lemma pool_run_tasks: "pool_run workers ps l \<Longrightarrow> (i, e) \<in> set l \<Longrightarrow> i < length ps"
proof -
  assume "pool_run workers ps l" and e: "(i, e) \<in> set l"
  then obtain s where s: "pool_steps workers (submit_all ps) s" "trace s = l"
    unfolding pool_run_def by blast
  have "fst ` set l \<subseteq> {..< length ps}"
    using consistent_reachable [OF s(1)] s(2) unfolding consistent_def by blast
  with e show ?thesis by force
qed

lemma own_mem: "(i, e) \<in> set l \<longleftrightarrow> e \<in> set (own i l)"
  by (force simp: own_def)

lemma pool_run_event:
  assumes "pool_run workers ps l" and "(i, e) \<in> set l"
  shows "\<exists>r es. i < length ps \<and> runs (ps ! i) es r \<and> e \<in> set es"
  using pool_run_complete [OF assms(1) pool_run_tasks [OF assms]] pool_run_tasks [OF assms] assms(2)
  by (auto simp: own_mem)

lemma own_map_Pair [simp]: "own j (map (Pair i) es) = (if j = i then es else [])"
  by (simp add: own_def comp_def filter_map)

lemma phases_run_InlineI:
  "runs p es x \<Longrightarrow> (case x of Some e \<Rightarrow> ls = [] \<and> r = Some e | None \<Rightarrow> phases_run ph ls r) \<Longrightarrow>
   phases_run (Inline p # ph) (map (Pair 0) es # ls) r"
  unfolding phases_run.simps by blast

lemma phases_run_exists: "\<exists>ls r. phases_run ph ls r"
proof (induction ph)
  case (Cons x ph)
  then obtain ls r where IH: "phases_run ph ls r" by blast
  show ?case
  proof (cases x)
    case (Inline p)
    obtain es where es: "runs p es (ending p)" using runs_exists by blast
    show ?thesis
    proof (cases "ending p")
      case None
      have "phases_run (x # ph) (map (Pair 0) es # ls) r"
        unfolding Inline by (rule phases_run_InlineI [OF es]) (simp add: None IH)
      then show ?thesis by blast
    next
      case (Some e)
      have "phases_run (x # ph) [map (Pair 0) es] (Some e)"
        unfolding Inline by (rule phases_run_InlineI [OF es]) (simp add: Some)
      then show ?thesis by blast
    qed
  next
    case (Submit n ps)
    with IH pool_run_exists [of n ps] show ?thesis by (cases "n = 0") auto
  qed
qed simp

lemma phases_run_event:
  "phases_run ph ls r \<Longrightarrow> l \<in> set ls \<Longrightarrow> (i, e) \<in> set l \<Longrightarrow>
   \<exists>x \<in> set ph. \<exists>p \<in> set (phase_tasks x). \<exists>es r. runs p es r \<and> e \<in> set es"
proof (induction ph arbitrary: ls)
  case (Cons x ph)
  let ?Q = "\<lambda>x. \<exists>p \<in> set (phase_tasks x). \<exists>es r. runs p es r \<and> e \<in> set es"
  have later: "\<exists>x \<in> set (x # ph). ?Q x" if "phases_run ph ls' r" "l \<in> set ls'" for ls'
    using Cons.IH [OF that Cons.prems(3)] by simp
  have now: "\<exists>x \<in> set (x # ph). ?Q x" if "p \<in> set (phase_tasks x)" "runs p es y" "e \<in> set es" for p es y
    by (rule bexI [of _ x]) (use that in \<open>blast, simp\<close>)
  show ?case
  proof (cases x)
    case (Inline p)
    with Cons.prems(1) obtain es y ls' where y: "ls = map (Pair 0) es # ls'" "runs p es y"
      "case y of Some e \<Rightarrow> ls' = [] \<and> r = Some e | None \<Rightarrow> phases_run ph ls' r"
      unfolding Inline phases_run.simps by blast
    show ?thesis
    proof (cases "l = map (Pair 0) es")
      case True
      with Cons.prems(3) have "e \<in> set es" by auto
      then show ?thesis using y(2) by (intro now) (simp_all add: Inline)
    next
      case False
      with y(1) Cons.prems(2) have l: "l \<in> set ls'" by simp
      with y(3) have "phases_run ph ls' r" by (cases y) simp_all
      then show ?thesis using l by (rule later)
    qed
  next
    case (Submit n ps)
    have "n \<noteq> 0" using Cons.prems(1,2) unfolding Submit by (cases "n = 0") simp_all
    with Cons.prems(1) obtain l0 ls' where y: "ls = l0 # ls'" "pool_run n ps l0" "phases_run ph ls' r"
      unfolding Submit phases_run.simps by (simp split: if_splits) blast
    show ?thesis
    proof (cases "l = l0")
      case True
      with pool_run_event [OF y(2)] Cons.prems(3) obtain r' es where
        "i < length ps" "runs (ps ! i) es r'" "e \<in> set es" by blast
      then show ?thesis by (intro now [of "ps ! i"]) (simp_all add: Submit)
    next
      case False
      with y(1) Cons.prems(2) have "l \<in> set ls'" by simp
      with y(3) show ?thesis by (rule later)
    qed
  qed
qed simp

end
