(* ===== verification/Benchmark.thy ===== *)
theory Benchmark
  imports Config Process "HOL-Library.Multiset"
begin

text \<open>
  \<^verbatim>\<open>tools/benchmark.py\<close>, the part that starts and deletes benchmarks: the settings handed to
  helm, \<^verbatim>\<open>run_benchmark\<close> as a task of three commands, and the \<^verbatim>\<open>do\<close> methods of the five
  operations as the tasks they run themselves or submit to a thread pool. The YAML that helm
  prints goes from the first command to the others through a temporary file; its text plays no
  role here.
\<close>

text \<open>
  What the functions read besides their arguments: the directory of the deployment files, the
  parsed \<^verbatim>\<open>main.yaml\<close> in it, the contexts of the kube configuration, and the time.
\<close>

record site =
  base_path :: string
  yaml :: main_config
  contexts :: "string list"
  now :: string

section \<open>run_benchmark\<close>

text \<open>\<^verbatim>\<open>a, b = s.split(sep)\<close> where \<^verbatim>\<open>sep\<close> occurs in \<^verbatim>\<open>s\<close>\<close>

definition cut :: "string \<Rightarrow> string \<Rightarrow> (string \<times> string) res" where
  "cut sep s = (case split sep s of
     [a, b] \<Rightarrow> Inr (a, b)
   | _ \<Rightarrow> Inl (ValueError ''too many values to unpack (expected 2)''))"

definition invalid_piece :: "string \<Rightarrow> exn" where
  "invalid_piece p = ValueError (''Invalid per-region value: '' @ p)"

definition region_value :: "string \<Rightarrow> string \<Rightarrow> string \<Rightarrow> string list res" where
  "region_value region key p =
     (if \<not> str_in '':'' p then Inl (invalid_piece p)
      else rbind (cut '':'' p) (\<lambda>(target, val).
        Inr (if strip target = region then [''--set'', key @ ''='' @ strip val] else [])))"

definition expand_set :: "string \<Rightarrow> string \<Rightarrow> string list res" where
  "expand_set region s =
     (if str_in ''=!'' s
      then rbind (cut ''=!'' s) (\<lambda>(key, val).
        rbind (rmap (region_value region key) (split '';'' val)) (\<lambda>args. Inr (concat args)))
      else Inr [''--set'', s])"

definition helm_template :: "site \<Rightarrow> string \<Rightarrow> string \<Rightarrow> string list \<Rightarrow> bool \<Rightarrow> string list res" where
  "helm_template st namespace region sets dry_run =
     rbind (rmap (expand_set region) sets) (\<lambda>args.
       Inr ([''helm'', ''template'', base_path st @ ''/helm-benchbase'', ''--namespace'', namespace] @
            concat args @ (if dry_run then [''--debug''] else [])))"

definition kubectl :: "string \<Rightarrow> string \<Rightarrow> string \<Rightarrow> string list" where
  "kubectl verb namespace ctx =
     [''kubectl'', verb, ''--namespace'', namespace, ''-f'', ''-'', ''--context'', ctx]"

definition run_benchmark :: "site \<Rightarrow> string \<Rightarrow> string \<Rightarrow> string list \<Rightarrow> bool \<Rightarrow> bool \<Rightarrow> prog" where
  "run_benchmark st namespace region sets delete_only dry_run =
     (case helm_template st namespace region sets dry_run of
        Inl e \<Rightarrow> Fail e
      | Inr helm \<Rightarrow> run_subprocess helm False True
          (case get_context (contexts st) (yaml st) region of
             Inl e \<Rightarrow> Fail e
           | Inr ctx \<Rightarrow> run_subprocess (kubectl ''delete'' namespace ctx) dry_run False
               (if delete_only then Ret
                else run_subprocess (kubectl ''apply'' namespace ctx) dry_run True Ret)))"

section \<open>Operation.run\<close>

type_synonym namespaces = "(string \<times> namespace_info) list"

record operation =
  op_config :: main_config
  op_namespaces :: namespaces
  op_settings :: "string list"
  op_dry_run :: bool

text \<open>
  Sorting by id compares numbers; an id that is no number cannot be compared with the 0 of the
  global namespace.
\<close>

definition number_of :: "pval \<Rightarrow> rat" where
  "number_of v = (case py_num v of None \<Rightarrow> 0 | Some q \<Rightarrow> q)"

definition sort_namespaces :: "namespaces \<Rightarrow> namespaces res" where
  "sort_namespaces nss = (if \<forall>(n, i) \<in> set nss. py_num (ni_id i) \<noteq> None
     then Inr (sort_key (\<lambda>(n, i). number_of (ni_id i)) nss)
     else Inl (TypeError ''not supported between instances''))"

definition namespace_settings :: "namespaces \<Rightarrow> string list" where
  "namespace_settings nss =
     (''ordered_namespaces={'' @ join '','' (map fst nss) @ ''}'') #
     [''namespaces.'' @ n @ ''.'' @ k @ ''='' @ py_str v. (n, i) \<leftarrow> nss, (k, v) \<leftarrow> ns_items i]"

definition prepare :: "site \<Rightarrow> string list \<Rightarrow> bool \<Rightarrow> operation res" where
  "prepare st sets dry_run =
     rbind (get_main_config (contexts st) (yaml st)) (\<lambda>c.
     rbind (get_namespaces c) (\<lambda>nss.
     rbind (sort_namespaces nss) (\<lambda>sorted.
       Inr \<lparr>op_config = c, op_namespaces = sorted,
            op_settings = sets @ namespace_settings sorted, op_dry_run = dry_run\<rparr>)))"

section \<open>The operations\<close>

text \<open>\<open>rs\<close> (\<^verbatim>\<open>regions\<close>) is \<open>[]\<close> when the option is missing: the code only asks whether it is empty.\<close>

definition selected :: "string list \<Rightarrow> string \<Rightarrow> bool" where
  "selected rs region \<longleftrightarrow> rs = [] \<or> region \<in> set rs"

definition setting :: "string \<Rightarrow> pval \<Rightarrow> string list" where
  "setting key v = (if py_truth v then [key @ ''='' @ py_str v] else [])"

abbreviation target_key :: string where "target_key \<equiv> ''target_address_and_database''"

definition global_name :: "operation \<Rightarrow> string res" where
  "global_name op = req (KeyError ''global_region'') (global_region (op_config op))"

definition create_do :: "site \<Rightarrow> operation \<Rightarrow> string list \<Rightarrow> phase list res" where
  "create_do st op rs = rbind (global_name op) (\<lambda>region.
     if \<not> selected rs region then Inr []
     else Inr [Inline (run_benchmark st ''global'' region
       (op_settings op @ [''operation=create''] @ setting target_key (opt_get PNone (global_target (op_config op))))
       False (op_dry_run op))])"

definition load_task :: "site \<Rightarrow> operation \<Rightarrow> nat \<times> string \<times> namespace_info \<Rightarrow> prog" where
  "load_task st op = (\<lambda>(i, n, info). run_benchmark st n (ni_region info)
     (op_settings op @ [''operation=load'', ''loadall=false'', ''namespace_id='' @ show_nat i] @
      setting target_key (ni_target info)) False (op_dry_run op))"

definition load_do :: "site \<Rightarrow> operation \<Rightarrow> string list \<Rightarrow> phase list res" where
  "load_do st op rs = Inr [Submit (length (op_namespaces op))
     (map (load_task st op)
       (filter (\<lambda>(i, n, info). selected rs (ni_region info)) (enumerate 0 (op_namespaces op))))]"

text \<open>Unlike the other operations \<^verbatim>\<open>sload\<close> reads the target with a subscript.\<close>

definition sload_do :: "site \<Rightarrow> operation \<Rightarrow> string list \<Rightarrow> phase list res" where
  "sload_do st op rs = rbind (global_name op) (\<lambda>region.
     if \<not> selected rs region then Inr []
     else rbind (req (KeyError ''global_region_target_address_and_database'') (global_target (op_config op))) (\<lambda>target.
       Inr [Inline (run_benchmark st ''global'' region
         (op_settings op @ [''operation=load'', ''loadall=true''] @ setting target_key target)
         False (op_dry_run op))]))"

definition without_global :: "operation \<Rightarrow> string list \<Rightarrow> namespaces" where
  "without_global op rs =
     filter (\<lambda>(n, info). n \<noteq> ''global'' \<and> selected rs (ni_region info)) (op_namespaces op)"

definition execute_task :: "site \<Rightarrow> operation \<Rightarrow> string \<times> namespace_info \<Rightarrow> prog" where
  "execute_task st op = (\<lambda>(n, info). run_benchmark st n (ni_region info)
     (op_settings op @ [''operation=execute'', ''timestamp='' @ now st, ''namespace_id='' @ py_str (ni_id info)] @
      setting target_key (ni_target info) @ setting ''warmup'' (ni_warmup info) @
      setting ''instances'' (ni_instances info)) False (op_dry_run op))"

definition execute_do :: "site \<Rightarrow> operation \<Rightarrow> string list \<Rightarrow> phase list res" where
  "execute_do st op rs = (let nss = without_global op rs in
     Inr [Submit (length nss)
       (map (execute_task st op) (filter (\<lambda>(n, info). selected rs (ni_region info)) nss))])"

definition delete_tasks :: "site \<Rightarrow> operation \<Rightarrow> string \<times> namespace_info \<Rightarrow> prog list" where
  "delete_tasks st op = (\<lambda>(n, info).
     [run_benchmark st n (ni_region info) (op_settings op @ [''operation=load'']) True (op_dry_run op),
      run_benchmark st n (ni_region info) (op_settings op @ [''operation=execute'']) True (op_dry_run op)])"

definition delete_do :: "site \<Rightarrow> operation \<Rightarrow> string list \<Rightarrow> phase list res" where
  "delete_do st op rs = rbind (global_name op) (\<lambda>g. Inr
     ((if selected rs g
       then [Inline (run_benchmark st ''global'' g (op_settings op @ [''operation=create'']) True (op_dry_run op))]
       else []) @
      [Submit (length (op_namespaces op)) (concat (map (delete_tasks st op)
        (filter (\<lambda>(n, info). selected rs (ni_region info)) (op_namespaces op))))]))"

text \<open>\<^verbatim>\<open>main\<close>'s choice of the operation, up to its \<^verbatim>\<open>do\<close> method.\<close>

definition operation_do :: "string \<Rightarrow> site \<Rightarrow> operation \<Rightarrow> string list \<Rightarrow> phase list res" where
  "operation_do name st op rs =
     (if name = ''create'' then create_do st op rs
      else if name = ''sload'' then sload_do st op rs
      else if name = ''load'' then load_do st op rs
      else if name = ''execute'' then execute_do st op rs
      else if name = ''delete'' then delete_do st op rs
      else Inl (ValueError (''Unknown operation: '' @ name)))"

section \<open>One benchmark\<close>

definition helm_head :: "site \<Rightarrow> string \<Rightarrow> string list" where
  "helm_head st n = [''helm'', ''template'', base_path st @ ''/helm-benchbase'', ''--namespace'', n]"

lemma helm_template_head:
  "helm_template st n r sets dry = Inr helm \<Longrightarrow> \<exists>rest. helm = helm_head st n @ rest"
  by (auto simp: helm_template_def helm_head_def rbind_eq_Inr)

text \<open>The commands of a benchmark once helm's command line and the context are known.\<close>

lemma run_benchmark_eq:
  "helm_template st n r sets dry = Inr helm \<Longrightarrow> get_context (contexts st) (yaml st) r = Inr ctx \<Longrightarrow>
   run_benchmark st n r sets del dry = Exec helm True
     (if dry then Ret else Exec (kubectl ''delete'' n ctx) False
       (if del then Ret else Exec (kubectl ''apply'' n ctx) True Ret))"
  by (simp add: run_benchmark_def run_subprocess_def)

text \<open>Whatever is known, these are the only commands.\<close>

lemma run_benchmark_commands:
  "commands (run_benchmark st n r sets del dry) = [] \<or>
   (\<exists>helm. helm_template st n r sets dry = Inr helm \<and>
     (commands (run_benchmark st n r sets del dry) = [helm] \<or>
      (\<exists>ctx. get_context (contexts st) (yaml st) r = Inr ctx \<and> \<not> dry \<and>
        commands (run_benchmark st n r sets del dry) =
          helm # kubectl ''delete'' n ctx # (if del then [] else [kubectl ''apply'' n ctx]))))"
  by (auto simp: run_benchmark_def run_subprocess_def split: sum.splits)

lemma run_benchmark_event:
  assumes "runs (run_benchmark st n r sets del dry) es x" and "(c, rc) \<in> set es"
  shows "(\<exists>rest. c = helm_head st n @ rest) \<or>
    (\<exists>ctx verb. c = kubectl verb n ctx \<and> get_context (contexts st) (yaml st) r = Inr ctx \<and> \<not> dry \<and>
      (verb = ''delete'' \<or> verb = ''apply'' \<and> \<not> del))"
proof -
  have "c \<in> set (map fst es)" using assms(2) by force
  then have "c \<in> set (commands (run_benchmark st n r sets del dry))"
    using runs_prefix [OF assms(1)] by (metis in_set_takeD)
  then show ?thesis
    using run_benchmark_commands [of st n r sets del dry] helm_template_head [of st n r sets dry]
    by (auto split: if_splits)
qed

section \<open>The tasks of an operation\<close>

text \<open>Every task of every operation is \<^verbatim>\<open>run_benchmark\<close> for a selected region and a namespace of it.\<close>

definition benchmark_task :: "site \<Rightarrow> operation \<Rightarrow> string list \<Rightarrow> bool \<Rightarrow> prog \<Rightarrow> bool" where
  "benchmark_task st op rs del p \<longleftrightarrow> (\<exists>n r sets. p = run_benchmark st n r sets del (op_dry_run op) \<and>
     selected rs r \<and> ((n = ''global'' \<and> global_region (op_config op) = Some r) \<or>
       (\<exists>info. (n, info) \<in> set (op_namespaces op) \<and> ni_region info = r)))"

lemma global_taskI:
  "selected rs r \<Longrightarrow> global_region (op_config op) = Some r \<Longrightarrow>
   benchmark_task st op rs del (run_benchmark st ''global'' r sets del (op_dry_run op))"
  unfolding benchmark_task_def by blast

lemma namespace_taskI:
  "selected rs (ni_region info) \<Longrightarrow> (n, info) \<in> set (op_namespaces op) \<Longrightarrow>
   benchmark_task st op rs del (run_benchmark st n (ni_region info) sets del (op_dry_run op))"
  unfolding benchmark_task_def by blast

lemma operation_tasks:
  assumes "operation_do name st op rs = Inr ph" and "x \<in> set ph" and "p \<in> set (phase_tasks x)"
  shows "benchmark_task st op rs (name = ''delete'') p"
proof -
  have g: "global_region (op_config op) = Some g" if "global_name op = Inr g" for g
    using that by (simp add: global_name_def split: option.splits)
  from assms(1) consider (create) "name = ''create''" "create_do st op rs = Inr ph"
    | (sload) "name = ''sload''" "sload_do st op rs = Inr ph" | (load) "name = ''load''" "load_do st op rs = Inr ph"
    | (execute) "name = ''execute''" "execute_do st op rs = Inr ph"
    | (delete) "name = ''delete''" "delete_do st op rs = Inr ph"
    by (auto simp: operation_do_def split: if_splits)
  then show ?thesis
  proof cases
    case create
    then obtain r sets where r: "global_name op = Inr r" and
      ph: "x = Inline (run_benchmark st ''global'' r sets False (op_dry_run op))" "selected rs r"
      using assms(2) by (auto simp: create_do_def rbind_eq_Inr split: if_splits)
    then show ?thesis using assms(3) g [OF r] create(1) by (simp add: global_taskI)
  next
    case sload
    then obtain r sets where r: "global_name op = Inr r" and
      ph: "x = Inline (run_benchmark st ''global'' r sets False (op_dry_run op))" "selected rs r"
      using assms(2) by (auto simp: sload_do_def rbind_eq_Inr split: if_splits)
    then show ?thesis using assms(3) g [OF r] sload(1) by (simp add: global_taskI)
  next
    case load
    then obtain i n info where e: "(i, n, info) \<in> set (enumerate 0 (op_namespaces op))"
      "selected rs (ni_region info)" "p = load_task st op (i, n, info)"
      using assms(2,3) by (auto simp: load_do_def)
    moreover from e(1) have "(n, info) \<in> set (op_namespaces op)"
      by (auto simp: enumerate_eq_zip dest: set_zip_rightD)
    ultimately show ?thesis using load(1) by (simp add: load_task_def namespace_taskI)
  next
    case execute
    then obtain n info where "(n, info) \<in> set (op_namespaces op)" "selected rs (ni_region info)"
      "p = execute_task st op (n, info)"
      using assms(2,3) by (auto simp: execute_do_def without_global_def Let_def)
    then show ?thesis using execute(1) by (simp add: execute_task_def namespace_taskI)
  next
    case delete
    then obtain r where r: "global_name op = Inr r" and
      ph: "x = Inline (run_benchmark st ''global'' r (op_settings op @ [''operation=create'']) True (op_dry_run op)) \<and>
          selected rs r \<or>
        x = Submit (length (op_namespaces op)) (concat (map (delete_tasks st op)
          (filter (\<lambda>(n, info). selected rs (ni_region info)) (op_namespaces op))))"
      using assms(2) by (auto simp: delete_do_def rbind_eq_Inr split: if_splits)
    from ph show ?thesis
      using assms(3) g [OF r] delete(1) by (auto simp: delete_tasks_def global_taskI namespace_taskI)
  qed
qed

lemma operation_event:
  assumes "operation_do name st op rs = Inr ph" and "phases_run ph ls x" and "l \<in> set ls"
    and "(i, c, rc) \<in> set l"
  obtains n r where "selected rs r" "(n = ''global'' \<and> global_region (op_config op) = Some r) \<or>
       (\<exists>info. (n, info) \<in> set (op_namespaces op) \<and> ni_region info = r)"
    "(\<exists>rest. c = helm_head st n @ rest) \<or>
     (\<exists>ctx verb. c = kubectl verb n ctx \<and> get_context (contexts st) (yaml st) r = Inr ctx \<and> \<not> op_dry_run op \<and>
       (verb = ''delete'' \<or> verb = ''apply'' \<and> name \<noteq> ''delete''))"
proof -
  from phases_run_event [OF assms(2,3,4)] obtain y p es z where
    p: "y \<in> set ph" "p \<in> set (phase_tasks y)" "runs p es z" "(c, rc) \<in> set es" by blast
  from operation_tasks [OF assms(1) p(1,2)] obtain n r sets where
    t: "p = run_benchmark st n r sets (name = ''delete'') (op_dry_run op)" "selected rs r"
      "(n = ''global'' \<and> global_region (op_config op) = Some r) \<or>
       (\<exists>info. (n, info) \<in> set (op_namespaces op) \<and> ni_region info = r)"
    unfolding benchmark_task_def by blast
  from run_benchmark_event [OF p(3) [unfolded t(1)] p(4)] show ?thesis by (rule that [OF t(2,3)])
qed

section \<open>Settings\<close>

lemma split_join_char:
  "ps \<noteq> [] \<Longrightarrow> \<forall>p \<in> set ps. c \<notin> set p \<Longrightarrow> split [c] (join [c] ps) = ps"
proof (induction ps)
  case (Cons p ps)
  then show ?case
    by (cases ps) (simp_all add: split_char_absent join_Cons split_char_append)
qed simp

lemma cut_char: "c \<notin> set a \<Longrightarrow> c \<notin> set b \<Longrightarrow> cut [c] (a @ c # b) = Inr (a, b)"
  by (simp add: cut_def split_char_append split_char_absent)

lemma split_marker:
  "CHR ''!'' \<notin> set a \<Longrightarrow> split ''=!'' (a @ ''=!'' @ b) = a # split ''=!'' b"
proof (induction a)
  case Nil
  then show ?case using split_sep [of "''=!''" b] by simp
next
  case (Cons x a)
  have "\<not> prefix ''=!'' (x # a @ ''=!'' @ b)"
    using Cons.prems by (cases a) auto
  then have "split ''=!'' (x # a @ ''=!'' @ b) = (x # hd (split ''=!'' (a @ ''=!'' @ b))) # tl (split ''=!'' (a @ ''=!'' @ b))"
    by (intro split_step) simp_all
  with Cons show ?case by simp
qed

lemma no_marker: "CHR ''!'' \<notin> set s \<Longrightarrow> \<not> sublist ''=!'' s"
  by (auto simp: sublist_def)

lemma cut_marker: "CHR ''!'' \<notin> set a \<Longrightarrow> CHR ''!'' \<notin> set b \<Longrightarrow> cut ''=!'' (a @ ''=!'' @ b) = Inr (a, b)"
  by (simp add: cut_def split_marker [simplified] split_absent no_marker)

text \<open>A well-formed piece: nothing in it is taken for a separator.\<close>

definition piece_ok :: "string \<times> string \<Rightarrow> bool" where
  "piece_ok tv \<longleftrightarrow> {CHR ''!'', CHR '';'', CHR '':''} \<inter> (set (fst tv) \<union> set (snd tv)) = {}"

definition piece_text :: "string \<times> string \<Rightarrow> string" where
  "piece_text tv = fst tv @ '':'' @ snd tv"

lemma region_value_ok:
  "piece_ok (t, v) \<Longrightarrow> region_value region key (piece_text (t, v)) =
     Inr (if strip t = region then [''--set'', key @ ''='' @ strip v] else [])"
  using cut_char [of "CHR '':''" t v]
  by (auto simp: region_value_def piece_ok_def piece_text_def str_in_iff_sublist sublist_def)

lemma piece_text_chars:
  "piece_ok tv \<Longrightarrow> CHR '';'' \<notin> set (piece_text tv) \<and> CHR ''!'' \<notin> set (piece_text tv)"
  by (auto simp: piece_ok_def piece_text_def)

lemma expand_set_marker:
  assumes "CHR ''!'' \<notin> set key" and "ps \<noteq> []" and "\<forall>p \<in> set ps. CHR '';'' \<notin> set p \<and> CHR ''!'' \<notin> set p"
  shows "expand_set region (key @ ''=!'' @ join '';'' ps) =
    rbind (rmap (region_value region key) ps) (\<lambda>args. Inr (concat args))"
proof -
  have b: "CHR ''!'' \<notin> set (join '';'' ps)" using assms(3) by (auto dest!: join_chars)
  have "str_in ''=!'' (key @ ''=!'' @ join '';'' ps)" by (auto simp: str_in_iff_sublist sublist_def)
  then show ?thesis
    using cut_marker [OF assms(1) b] split_join_char [of ps "CHR '';''"] assms(2,3)
    by (simp add: expand_set_def)
qed

lemma expand_set_pieces:
  assumes "CHR ''!'' \<notin> set key" and "ps \<noteq> []" and "\<forall>tv \<in> set ps. piece_ok tv"
  shows "expand_set region (key @ ''=!'' @ join '';'' (map piece_text ps)) =
    Inr (concat (map (\<lambda>(t, v). if strip t = region then [''--set'', key @ ''='' @ strip v] else []) ps))"
proof -
  have "rmap (region_value region key) (map piece_text ps) =
      Inr (map (\<lambda>(t, v). if strip t = region then [''--set'', key @ ''='' @ strip v] else []) ps)"
    using assms(3) by (induction ps) (auto simp: region_value_ok)
  then show ?thesis
    using assms piece_text_chars by (subst expand_set_marker) auto
qed

lemma expand_set_plain: "\<not> sublist ''=!'' s \<Longrightarrow> expand_set region s = Inr [''--set'', s]"
  by (simp add: expand_set_def str_in_iff_sublist)

text \<open>The namespaces an operation works on.\<close>

lemma prepare_eq:
  assumes "prepare st sets dry = Inr op"
  obtains nss where "get_main_config (contexts st) (yaml st) = Inr (op_config op)"
    "get_namespaces (op_config op) = Inr nss" "sort_namespaces nss = Inr (op_namespaces op)"
    "op_settings op = sets @ namespace_settings (op_namespaces op)" "op_dry_run op = dry"
  using assms that by (auto simp: prepare_def rbind_eq_Inr)

definition id_of :: "string \<times> namespace_info \<Rightarrow> rat" where
  "id_of x = number_of (ni_id (snd x))"

lemma sort_namespaces_Inr:
  assumes "sort_namespaces nss = Inr sorted_nss"
  shows "mset sorted_nss = mset nss" and "sorted (map id_of sorted_nss)"
    and "filter (\<lambda>x. id_of x = q) sorted_nss = filter (\<lambda>x. id_of x = q) nss"
proof -
  have "(\<lambda>(n, i). number_of (ni_id i)) = id_of" by (simp add: id_of_def fun_eq_iff)
  then have "sorted_nss = sort_key id_of nss"
    using assms by (simp add: sort_namespaces_def split: if_splits)
  then show "mset sorted_nss = mset nss" "sorted (map id_of sorted_nss)"
    "filter (\<lambda>x. id_of x = q) sorted_nss = filter (\<lambda>x. id_of x = q) nss"
    by (simp_all add: sort_key_stable)
qed

text \<open>The complete runs of a benchmark: \<open>D\<close> deletes and \<open>A\<close> applies.\<close>

lemma benchmark_runsE:
  assumes "runs (run_benchmark st n r sets del dry) es x" "get_context (contexts st) (yaml st) r = Inr ctx"
    "helm_template st n r sets dry = Inr helm"
  obtains "es = [(helm, None)]" "x = Some (OSError (program helm))"
  | k where "es = [(helm, Some k)]" "k \<noteq> 0" "x = Some (CalledProcessError helm)"
  | "dry" "es = [(helm, Some 0)]" "x = None"
  | "\<not> dry" "es = [(helm, Some 0), (kubectl ''delete'' n ctx, None)]" "x = Some (OSError (program (kubectl ''delete'' n ctx)))"
  | k where "\<not> dry" "del" "es = [(helm, Some 0), (kubectl ''delete'' n ctx, Some k)]" "x = None"
  | k rc where "\<not> dry" "\<not> del" "es = [(helm, Some 0), (kubectl ''delete'' n ctx, Some k), (kubectl ''apply'' n ctx, rc)]"
      "x = (if rc = Some 0 then None else Some (if rc = None then OSError (program (kubectl ''apply'' n ctx))
         else CalledProcessError (kubectl ''apply'' n ctx)))"
  using assms(1) unfolding run_benchmark_eq [OF assms(3,2)]
proof (cases rule: runs_checkE)
  case (returned es')
  show ?thesis
  proof (cases dry)
    case True
    then show ?thesis using returned that(3) by simp
  next
    case dry: False
    have d: "runs (Exec (kubectl ''delete'' n ctx) False (if del then Ret else Exec (kubectl ''apply'' n ctx) True Ret)) es' x"
      using returned(2) dry by simp
    then show ?thesis
    proof (cases rule: runs_uncheckedE)
      case missing
      then show ?thesis using returned(1) dry that(4) by simp
    next
      case (returned k es'')
      show ?thesis
      proof (cases del)
        case True
        then show ?thesis using returned \<open>es = _\<close> dry that(5) by simp
      next
        case False
        with returned(2) have "runs (Exec (kubectl ''apply'' n ctx) True Ret) es'' x" by simp
        then show ?thesis
          by (cases rule: runs_checkE) (use \<open>es = _\<close> returned(1) dry False that(6) in auto)
      qed
    qed
  qed
qed (use that(1,2) in auto)

lemma helm_head_take: "take 5 (helm_head st n @ rest) = helm_head st n"
  by (simp add: helm_head_def)

section \<open>Properties\<close>

definition sample_site :: site where
  "sample_site = \<lparr>base_path = ''deploy'', yaml = sample_config, contexts = [''neon.us.io'', ''neon.eu.io''], now = ''t''\<rparr>"

definition sample_namespaces :: namespaces where
  "sample_namespaces = [
     (''global'', \<lparr>ni_region = ''us'', ni_id = PInt 0, ni_target = PNone, ni_warmup = PInt 0, ni_instances = PInt 1\<rparr>),
     (''us'', \<lparr>ni_region = ''us'', ni_id = PInt 1, ni_target = PNone, ni_warmup = PInt 0, ni_instances = PInt 1\<rparr>),
     (''eu'', \<lparr>ni_region = ''eu'', ni_id = PInt 2, ni_target = PNone, ni_warmup = PInt 0, ni_instances = PInt 1\<rparr>)]"

definition sample_operation :: "bool \<Rightarrow> operation" where
  "sample_operation dry = \<lparr>op_config = sample_config, op_namespaces = sample_namespaces,
     op_settings = [''a=1''], op_dry_run = dry\<rparr>"

lemma sample_config_found: "\<exists>cfg. get_main_config (contexts sample_site) (yaml sample_site) = Inr cfg"
  by (simp add: sample_site_def get_main_config_def fill_regions_def sample_config_def)

lemma sample_contexts_found:
  "get_context (contexts sample_site) (yaml sample_site) ''us'' = Inr ''neon.us.io''"
  by (simp add: sample_site_def get_context_def get_main_config_def fill_regions_def find_context_def
      sample_config_def str_in_def)

lemma sample_helm:
  "helm_template sample_site ''us'' ''us'' [''a=1''] False = Inr
     [''helm'', ''template'', ''deploy/helm-benchbase'', ''--namespace'', ''us'', ''--set'', ''a=1'']"
  by (simp add: helm_template_def expand_set_def str_in_def sample_site_def)

text \<open>C13 The commands of a benchmark and how each failure ends it. An invalid setting ends it before any command. Otherwise helm runs
  first; then, unless it is a dry run and if the region has a context, the old deployment is deleted, and the new one is applied unless
  it was only asked to delete. A command is reached only when those before it started and, the deletion excepted, returned 0. The
  benchmark ends normally exactly when the context is known, all these commands have run, and the last one too has started and,
  if it is not the deletion, returned 0; otherwise it ends with the error of its last command or of the missing context.\<close>

theorem benchmark_run_sequence:
  assumes "runs (run_benchmark st n r sets del dry) es x"
  shows "case helm_template st n r sets dry of
     Inl e \<Rightarrow> es = [] \<and> x = Some e
   | Inr helm \<Rightarrow>
      (let all = (\<lambda>ctx. helm # (if dry then [] else kubectl ''delete'' n ctx # (if del then [] else [kubectl ''apply'' n ctx])));
           ctx = get_context (contexts st) (yaml st) r;
           good = (\<lambda>(c, rc). rc \<noteq> None \<and> (c = helm \<or> take 2 c = [''kubectl'', ''apply''] \<longrightarrow> rc = Some 0))
       in es \<noteq> [] \<and> (\<forall>e \<in> set (butlast es). good e) \<and>
          prefix (map fst es) (case ctx of Inl e \<Rightarrow> [helm] | Inr c \<Rightarrow> all c) \<and>
          (x = None \<longleftrightarrow> good (last es) \<and> (\<exists>c. ctx = Inr c \<and> map fst es = all c)) \<and>
          (\<forall>e. x = Some e \<longrightarrow> (if good (last es) then ctx = Inl e
             else e = (if snd (last es) = None then OSError (program (fst (last es))) else CalledProcessError (fst (last es))))))"
proof (cases "helm_template st n r sets dry")
  case (Inl e)
  with assms show ?thesis by (simp add: run_benchmark_def)
next
  case (Inr helm)
  have h: "helm \<noteq> kubectl ''delete'' n c" "take 2 helm \<noteq> [''kubectl'', ''apply'']" for c
    using helm_template_head [OF Inr] by (auto simp: helm_head_def kubectl_def)
  have k: "take 2 (kubectl ''delete'' n c) \<noteq> [''kubectl'', ''apply'']" "take 2 (kubectl ''apply'' n c) = [''kubectl'', ''apply'']"
    "kubectl ''delete'' n c \<noteq> helm" for c
    using h(1) [of c] by (auto simp: kubectl_def)
  show ?thesis
  proof (cases "get_context (contexts st) (yaml st) r")
    case ctx: (Inl e)
    from assms obtain rc es' where es: "es = (helm, rc) # es'" "runs (after helm True (Fail e) rc) es' x"
      by (auto simp: run_benchmark_def Inr ctx run_subprocess_def runs_Exec)
    consider "rc = None" | "rc = Some 0" | k where "rc = Some k" "k \<noteq> 0" by (cases rc) auto
    then show ?thesis using es by cases (simp_all add: Inr ctx after_def Let_def)
  next
    case ctx: (Inr c)
    show ?thesis
      unfolding Inr ctx sum.case Let_def
      by (rule benchmark_runsE [OF assms ctx Inr]) (simp_all add: k)
  qed
qed

lemma benchmark_run_sequence_witness:
  "runs (run_benchmark sample_site ''us'' ''us'' [''a=1''] False False)
     [([''helm'', ''template'', ''deploy/helm-benchbase'', ''--namespace'', ''us'', ''--set'', ''a=1''], Some 0),
      (kubectl ''delete'' ''us'' ''neon.us.io'', Some 1), (kubectl ''apply'' ''us'' ''neon.us.io'', Some 0)] None \<and>
   (2::nat) < 3 \<and> Some (1::int) \<noteq> None"
proof -
  let ?h = "[''helm'', ''template'', ''deploy/helm-benchbase'', ''--namespace'', ''us'', ''--set'', ''a=1'']"
  let ?es = "[(?h, Some 0), (kubectl ''delete'' ''us'' ''neon.us.io'', Some 1),
      (kubectl ''apply'' ''us'' ''neon.us.io'', Some 0)]"
  have r: "runs (run_benchmark sample_site ''us'' ''us'' [''a=1''] False False) ?es None"
    unfolding run_benchmark_eq [OF sample_helm sample_contexts_found] by (simp add: runs_Exec after_def)
  from benchmark_run_sequence [OF r] r show ?thesis by simp
qed

text \<open>C12 Whatever operation runs, and however its tasks interleave and fail, every command it issues belongs to
  a region selected on the command line and to a namespace of that region (or the global one), with
  the kube context of that region; nothing but helm is run in a dry run, and \<^verbatim>\<open>delete\<close> never applies.\<close>

theorem operation_scope:
  assumes "operation_do name st op rs = Inr ph" and "phases_run ph ls x" and "l \<in> set ls" and "(i, c, rc) \<in> set l"
  shows "\<exists>n r. (rs = [] \<or> r \<in> set rs) \<and>
    ((n = ''global'' \<and> global_region (op_config op) = Some r) \<or>
     (\<exists>info. (n, info) \<in> set (op_namespaces op) \<and> ni_region info = r)) \<and>
    (take 5 c = [''helm'', ''template'', base_path st @ ''/helm-benchbase'', ''--namespace'', n] \<or>
     (\<exists>ctx verb. c = [''kubectl'', verb, ''--namespace'', n, ''-f'', ''-'', ''--context'', ctx] \<and>
        get_context (contexts st) (yaml st) r = Inr ctx \<and> \<not> op_dry_run op \<and>
        (verb = ''delete'' \<or> verb = ''apply'' \<and> name \<noteq> ''delete'')))"
proof -
  obtain n r where e: "selected rs r"
    "(n = ''global'' \<and> global_region (op_config op) = Some r) \<or>
       (\<exists>info. (n, info) \<in> set (op_namespaces op) \<and> ni_region info = r)"
    "(\<exists>rest. c = helm_head st n @ rest) \<or>
     (\<exists>ctx verb. c = kubectl verb n ctx \<and> get_context (contexts st) (yaml st) r = Inr ctx \<and> \<not> op_dry_run op \<and>
       (verb = ''delete'' \<or> verb = ''apply'' \<and> name \<noteq> ''delete''))"
    by (rule operation_event [OF assms])
  have c: "take 5 c = helm_head st n \<or>
     (\<exists>ctx verb. c = kubectl verb n ctx \<and> get_context (contexts st) (yaml st) r = Inr ctx \<and> \<not> op_dry_run op \<and>
       (verb = ''delete'' \<or> verb = ''apply'' \<and> name \<noteq> ''delete''))"
    using e(3) helm_head_take by metis
  show ?thesis
    by (rule exI [of _ n], rule exI [of _ r], intro conjI)
      (rule e(1) [unfolded selected_def], rule e(2), rule c [unfolded helm_head_def kubectl_def])
qed

lemma operation_scope_witness:
  "\<exists>ph ls x c rc. operation_do ''delete'' sample_site (sample_operation False) [''us''] = Inr ph \<and>
     phases_run ph ls x \<and> ls \<noteq> [] \<and> (0, c, rc) \<in> set (hd ls) \<and> hd c \<in> {''helm'', ''kubectl''}"
proof -
  let ?op = "sample_operation False"
  obtain ph p rest where ph: "operation_do ''delete'' sample_site ?op [''us''] = Inr ph" "ph = Inline p # rest"
    and p: "p = run_benchmark sample_site ''global'' ''us'' ([''a=1''] @ [''operation=create'']) True False"
    by (simp add: operation_do_def delete_do_def global_name_def sample_operation_def sample_config_def selected_def)
  obtain helm ctx where h: "helm_template sample_site ''global'' ''us'' ([''a=1''] @ [''operation=create'']) False = Inr helm"
    "get_context (contexts sample_site) (yaml sample_site) ''us'' = Inr ctx"
    using sample_contexts_found by (simp add: helm_template_def expand_set_def str_in_def)
  have r: "runs p [(helm, None)] (Some (OSError (program helm)))"
    unfolding p run_benchmark_eq [OF h] by (simp add: runs_Exec after_def)
  have run: "phases_run ph [map (Pair 0) [(helm, None)]] (Some (OSError (program helm)))"
    unfolding ph(2) by (rule phases_run_InlineI [OF r]) simp
  from operation_scope [OF ph(1) run, of _ 0 helm None] have "hd helm \<in> {''helm'', ''kubectl''}"
    by (cases helm) auto
  then show ?thesis
    by (intro exI [of _ ph] exI [of _ "[map (Pair 0) [(helm, None)]]"] exI [of _ "Some (OSError (program helm))"]
        exI [of _ helm] exI [of _ None] conjI ph(1) run) simp_all
qed

text \<open>Leaving a thread pool of an operation never hangs: from every state it can reach, some order of its
  steps finishes all tasks, no run is longer than the work handed in, and never more tasks run at
  once than there are workers. So every operation ends.\<close>

theorem operation_terminates:
  assumes "operation_do name st op rs = Inr ph"
  shows "(\<exists>ls x. phases_run ph ls x) \<and>
    (\<forall>w ps. Submit w ps \<in> set ph \<longrightarrow> 0 < w \<longrightarrow>
      (\<forall>s. pool_steps w (submit_all ps) s \<longrightarrow> (\<exists>t. pool_steps w s t \<and> idle t) \<and> running s \<le> w) \<and>
      (\<forall>m s. (pool_step w ^^ m) (submit_all ps) s \<longrightarrow> m \<le> work_left (submit_all ps)))"
  using phases_run_exists pool_terminates running_bound pool_steps_bound by (meson add_leD1)

lemma operation_terminates_witness:
  "\<exists>ph. operation_do ''execute'' sample_site (sample_operation False) [] = Inr ph \<and> (\<exists>ls x. phases_run ph ls x)"
proof -
  obtain ph where "operation_do ''execute'' sample_site (sample_operation False) [] = Inr ph"
    by (simp add: operation_do_def execute_do_def Let_def)
  with operation_terminates [OF this] show ?thesis by blast
qed

text \<open>C14 Loading: one task per selected namespace, in the order of the ids, and every one of them is run to its
  end whatever happens to the others. The exceptions of the tasks are lost: \<open>load_do\<close> ends
  normally even when every one of them failed.\<close>

theorem load_runs_all:
  assumes "load_do st op rs = Inr ph" and "phases_run ph ls x" and "op_namespaces op \<noteq> []"
  shows "x = None \<and> (\<exists>l. ls = [l] \<and>
    (let sel = filter (\<lambda>(i, n, info). selected rs (ni_region info)) (enumerate 0 (op_namespaces op)) in
     (\<forall>(i, e) \<in> set l. i < length sel) \<and>
     (\<forall>i < length sel. \<exists>y. runs (load_task st op (sel ! i)) (own i l) y)))"
proof -
  let ?sel = "filter (\<lambda>(i, n, info). selected rs (ni_region info)) (enumerate 0 (op_namespaces op))"
  have "ph = [Submit (length (op_namespaces op)) (map (load_task st op) ?sel)]"
    using assms(1) by (simp add: load_do_def)
  with assms(2,3) obtain l where l: "ls = [l]" "x = None"
    "pool_run (length (op_namespaces op)) (map (load_task st op) ?sel) l" by auto
  have "\<forall>i < length ?sel. \<exists>y. runs (load_task st op (?sel ! i)) (own i l) y"
    using pool_run_complete [OF l(3)] by simp
  moreover have "\<forall>(i, e) \<in> set l. i < length ?sel" using pool_run_tasks [OF l(3)] by auto
  ultimately show ?thesis using l by (simp add: Let_def)
qed

lemma load_runs_all_witness:
  "\<exists>ph ls. load_do sample_site (sample_operation False) [''eu''] = Inr ph \<and> phases_run ph ls None \<and>
     (\<exists>y. runs (load_task sample_site (sample_operation False) (2, sample_namespaces ! 2)) (own 0 (hd ls)) y)"
proof -
  obtain ph where ph: "load_do sample_site (sample_operation False) [''eu''] = Inr ph"
    by (simp add: load_do_def)
  obtain ls x where r: "phases_run ph ls x" using phases_run_exists by blast
  have n: "op_namespaces (sample_operation False) \<noteq> []"
    by (simp add: sample_operation_def sample_namespaces_def)
  have sel: "filter (\<lambda>(i, n, info). selected [''eu''] (ni_region info))
      (enumerate 0 (op_namespaces (sample_operation False))) = [(2 :: nat, sample_namespaces ! 2)]"
    by (simp add: sample_operation_def sample_namespaces_def selected_def enumerate_eq_zip upt_rec)
  note P = load_runs_all [OF ph r n, unfolded sel Let_def]
  from conjunct2 [OF P] obtain l where l: "ls = [l] \<and> (\<forall>(i, e) \<in> set l. i < length [(2 :: nat, sample_namespaces ! 2)]) \<and>
    (\<forall>i < length [(2 :: nat, sample_namespaces ! 2)].
      \<exists>y. runs (load_task sample_site (sample_operation False) ([(2 :: nat, sample_namespaces ! 2)] ! i)) (own i l) y)" ..
  have "\<exists>y. runs (load_task sample_site (sample_operation False) (2, sample_namespaces ! 2)) (own 0 (hd ls)) y"
    using l [THEN conjunct2, THEN conjunct2, rule_format, of 0] conjunct1 [OF l] by simp
  with ph r conjunct1 [OF P] show ?thesis by (intro exI [of _ ph] exI [of _ ls]) simp
qed

text \<open>\<^verbatim>\<open>execute\<close> sizes its thread pool by the namespaces it selects, so with a region filter that matches
  none of them it runs nothing and raises the error of the pool instead of doing nothing.\<close>

theorem execute_without_namespaces:
  assumes "execute_do st op rs = Inr ph" and "\<forall>(n, info) \<in> set (op_namespaces op). n = ''global'' \<or> \<not> selected rs (ni_region info)"
  shows "phases_run ph ls x \<longleftrightarrow> ls = [] \<and> x = Some (ValueError ''max_workers must be greater than 0'')"
proof -
  have "without_global op rs = []"
    unfolding without_global_def filter_empty_conv using assms(2) by fastforce
  then show ?thesis using assms(1) by (auto simp: execute_do_def no_workers_def)
qed

lemma execute_without_namespaces_witness:
  "\<exists>ph. execute_do sample_site (sample_operation False) [''asia''] = Inr ph \<and>
     phases_run ph [] (Some (ValueError ''max_workers must be greater than 0''))"
proof -
  obtain ph where ph: "execute_do sample_site (sample_operation False) [''asia''] = Inr ph"
    by (simp add: execute_do_def Let_def)
  have "\<forall>(n, info) \<in> set (op_namespaces (sample_operation False)). n = ''global'' \<or> \<not> selected [''asia''] (ni_region info)"
    by (simp add: sample_operation_def sample_namespaces_def selected_def)
  from execute_without_namespaces [OF ph this] ph show ?thesis by blast
qed

text \<open>A setting of the form \<^verbatim>\<open>key=!r1:v1;r2:v2\<close> gives a region exactly the values written for it, in order and
  without the surrounding white space; another setting is passed on as it is.\<close>

theorem per_region_setting:
  assumes "CHR ''!'' \<notin> set key" and "ps \<noteq> []"
    and "\<forall>(t, v) \<in> set ps. {CHR ''!'', CHR '';'', CHR '':''} \<inter> (set t \<union> set v) = {}"
  shows "expand_set region (key @ ''=!'' @ join '';'' (map (\<lambda>(t, v). t @ '':'' @ v) ps)) =
    Inr (concat (map (\<lambda>(t, v). if strip t = region then [''--set'', key @ ''='' @ strip v] else []) ps))"
proof -
  have "map (\<lambda>(t, v). t @ '':'' @ v) ps = map piece_text ps"
    by (simp add: piece_text_def split_beta)
  moreover have "\<forall>tv \<in> set ps. piece_ok tv" using assms(3) by (auto simp: piece_ok_def split_beta)
  ultimately show ?thesis using expand_set_pieces [OF assms(1,2)] by (simp only:)
qed

lemma per_region_setting_witness:
  "expand_set ''eu'' ''w=!us:1; eu : 2'' = Inr [''--set'', ''w=2'']"
proof -
  have e: "is_space (CHR '' '')" "\<not> is_space (CHR ''e'')" "\<not> is_space (CHR ''u'')" "\<not> is_space (CHR ''s'')"
    "\<not> is_space (CHR ''2'')"
    by code_simp+
  have p: "\<forall>(t, v) \<in> set [(''us'', ''1''), ('' eu '', '' 2'')]. {CHR ''!'', CHR '';'', CHR '':''} \<inter> (set t \<union> set v) = {}"
    by simp
  from per_region_setting [of "''w''", OF _ _ p, of "''eu''"] show ?thesis
    by (simp add: strip_def e join_Cons)
qed

text \<open>A piece without a colon is an error wherever it stands, also in the form \<^verbatim>\<open>region2=value2\<close> that the
  comment of the code writes, and so is a value that contains a colon itself.\<close>

theorem per_region_errors:
  assumes "CHR ''!'' \<notin> set key" and "CHR ''!'' \<notin> set p" and "CHR '';'' \<notin> set p"
    and "\<forall>(t, v) \<in> set ps. {CHR ''!'', CHR '';'', CHR '':''} \<inter> (set t \<union> set v) = {}"
    and "count_list p (CHR '':'') \<noteq> 1"
  shows "expand_set region (key @ ''=!'' @ join '';'' (map (\<lambda>(t, v). t @ '':'' @ v) ps @ [p])) =
    Inl (if CHR '':'' \<in> set p then ValueError ''too many values to unpack (expected 2)''
      else ValueError (''Invalid per-region value: '' @ p))"
proof -
  have e: "map (\<lambda>(t, v). t @ '':'' @ v) ps = map piece_text ps" by (simp add: piece_text_def split_beta)
  have ok: "piece_ok tv" if "tv \<in> set ps" for tv
    using assms(4) that by (auto simp: piece_ok_def split_beta)
  have c: "\<forall>q \<in> set (map piece_text ps @ [p]). CHR '';'' \<notin> set q \<and> CHR ''!'' \<notin> set q"
    using ok piece_text_chars assms(2,3) by auto
  have p: "region_value region key p = Inl (if CHR '':'' \<in> set p
      then ValueError ''too many values to unpack (expected 2)'' else ValueError (''Invalid per-region value: '' @ p))"
  proof (cases "CHR '':'' \<in> set p")
    case True
    then have "length (split '':'' p) \<noteq> 2" using assms(5) by (simp add: length_split_char)
    then have "cut '':'' p = Inl (ValueError ''too many values to unpack (expected 2)'')"
      by (auto simp: cut_def split: list.splits)
    moreover have "str_in '':'' p" using True by (auto simp: str_in_iff_sublist sublist_def dest: split_list)
    ultimately show ?thesis using True by (simp add: region_value_def)
  next
    case False
    then have "\<not> str_in '':'' p" by (auto simp: str_in_iff_sublist sublist_def)
    then show ?thesis using False by (simp add: region_value_def invalid_piece_def)
  qed
  have "rmap (region_value region key) (map piece_text ps @ [p]) = Inl (if CHR '':'' \<in> set p
      then ValueError ''too many values to unpack (expected 2)'' else ValueError (''Invalid per-region value: '' @ p))"
    using ok by (induction ps) (auto simp: p region_value_ok)
  then show ?thesis
    unfolding e by (subst expand_set_marker [OF assms(1) _ c]) simp_all
qed

lemma per_region_errors_witness:
  "expand_set ''eu'' ''w=!us:1;eu=2'' = Inl (ValueError ''Invalid per-region value: eu=2'') \<and>
   expand_set ''eu'' ''w=!eu:10.0.0.1:5432'' = Inl (ValueError ''too many values to unpack (expected 2)'')"
  using per_region_errors [of "''w''" "''eu=2''" "[(''us'', ''1'')]" "''eu''"]
    per_region_errors [of "''w''" "''eu:10.0.0.1:5432''" "[]" "''eu''"]
  by (simp add: join_Cons)

text \<open>An operation works on the namespaces of the configuration sorted by id, equal ids in their order, and
  appends to the settings of the command line the list of the namespaces and every attribute of
  each of them, in that order.\<close>

theorem prepare_namespaces:
  assumes "prepare st sets dry = Inr op"
  shows "\<exists>c nss. get_main_config (contexts st) (yaml st) = Inr c \<and> get_namespaces c = Inr nss \<and>
    op_config op = c \<and> op_dry_run op = dry \<and>
    mset (op_namespaces op) = mset nss \<and> sorted (map id_of (op_namespaces op)) \<and>
    (\<forall>q. filter (\<lambda>x. id_of x = q) (op_namespaces op) = filter (\<lambda>x. id_of x = q) nss) \<and>
    op_settings op = sets @ [''ordered_namespaces={'' @ join '','' (map fst (op_namespaces op)) @ ''}''] @
      concat (map (\<lambda>(n, i). map (\<lambda>(k, v). ''namespaces.'' @ n @ ''.'' @ k @ ''='' @ py_str v) (ns_items i))
        (op_namespaces op))"
proof -
  obtain nss where n: "get_main_config (contexts st) (yaml st) = Inr (op_config op)"
    "get_namespaces (op_config op) = Inr nss" "sort_namespaces nss = Inr (op_namespaces op)"
    "op_settings op = sets @ namespace_settings (op_namespaces op)" "op_dry_run op = dry"
    by (rule prepare_eq [OF assms])
  then show ?thesis
    using sort_namespaces_Inr [OF n(3)] by (auto simp: namespace_settings_def split_beta)
qed

lemma prepare_namespaces_witness:
  "\<exists>op. prepare sample_site [''a=1''] False = Inr op \<and> sorted (map id_of (op_namespaces op)) \<and>
     hd (op_settings op) = ''a=1''"
proof -
  obtain op where op: "prepare sample_site [''a=1''] False = Inr op"
    by (simp add: prepare_def sample_site_def get_main_config_def fill_regions_def sample_config_def
        get_namespaces_def regions_of_def region_namespace_def sample_region_def fill_context_def sort_namespaces_def)
  from prepare_namespaces [OF op] op show ?thesis by auto
qed

text \<open>\<^verbatim>\<open>load\<close> numbers a namespace by its position, \<^verbatim>\<open>execute\<close> by its id. With integer ids the two agree for
  every namespace exactly when the ids are 0, 1, 2 and so on without a gap.\<close>

theorem namespace_ids_agree:
  assumes "\<forall>(n, info) \<in> set nss. \<exists>i. ni_id info = PInt i"
  shows "(\<forall>k < length nss. ''namespace_id='' @ show_nat k = ''namespace_id='' @ py_str (ni_id (snd (nss ! k)))) \<longleftrightarrow>
    map (\<lambda>(n, info). ni_id info) nss = map (\<lambda>k. PInt (int k)) [0 ..< length nss]"
proof -
  have "show_nat k = py_str (ni_id (snd (nss ! k))) \<longleftrightarrow> ni_id (snd (nss ! k)) = PInt (int k)" if k: "k < length nss" for k
  proof -
    obtain i where i: "ni_id (snd (nss ! k)) = PInt i" using assms nth_mem [OF k] by (auto simp: split_beta)
    have "show_nat k = show_int (int k)" by (simp add: show_int_def)
    then show ?thesis using i by auto
  qed
  note ids = this
  have "map (\<lambda>(n, info). ni_id info) nss = map (\<lambda>k. PInt (int k)) [0 ..< length nss] \<longleftrightarrow>
      (\<forall>k < length nss. ni_id (snd (nss ! k)) = PInt (int k))"
    by (subst list_eq_iff_nth_eq) (simp add: split_beta)
  also have "\<dots> \<longleftrightarrow> (\<forall>k < length nss. show_nat k = py_str (ni_id (snd (nss ! k))))"
    using ids by (intro all_cong) simp
  finally show ?thesis by (simp only: same_append_eq)
qed

lemma namespace_ids_agree_witness:
  "''namespace_id='' @ show_nat 2 = ''namespace_id='' @ py_str (ni_id (snd (sample_namespaces ! 2)))"
proof -
  have i: "\<forall>(n, info) \<in> set sample_namespaces. \<exists>i. ni_id info = PInt i" by (simp add: sample_namespaces_def)
  have m: "map (\<lambda>(n, info). ni_id info) sample_namespaces = map (\<lambda>k. PInt (int k)) [0 ..< length sample_namespaces]"
    by (simp add: sample_namespaces_def upt_rec)
  have "2 < length sample_namespaces" by (simp add: sample_namespaces_def)
  with namespace_ids_agree [OF i] m show ?thesis by blast
qed

text \<open>Without a global target in the configuration, which is how the repository's \<^verbatim>\<open>main.yaml\<close> comes, \<^verbatim>\<open>sload\<close>
  fails with a \<open>KeyError\<close> before it runs anything, where \<^verbatim>\<open>create\<close> works without a target.\<close>

theorem sload_needs_target:
  assumes "global_region (op_config op) = Some g" and "selected rs g" and "global_target (op_config op) = None"
  shows "operation_do ''sload'' st op rs = Inl (KeyError ''global_region_target_address_and_database'') \<and>
    operation_do ''create'' st op rs = Inr [Inline (run_benchmark st ''global'' g
      (op_settings op @ [''operation=create'']) False (op_dry_run op))]"
  using assms
  by (simp add: operation_do_def sload_do_def create_do_def global_name_def opt_get_def setting_def)

lemma sload_needs_target_witness:
  "operation_do ''sload'' sample_site (sample_operation False) [] = Inl (KeyError ''global_region_target_address_and_database'')"
proof -
  have "global_region (op_config (sample_operation False)) = Some ''us''" "selected [] ''us''"
    "global_target (op_config (sample_operation False)) = None"
    by (simp_all add: sample_operation_def sample_config_def selected_def)
  from sload_needs_target [OF this, of sample_site] show ?thesis by simp
qed

end
