(* ===== verification/Log_Follow.thy ===== *)
theory Log_Follow
  imports Py_Str "HOL-Library.Multiset"
begin

text \<open>
  \<^verbatim>\<open>Kube.print_logs\<close> of \<^verbatim>\<open>tools/utils.py\<close> with \<^verbatim>\<open>follow=True\<close>: one daemon thread per log stream
  reads lines and hands them to the callback; the last thread to finish sets the exit event
  the caller waits for. The threads are a transition system whose steps interleave in any way.
  Printing and its rate limit have no influence on it and are left out; a stream is the list of
  what reading it gives, each item a line or an exception of the connection or the decoding.
\<close>

type_synonym stream = "string res list"

datatype reader = Reading stream | Ended | Crashed exn

text \<open>\<open>seen\<close> records which reader handed which line to the callback.\<close>

record 's follow =
  readers :: "reader list"
  alive :: int
  exit_event :: bool
  result :: 's
  seen :: "(nat \<times> string) list"

text \<open>\<^verbatim>\<open>rstrip("\n")\<close>\<close>

definition rstrip_newlines :: "string \<Rightarrow> string" where
  "rstrip_newlines s = rev (dropWhile (\<lambda>c. c = CHR 10) (rev s))"

definition print_logs :: "stream list \<Rightarrow> 's \<Rightarrow> 's follow" where
  "print_logs streams s = \<lparr>readers = map Reading streams, alive = int (length streams),
     exit_event = False, result = s, seen = []\<rparr>"

inductive log_step :: "(nat \<Rightarrow> string \<Rightarrow> 's \<Rightarrow> 's res) \<Rightarrow> 's follow \<Rightarrow> 's follow \<Rightarrow> bool" for callback where
  read_line: "i < length (readers f) \<Longrightarrow> readers f ! i = Reading (Inr l # rest) \<Longrightarrow>
    callback i (rstrip_newlines l) (result f) = Inr s \<Longrightarrow>
    log_step callback f (f\<lparr>readers := (readers f)[i := Reading rest], result := s,
      seen := seen f @ [(i, rstrip_newlines l)]\<rparr>)"
| callback_error: "i < length (readers f) \<Longrightarrow> readers f ! i = Reading (Inr l # rest) \<Longrightarrow>
    callback i (rstrip_newlines l) (result f) = Inl e \<Longrightarrow>
    log_step callback f (f\<lparr>readers := (readers f)[i := Crashed e]\<rparr>)"
| stream_error: "i < length (readers f) \<Longrightarrow> readers f ! i = Reading (Inl e # rest) \<Longrightarrow>
    log_step callback f (f\<lparr>readers := (readers f)[i := Crashed e]\<rparr>)"
| stream_end: "i < length (readers f) \<Longrightarrow> readers f ! i = Reading [] \<Longrightarrow>
    log_step callback f (f\<lparr>readers := (readers f)[i := Ended], alive := alive f - 1,
      exit_event := exit_event f \<or> alive f - 1 = 0\<rparr>)"

inductive_cases log_stepE: "log_step callback f g"

abbreviation log_steps :: "(nat \<Rightarrow> string \<Rightarrow> 's \<Rightarrow> 's res) \<Rightarrow> 's follow \<Rightarrow> 's follow \<Rightarrow> bool" where
  "log_steps callback \<equiv> (log_step callback)\<^sup>*\<^sup>*"

section \<open>The exit event\<close>

definition open_readers :: "'s follow \<Rightarrow> nat" where
  "open_readers f = length (filter (\<lambda>r. r \<noteq> Ended) (readers f))"

definition counted :: "nat \<Rightarrow> 's follow \<Rightarrow> bool" where
  "counted n f \<longleftrightarrow> length (readers f) = n \<and> alive f = int (open_readers f) \<and>
     exit_event f = (n \<noteq> 0 \<and> open_readers f = 0)"

lemma open_update:
  "i < length (readers f) \<Longrightarrow> readers f ! i \<noteq> Ended \<Longrightarrow>
   Suc (length (filter (\<lambda>r. r \<noteq> Ended) ((readers f)[i := y]))) =
     open_readers f + (if y \<noteq> Ended then 1 else 0)"
  using filter_update_length [of i "readers f" "\<lambda>r. r \<noteq> Ended" y] by (simp add: open_readers_def)

lemma counted_start: "counted (length streams) (print_logs streams s)"
  by (auto simp: counted_def print_logs_def open_readers_def filter_empty_conv)

lemma counted_step:
  assumes "log_step callback f g" and "counted n f"
  shows "counted n g"
  using assms(1)
proof cases
  case (read_line i l rest s)
  then show ?thesis
    using assms(2) open_update [of i f "Reading rest"] by (simp add: counted_def open_readers_def)
next
  case (callback_error i l rest e)
  then show ?thesis
    using assms(2) open_update [of i f "Crashed e"] by (simp add: counted_def open_readers_def)
next
  case (stream_error i e rest)
  then show ?thesis
    using assms(2) open_update [of i f "Crashed e"] by (simp add: counted_def open_readers_def)
next
  case (stream_end i)
  then have "Suc (open_readers g) = open_readers f"
    using open_update [of i f Ended] by (simp add: open_readers_def)
  with stream_end assms(2) show ?thesis by (auto simp: counted_def)
qed

lemma counted_reachable: "log_steps callback (print_logs streams s) f \<Longrightarrow> counted (length streams) f"
  by (induction rule: rtranclp_induct) (auto intro: counted_start counted_step)

lemma open_readers_0: "open_readers f = 0 \<longleftrightarrow> (\<forall>r \<in> set (readers f). r = Ended)"
  by (auto simp: open_readers_def filter_empty_conv)

text \<open>The event is set exactly when there was a stream and every reader came to the end of its own.\<close>

lemma exit_event_iff:
  "log_steps callback (print_logs streams s) f \<Longrightarrow>
   exit_event f \<longleftrightarrow> streams \<noteq> [] \<and> (\<forall>r \<in> set (readers f). r = Ended)"
  using counted_reachable [of callback streams s f] by (simp add: counted_def open_readers_0)

section \<open>What the callback gets\<close>

definition lines_of :: "nat \<Rightarrow> (nat \<times> string) list \<Rightarrow> string list" where
  "lines_of i l = map snd (filter (\<lambda>x. fst x = i) l)"

lemma lines_of_simps [simp]:
  "lines_of i [] = []"
  "lines_of i (l @ [(j, x)]) = (if j = i then lines_of i l @ [x] else lines_of i l)"
  by (simp_all add: lines_of_def)

fun rest_of :: "reader \<Rightarrow> stream option" where
  "rest_of (Reading s) = Some s"
| "rest_of Ended = Some []"
| "rest_of (Crashed e) = None"

text \<open>
  The result is the fold of the callback over the lines in the order they were seen, and what a
  reader has handed over and what it still has to read make up its stream.
\<close>

definition read_ok :: "stream \<Rightarrow> string list \<Rightarrow> reader \<Rightarrow> bool" where
  "read_ok strm ls r \<longleftrightarrow> (\<forall>rest. rest_of r = Some rest \<longrightarrow>
     (\<exists>raw. strm = map Inr raw @ rest \<and> ls = map rstrip_newlines raw))"

definition faithful :: "(nat \<Rightarrow> string \<Rightarrow> 's \<Rightarrow> 's res) \<Rightarrow> stream list \<Rightarrow> 's \<Rightarrow> 's follow \<Rightarrow> bool" where
  "faithful callback streams s f \<longleftrightarrow> length (readers f) = length streams \<and>
     rfold (\<lambda>(i, l). callback i l) (seen f) s = Inr (result f) \<and>
     (\<forall>i < length streams. read_ok (streams ! i) (lines_of i (seen f)) (readers f ! i))"

lemma faithful_start: "faithful callback streams s (print_logs streams s)"
  by (simp add: faithful_def print_logs_def read_ok_def)

lemma read_ok_line:
  "read_ok strm ls (Reading (Inr l # rest)) \<Longrightarrow> read_ok strm (ls @ [rstrip_newlines l]) (Reading rest)"
proof -
  assume "read_ok strm ls (Reading (Inr l # rest))"
  then obtain raw where "strm = map Inr raw @ Inr l # rest" "ls = map rstrip_newlines raw"
    by (auto simp: read_ok_def)
  then show ?thesis unfolding read_ok_def by (auto intro!: exI [of _ "raw @ [l]"])
qed

lemma faithful_step:
  assumes "log_step callback f g" and f: "faithful callback streams s f"
  shows "faithful callback streams s g"
proof -
  have len: "length (readers f) = length streams"
    and ok: "\<And>i. i < length streams \<Longrightarrow> read_ok (streams ! i) (lines_of i (seen f)) (readers f ! i)"
    using f by (auto simp: faithful_def)
  from assms(1) show ?thesis
  proof cases
    case (read_line i l rest s')
    have "read_ok (streams ! i) (lines_of i (seen f) @ [rstrip_newlines l]) (Reading rest)"
      using ok [of i] read_line len by (intro read_ok_line) simp
    then show ?thesis
      using f read_line by (auto simp: faithful_def rfold_append nth_list_update)
  next
    case (callback_error i l rest e)
    then show ?thesis using f by (auto simp: faithful_def nth_list_update read_ok_def)
  next
    case (stream_error i e rest)
    then show ?thesis using f by (auto simp: faithful_def nth_list_update read_ok_def)
  next
    case (stream_end i)
    then have "read_ok (streams ! i) (lines_of i (seen f)) Ended"
      using ok [of i] len by (simp add: read_ok_def)
    then show ?thesis using f stream_end by (auto simp: faithful_def nth_list_update)
  qed
qed

lemma faithful_reachable:
  "log_steps callback (print_logs streams s) f \<Longrightarrow> faithful callback streams s f"
  by (induction rule: rtranclp_induct) (auto intro: faithful_start faithful_step)

lemma seen_streams:
  "log_steps callback (print_logs streams s) f \<Longrightarrow>
   length (readers f) = length streams \<and> fst ` set (seen f) \<subseteq> {..< length streams}"
proof (induction rule: rtranclp_induct)
  case (step f g)
  from step(2) step.IH show ?case by cases auto
qed (simp add: print_logs_def)

text \<open>The lines seen are, as a multiset, the lines of the readers together.\<close>

lemma lines_of_Cons: "lines_of i ((j, x) # l) = (if j = i then x # lines_of i l else lines_of i l)"
  by (simp add: lines_of_def)

lemma seen_lines:
  "fst ` set l \<subseteq> {..< n} \<Longrightarrow> image_mset snd (mset l) = (\<Sum>i < n. mset (lines_of i l))"
proof (induction l)
  case (Cons x l)
  obtain j y where x: "x = (j, y)" by fastforce
  with Cons have j: "j < n" and IH: "image_mset snd (mset l) = (\<Sum>i < n. mset (lines_of i l))" by auto
  have "(\<Sum>i < n. mset (lines_of i (x # l))) = (\<Sum>i < n. mset (lines_of i l) + (if i = j then {#y#} else {#}))"
    by (intro sum.cong) (auto simp: x lines_of_Cons)
  also have "\<dots> = (\<Sum>i < n. mset (lines_of i l)) + {#y#}" using j by (simp add: sum.distrib)
  finally show ?case by (simp add: x IH)
qed (simp add: lines_of_def)

lemma exit_event_lines:
  assumes "log_steps callback (print_logs streams s) f" and "exit_event f" and "i < length streams"
  shows "\<exists>raw. streams ! i = map Inr raw \<and> lines_of i (seen f) = map rstrip_newlines raw"
proof -
  have "read_ok (streams ! i) (lines_of i (seen f)) (readers f ! i)" and "length (readers f) = length streams"
    using faithful_reachable [OF assms(1)] assms(3) by (auto simp: faithful_def)
  moreover have "readers f ! i = Ended"
    using assms exit_event_iff [OF assms(1)] \<open>length (readers f) = length streams\<close> by simp
  ultimately show ?thesis by (simp add: read_ok_def)
qed

section \<open>Progress\<close>

fun pending :: "reader \<Rightarrow> nat" where
  "pending (Reading s) = Suc (length s)"
| "pending _ = 0"

definition pending_all :: "'s follow \<Rightarrow> nat" where
  "pending_all f = sum_list (map pending (readers f))"

lemma log_step_decreases: "log_step callback f g \<Longrightarrow> pending_all g < pending_all f"
  by (erule log_stepE) (auto simp: pending_all_def intro!: sum_update_less)

definition stuck :: "'s follow \<Rightarrow> bool" where
  "stuck f \<longleftrightarrow> (\<forall>r \<in> set (readers f). \<forall>s. r \<noteq> Reading s)"

lemma log_progress: "\<not> stuck f \<Longrightarrow> \<exists>g. log_step callback f g"
proof -
  assume "\<not> stuck f"
  then obtain i s where i: "i < length (readers f)" "readers f ! i = Reading s"
    unfolding stuck_def by (metis in_set_conv_nth)
  show ?thesis
  proof (cases s)
    case Nil
    then show ?thesis using i log_step.stream_end [of i f] by blast
  next
    case (Cons x rest)
    show ?thesis
    proof (cases x)
      case (Inl e)
      then show ?thesis using i Cons log_step.stream_error [of i f e rest] by blast
    next
      case (Inr l)
      show ?thesis
      proof (cases "callback i (rstrip_newlines l) (result f)")
        case (Inl e)
        then show ?thesis
          using i Cons \<open>x = Inr l\<close> log_step.callback_error [of i f l rest callback e] by blast
      next
        case Inr': (Inr s')
        then show ?thesis
          using i Cons \<open>x = Inr l\<close> log_step.read_line [of i f l rest callback s'] by blast
      qed
    qed
  qed
qed

interpretation lf: shrinking "log_step callback" pending_all for callback
  by unfold_locales (rule log_step_decreases)

lemma log_terminates: "\<exists>g. log_steps callback f g \<and> stuck g"
  by (rule lf.reaches) (rule log_progress)

text \<open>Readers do not crash when no stream and no callback fails.\<close>

definition clean :: "stream \<Rightarrow> bool" where
  "clean strm \<longleftrightarrow> (\<forall>x \<in> set strm. \<not> isl x)"

fun clean_reader :: "reader \<Rightarrow> bool" where
  "clean_reader (Reading strm) = clean strm"
| "clean_reader Ended = True"
| "clean_reader (Crashed e) = False"

lemma clean_step:
  assumes "log_step callback f g" and "\<And>i l s. \<not> isl (callback i l s)"
    and "\<forall>r \<in> set (readers f). clean_reader r"
  shows "\<forall>r \<in> set (readers g). clean_reader r"
proof -
  have c: "clean_reader (readers f ! i)" if "i < length (readers f)" for i using assms(3) that by simp
  have upd: "clean_reader y \<Longrightarrow> \<forall>r \<in> set ((readers f)[i := y]). clean_reader r" for i y
    using assms(3) by (auto dest!: set_update_subset_insert [THEN subsetD])
  from assms(1) show ?thesis
  proof cases
    case (read_line i l rest s)
    with c [of i] have "clean_reader (Reading rest)" by (simp add: clean_def)
    then show ?thesis using read_line(1) upd [of "Reading rest" i] by simp
  next
    case (callback_error i l rest e)
    with assms(2) [of i "rstrip_newlines l" "result f"] show ?thesis by simp
  next
    case (stream_error i e rest)
    with c [of i] show ?thesis by (simp add: clean_def)
  next
    case (stream_end i)
    then show ?thesis using upd [of Ended i] by simp
  qed
qed

lemma clean_reachable:
  assumes "\<And>i l s. \<not> isl (callback i l s)" and "\<forall>strm \<in> set streams. clean strm"
  shows "log_steps callback (print_logs streams s) f \<Longrightarrow> \<forall>r \<in> set (readers f). clean_reader r"
proof (induction rule: rtranclp_induct)
  case base
  show ?case using assms(2) by (simp add: print_logs_def)
next
  case (step f g)
  then show ?case using clean_step [of callback f g] assms(1) by blast
qed

lemma clean_stuck_ended: "stuck f \<Longrightarrow> \<forall>r \<in> set (readers f). clean_reader r \<Longrightarrow> \<forall>r \<in> set (readers f). r = Ended"
  unfolding stuck_def by (metis clean_reader.elims(2))

section \<open>Properties\<close>

definition sample_streams :: "stream list" where
  "sample_streams = [[Inr ''a'', Inr ''b''], [Inr ''c'']]"

definition collect :: "nat \<Rightarrow> string \<Rightarrow> string list \<Rightarrow> string list res" where
  "collect i l s = Inr (s @ [l])"

text \<open>C15 The exit event of \<open>print_logs\<close> means that everything was read: it is set exactly when there is a
  stream and every reader reached the end of its own, so one failing stream or callback keeps it
  unset for ever. The result is then that of the callback on all lines of all streams, without their
  line ends, in an order that keeps the order of every stream.\<close>

theorem exit_event_meaning:
  assumes "log_steps callback (print_logs streams s) f"
  shows "(exit_event f \<longleftrightarrow> streams \<noteq> [] \<and> (\<forall>r \<in> set (readers f). r = Ended)) \<and>
    rfold (\<lambda>(i, l). callback i l) (seen f) s = Inr (result f) \<and>
    (exit_event f \<longrightarrow> (\<forall>i < length streams. \<exists>raw. streams ! i = map Inr raw \<and>
      map snd (filter (\<lambda>x. fst x = i) (seen f)) = map rstrip_newlines raw))"
proof -
  note f = faithful_reachable [OF assms]
  show ?thesis
    using f exit_event_iff [OF assms] exit_event_lines [OF assms] by (simp add: faithful_def lines_of_def)
qed

lemma exit_event_meaning_witness:
  "\<exists>f. log_steps collect (print_logs sample_streams []) f \<and> \<not> exit_event f \<and>
     rfold (\<lambda>(i, l). collect i l) (seen f) [] = Inr (result f)"
proof -
  have "log_steps collect (print_logs sample_streams []) (print_logs sample_streams [])" by simp
  from exit_event_meaning [OF this] show ?thesis
    by (intro exI [of _ "print_logs sample_streams []"]) (simp add: print_logs_def)
qed

text \<open>Following logs never runs for ever, and when no stream fails and the callback raises nothing, every run
  that cannot go on has set the event. The exception is the empty list of streams: it has no
  step at all and its event is never set, so the caller that waits for it hangs.\<close>

theorem follow_ends:
  assumes "\<And>i l s. \<not> isl (callback i l s)" and "\<forall>strm \<in> set streams. \<forall>x \<in> set strm. \<not> isl x"
    and "log_steps callback (print_logs streams s) f"
  shows "(\<exists>g. log_steps callback f g \<and> stuck g) \<and>
    (\<forall>g. log_step callback f g \<longrightarrow> pending_all g < pending_all f) \<and>
    ((\<forall>g. \<not> log_step callback f g) \<longrightarrow> exit_event f = (streams \<noteq> [])) \<and>
    (streams = [] \<longrightarrow> f = print_logs [] s)"
proof -
  have c: "\<forall>r \<in> set (readers f). clean_reader r"
    by (rule clean_reachable [OF assms(1) _ assms(3)]) (use assms(2) in \<open>simp add: clean_def\<close>)
  have e: "exit_event f = (streams \<noteq> [])" if "\<forall>g. \<not> log_step callback f g"
  proof -
    have "stuck f" using that log_progress by blast
    from clean_stuck_ended [OF this c] exit_event_iff [OF assms(3)] show ?thesis by blast
  qed
  have "f = print_logs [] s" if "streams = []"
    using assms(3) unfolding that
  proof (induction rule: rtranclp_induct)
    case (step f g)
    from step(2) show ?case by cases (simp_all add: step.IH print_logs_def)
  qed simp
  then show ?thesis using log_terminates log_step_decreases e by blast
qed

lemma follow_ends_witness:
  "(\<exists>g. log_steps collect (print_logs sample_streams []) g \<and> stuck g) \<and>
   \<not> exit_event (print_logs [] [] :: string list follow)"
proof -
  have c: "\<And>i l s. \<not> isl (collect i l s)" by (simp add: collect_def)
  have s: "\<forall>strm \<in> set sample_streams. \<forall>x \<in> set strm. \<not> isl x" by (simp add: sample_streams_def)
  from follow_ends [OF c s rtranclp.rtrancl_refl] show ?thesis by (simp add: print_logs_def)
qed

end
