(* ===== verification/Bench_Logs.thy ===== *)
theory Bench_Logs
  imports Py_Value Log_Follow
begin

text \<open>
  The logs of the benchmark jobs (\<^verbatim>\<open>tools/benchmark.py\<close>): finding the pod of a job and opening
  its log (\<^verbatim>\<open>get_job_logs\<close>), recognising the line with the result, and adding up throughput and
  goodput over all logs (\<^verbatim>\<open>Execute.log\<close>). The answers of the API server are a function of the
  number of the request.
\<close>

section \<open>get_job_logs\<close>

text \<open>
  The first loop asks until there is a pod. An API error is logged with the message of its JSON
  body (\<open>message\<close>, which may itself fail) and the question is repeated; another exception
  propagates. The loop need not end, so its result is an option. The second component counts
  the requests.
\<close>

partial_function (option) wait_pods ::
    "(string \<Rightarrow> string res) \<Rightarrow> (nat \<Rightarrow> string list res) \<Rightarrow> nat \<Rightarrow> (string list res \<times> nat) option" where
  "wait_pods message ask k = (case ask k of
     Inr ps \<Rightarrow> if ps = [] then wait_pods message ask (Suc k) else Some (Inr ps, Suc k)
   | Inl (ApiException code body) \<Rightarrow> (case message body of
         Inr m \<Rightarrow> wait_pods message ask (Suc k)
       | Inl e \<Rightarrow> Some (Inl e, Suc k))
   | Inl e \<Rightarrow> Some (Inl e, Suc k))"

text \<open>The second loop tries at most ten times.\<close>

fun open_log :: "(string \<Rightarrow> string res) \<Rightarrow> (nat \<Rightarrow> 'l res) \<Rightarrow> exn \<Rightarrow> nat \<Rightarrow> nat \<Rightarrow> 'l res" where
  "open_log message ask give_up 0 k = Inl give_up"
| "open_log message ask give_up (Suc attempt) k = (case ask k of
     Inr l \<Rightarrow> Inr l
   | Inl (ApiException code body) \<Rightarrow> (case message body of
         Inr m \<Rightarrow> open_log message ask give_up attempt (Suc k)
       | Inl e \<Rightarrow> Inl e)
   | Inl e \<Rightarrow> Inl e)"

text \<open>
  What the function asks: the configuration of the region, the labels of the job (empty when the
  job has no selector, which the code asserts), its pods and the log of a pod.
\<close>

record 'l job_api =
  region_config :: "unit res"
  job_labels :: "(string, string) dict res"
  pods_reply :: "(string, string) dict \<Rightarrow> nat \<Rightarrow> string list res"
  log_reply :: "string \<Rightarrow> nat \<Rightarrow> 'l res"
  body_message :: "string \<Rightarrow> string res"

definition no_pods :: "string \<Rightarrow> string \<Rightarrow> exn" where
  "no_pods job ns = PlainException (''No pods found for job '' @ [CHR 34] @ job @ [CHR 34] @ '' in namespace '' @
     [CHR 34] @ ns @ [CHR 34])"

definition no_log :: "string \<Rightarrow> string \<Rightarrow> exn" where
  "no_log job ns = PlainException (''Could not get logs for job '' @ [CHR 34] @ job @ [CHR 34] @ '' in namespace '' @
     [CHR 34] @ ns @ [CHR 34])"

definition dry_log :: "string \<Rightarrow> string \<Rightarrow> string" where
  "dry_log job region = ''[dry-run] logs for '' @ [CHR 34] @ job @ [CHR 34] @ '' in region '' @
     [CHR 34] @ region @ [CHR 34]"

definition get_job_logs :: "'l job_api \<Rightarrow> (string \<Rightarrow> 'l) \<Rightarrow> string \<Rightarrow> string \<Rightarrow> string \<Rightarrow> bool \<Rightarrow> 'l res option" where
  "get_job_logs api line ns region job dry_run =
     (if dry_run then Some (Inr (line (dry_log job region)))
      else case region_config api of
        Inl e \<Rightarrow> Some (Inl e)
      | Inr _ \<Rightarrow> (case job_labels api of
          Inl e \<Rightarrow> Some (Inl e)
        | Inr labels \<Rightarrow>
            if labels = [] then Some (Inl AssertionError)
            else case wait_pods (body_message api) (pods_reply api labels) 0 of
              None \<Rightarrow> None
            | Some (Inl e, k) \<Rightarrow> Some (Inl e)
            | Some (Inr [], k) \<Rightarrow> Some (Inl (no_pods job ns))
            | Some (Inr (p # ps), k) \<Rightarrow>
                Some (open_log (body_message api) (log_reply api p) (no_log job ns) 10 0)))"

section \<open>The line with the result\<close>

text \<open>The fixed texts of the pattern, around the two numbers and the part \<^verbatim>\<open>.+\<close>.\<close>

definition HEAD :: string where "HEAD = ''Rate limited reqs/s: Results(''"
definition EQ :: string where "EQ = '') = ''"
definition THROUGHPUT :: string where "THROUGHPUT = '' requests/sec (throughput), ''"
definition GOODPUT :: string where "GOODPUT = '' requests/sec (goodput)''"

definition literal :: "string \<Rightarrow> string \<Rightarrow> string option" where
  "literal l s = (if take (length l) s = l then Some (drop (length l) s) else None)"

text \<open>
  \<^verbatim>\<open>(\d+\.\d+|\d+)\<close>. The number is followed by a space, so only the longest match can succeed and
  backtracking into a shorter one is never needed.
\<close>

definition take_number :: "string \<Rightarrow> (string \<times> string) option" where
  "take_number s = (let ds = takeWhile is_digit s; r = dropWhile is_digit s in
     if ds = [] then None
     else case r of
       c # r' \<Rightarrow> if c = CHR ''.'' \<and> takeWhile is_digit r' \<noteq> []
         then Some (ds @ CHR ''.'' # takeWhile is_digit r', dropWhile is_digit r')
         else Some (ds, r)
     | [] \<Rightarrow> Some (ds, r))"

definition tail_match :: "string \<Rightarrow> (string \<times> string) option" where
  "tail_match s =
     Option.bind (literal EQ s) (\<lambda>s. Option.bind (take_number s) (\<lambda>(a, s).
     Option.bind (literal THROUGHPUT s) (\<lambda>s. Option.bind (take_number s) (\<lambda>(b, s).
     Option.bind (literal GOODPUT s) (\<lambda>_. Some (a, b))))))"

text \<open>\<^verbatim>\<open>.+\<close> is greedy: the last place where the rest matches, before any line break.\<close>

fun last_match :: "string \<Rightarrow> (string \<times> string) option" where
  "last_match [] = tail_match []"
| "last_match (c # s) = (if c = CHR 10 then tail_match (c # s)
     else case last_match s of Some x \<Rightarrow> Some x | None \<Rightarrow> tail_match (c # s))"

definition match_at :: "string \<Rightarrow> (string \<times> string) option" where
  "match_at s = (case literal HEAD s of
     None \<Rightarrow> None
   | Some [] \<Rightarrow> None
   | Some (c # r) \<Rightarrow> if c = CHR 10 then None else last_match r)"

fun pattern_search :: "string \<Rightarrow> (string \<times> string) option" where
  "pattern_search [] = match_at []"
| "pattern_search (c # s) = (case match_at (c # s) of Some x \<Rightarrow> Some x | None \<Rightarrow> pattern_search s)"

section \<open>Execute.log\<close>

text \<open>\<^verbatim>\<open>float(s)\<close> on a decimal number is the double nearest to it.\<close>

definition decimal :: "string \<Rightarrow> rat" where
  "decimal s = (case split ''.'' s of
     [a] \<Rightarrow> of_nat (digits_val a)
   | a # b # _ \<Rightarrow> of_nat (digits_val (a @ b)) / 10 ^ length b
   | [] \<Rightarrow> 0)"

text \<open>A double that is not negative: from \<open>2 ^ 1024\<close> on, after rounding, it is infinite.\<close>

datatype double = Finite rat | Infinity

definition to_double :: "rat \<Rightarrow> double" where
  "to_double q = (if 2 ^ 1024 \<le> round_double q then Infinity else Finite (round_double q))"

fun add_double :: "double \<Rightarrow> double \<Rightarrow> double" where
  "add_double (Finite x) (Finite y) = to_double (x + y)"
| "add_double _ _ = Infinity"

definition float_of :: "string \<Rightarrow> double" where
  "float_of s = to_double (decimal s)"

record totals =
  throughput :: double
  goodput :: double
  matched_logs :: "string list"

definition no_totals :: totals where
  "no_totals = \<lparr>throughput = Finite 0, goodput = Finite 0, matched_logs = []\<rparr>"

definition parse_and_add :: "(nat \<Rightarrow> string) \<Rightarrow> nat \<Rightarrow> string \<Rightarrow> totals \<Rightarrow> totals res" where
  "parse_and_add name i line t = Inr (case pattern_search line of
     None \<Rightarrow> t
   | Some (a, b) \<Rightarrow> \<lparr>throughput = add_double (throughput t) (float_of a),
       goodput = add_double (goodput t) (float_of b),
       matched_logs = matched_logs t @ [''['' @ name i @ ''] '' @ line]\<rparr>)"

text \<open>The runner only writes the values down, where an infinite one is the text \<^verbatim>\<open>inf\<close>.\<close>

fun double_value :: "double \<Rightarrow> pval" where
  "double_value (Finite q) = PFloat q"
| "double_value Infinity = PStr ''inf''"

definition execute_result :: "totals \<Rightarrow> (string, pval) dict" where
  "execute_result t = [(''throughput'', double_value (throughput t)), (''goodput'', double_value (goodput t))]"

section \<open>The loops of get_job_logs\<close>

text \<open>A reply the loops only log: an API error with a readable body. The first loop also asks again without pods.\<close>

definition retried :: "(string \<Rightarrow> string res) \<Rightarrow> 'l res \<Rightarrow> bool" where
  "retried message r = (case r of
     Inl (ApiException code body) \<Rightarrow> \<not> isl (message body)
   | _ \<Rightarrow> False)"

definition asks_again :: "(string \<Rightarrow> string res) \<Rightarrow> string list res \<Rightarrow> bool" where
  "asks_again message r \<longleftrightarrow> r = Inr [] \<or> retried message r"

text \<open>What a loop returns on a reply that ends it.\<close>

definition final_reply :: "(string \<Rightarrow> string res) \<Rightarrow> 'l res \<Rightarrow> 'l res" where
  "final_reply message r = (case r of
     Inl (ApiException code body) \<Rightarrow> (case message body of Inl e \<Rightarrow> Inl e | Inr m \<Rightarrow> r)
   | x \<Rightarrow> r)"

lemma wait_pods_again: "asks_again message (ask k) \<Longrightarrow> wait_pods message ask k = wait_pods message ask (Suc k)"
  by (subst wait_pods.simps) (auto simp: asks_again_def retried_def split: sum.splits exn.splits)

lemma wait_pods_final:
  "\<not> asks_again message (ask k) \<Longrightarrow> wait_pods message ask k = Some (final_reply message (ask k), Suc k)"
  by (subst wait_pods.simps) (auto simp: asks_again_def retried_def final_reply_def split: sum.splits exn.splits)

lemma wait_pods_first:
  "k \<le> n \<Longrightarrow> \<forall>j. k \<le> j \<longrightarrow> j < n \<longrightarrow> asks_again message (ask j) \<Longrightarrow> \<not> asks_again message (ask n) \<Longrightarrow>
   wait_pods message ask k = Some (final_reply message (ask n), Suc n)"
proof (induction "n - k" arbitrary: k)
  case 0
  then show ?case by (simp add: wait_pods_final)
next
  case (Suc m)
  then have "wait_pods message ask (Suc k) = Some (final_reply message (ask n), Suc n)" by simp
  moreover have "asks_again message (ask k)" using Suc by simp
  ultimately show ?case by (simp add: wait_pods_again)
qed

lemma wait_pods_Some:
  assumes "wait_pods message ask k = Some r"
  shows "\<exists>n \<ge> k. \<not> asks_again message (ask n)"
proof (rule wait_pods.raw_induct [where P = "\<lambda>m ask k r. \<exists>n \<ge> k. \<not> asks_again m (ask n)", OF _ assms])
  fix wp m ask k r
  assume IH: "\<And>m' ask' k' r'. wp m' ask' k' = Some r' \<Longrightarrow> \<exists>n \<ge> k'. \<not> asks_again m' (ask' n)"
    and step: "(case ask k of
      Inl (ApiException code body) \<Rightarrow> (case m body of Inl e \<Rightarrow> Some (Inl e, Suc k) | Inr x \<Rightarrow> wp m ask (Suc k))
      | Inl e \<Rightarrow> Some (Inl e, Suc k)
      | Inr ps \<Rightarrow> if ps = [] then wp m ask (Suc k) else Some (Inr ps, Suc k)) = Some r"
  show "\<exists>n \<ge> k. \<not> asks_again m (ask n)"
  proof (cases "asks_again m (ask k)")
    case True
    with step have "wp m ask (Suc k) = Some r"
      by (auto simp: asks_again_def retried_def split: sum.splits exn.splits if_splits)
    from IH [OF this] show ?thesis by (meson Suc_leD)
  next
    case False
    then show ?thesis by blast
  qed
qed

lemma wait_pods_never: "\<forall>j \<ge> k. asks_again message (ask j) \<Longrightarrow> wait_pods message ask k = None"
  using wait_pods_Some [of message ask k] by (cases "wait_pods message ask k") auto

lemma wait_pods_result:
  assumes "wait_pods message ask k = Some (r, m)"
  shows "r \<noteq> Inr []"
proof -
  from wait_pods_Some [OF assms] obtain n0 where n0: "k \<le> n0" "\<not> asks_again message (ask n0)" by blast
  define n where "n = (LEAST n. k \<le> n \<and> \<not> asks_again message (ask n))"
  have n: "k \<le> n \<and> \<not> asks_again message (ask n)" unfolding n_def by (rule LeastI [of _ n0]) (use n0 in simp)
  have "\<forall>j. k \<le> j \<longrightarrow> j < n \<longrightarrow> asks_again message (ask j)"
    using not_less_Least [of _ "\<lambda>n. k \<le> n \<and> \<not> asks_again message (ask n)"] unfolding n_def by blast
  from wait_pods_first [OF _ this] n assms have "r = final_reply message (ask n)" by simp
  with n show ?thesis by (auto simp: final_reply_def asks_again_def retried_def split: sum.splits exn.splits)
qed

section \<open>What the pattern matches\<close>

definition is_number :: "string \<Rightarrow> bool" where
  "is_number s \<longleftrightarrow> s \<noteq> [] \<and> list_all is_digit s \<or>
     (\<exists>x y. s = x @ CHR ''.'' # y \<and> x \<noteq> [] \<and> y \<noteq> [] \<and> list_all is_digit x \<and> list_all is_digit y)"

text \<open>A match of the pattern, as the regular expression reads: where it starts, and what \<^verbatim>\<open>.+\<close> takes.\<close>

definition match_from :: "string \<Rightarrow> string \<Rightarrow> string \<Rightarrow> string \<Rightarrow> string \<Rightarrow> bool" where
  "match_from line start mid a b \<longleftrightarrow>
     (\<exists>rest. line = start @ HEAD @ mid @ EQ @ a @ THROUGHPUT @ b @ GOODPUT @ rest) \<and>
     mid \<noteq> [] \<and> CHR 10 \<notin> set mid \<and> is_number a \<and> is_number b"

lemma literal_Some: "literal l s = Some r \<longleftrightarrow> s = l @ r"
  unfolding literal_def by (metis append_eq_conv_conj append_take_drop_id option.distinct(1) option.inject)

lemma no_digit_space: "\<not> is_digit (CHR '' '')" and no_digit_dot: "\<not> is_digit (CHR ''.'')"
  by (simp_all add: is_digit_def)

lemma takeWhile_digits: "list_all is_digit x \<Longrightarrow> \<not> is_digit c \<Longrightarrow> takeWhile is_digit (x @ c # r) = x"
  by (induction x) auto

lemma dropWhile_digits: "list_all is_digit x \<Longrightarrow> \<not> is_digit c \<Longrightarrow> dropWhile is_digit (x @ c # r) = c # r"
  by (induction x) auto

lemma takeWhile_all: "list_all is_digit (takeWhile is_digit s)"
  by (auto simp: list_all_iff dest: set_takeWhileD)

lemma take_number_sound: "take_number s = Some (a, r) \<Longrightarrow> s = a @ r \<and> is_number a"
proof -
  let ?ds = "takeWhile is_digit s" and ?r = "dropWhile is_digit s"
  assume t: "take_number s = Some (a, r)"
  then have ne: "?ds \<noteq> []" by (auto simp: take_number_def Let_def split: if_splits)
  have s: "s = ?ds @ ?r" by simp
  show ?thesis
  proof (cases "\<exists>r'. ?r = CHR ''.'' # r' \<and> takeWhile is_digit r' \<noteq> []")
    case True
    then obtain r' where r': "?r = CHR ''.'' # r'" "takeWhile is_digit r' \<noteq> []" by blast
    then have ar: "a = ?ds @ CHR ''.'' # takeWhile is_digit r'" "r = dropWhile is_digit r'"
      using t ne by (simp_all add: take_number_def Let_def)
    have "a @ r = ?ds @ ?r" by (simp add: ar r'(1))
    moreover have "is_number a"
      unfolding is_number_def ar using ne r'(2) takeWhile_all by blast
    ultimately show ?thesis by simp
  next
    case False
    then have "a = ?ds" "r = ?r"
      using t ne by (auto simp: take_number_def Let_def split: list.splits if_splits)
    with ne takeWhile_all show ?thesis by (simp add: is_number_def)
  qed
qed

lemma take_number_complete: "is_number a \<Longrightarrow> take_number (a @ CHR '' '' # r) = Some (a, CHR '' '' # r)"
  unfolding is_number_def
proof (elim disjE exE conjE)
  assume "a \<noteq> []" "list_all is_digit a"
  then show ?thesis
    by (simp add: take_number_def Let_def takeWhile_digits dropWhile_digits no_digit_space)
next
  fix x y
  assume "a = x @ CHR ''.'' # y" "x \<noteq> []" "y \<noteq> []" "list_all is_digit x" "list_all is_digit y"
  then show ?thesis
    by (simp add: take_number_def Let_def takeWhile_digits dropWhile_digits no_digit_space no_digit_dot)
qed

lemma THROUGHPUT_space: "THROUGHPUT = CHR '' '' # tl THROUGHPUT" and GOODPUT_space: "GOODPUT = CHR '' '' # tl GOODPUT"
  by (simp_all add: THROUGHPUT_def GOODPUT_def)

lemma tail_match_iff:
  "tail_match s = Some (a, b) \<longleftrightarrow>
   (\<exists>rest. s = EQ @ a @ THROUGHPUT @ b @ GOODPUT @ rest \<and> is_number a \<and> is_number b)"
proof
  assume "tail_match s = Some (a, b)"
  then obtain s1 s2 s3 s4 rest where "literal EQ s = Some s1" "take_number s1 = Some (a, s2)"
    "literal THROUGHPUT s2 = Some s3" "take_number s3 = Some (b, s4)" "literal GOODPUT s4 = Some rest"
    by (auto simp: tail_match_def bind_eq_Some_conv)
  then show "\<exists>rest. s = EQ @ a @ THROUGHPUT @ b @ GOODPUT @ rest \<and> is_number a \<and> is_number b"
    by (auto simp: literal_Some dest!: take_number_sound)
next
  assume "\<exists>rest. s = EQ @ a @ THROUGHPUT @ b @ GOODPUT @ rest \<and> is_number a \<and> is_number b"
  then obtain rest where s: "s = EQ @ a @ THROUGHPUT @ b @ GOODPUT @ rest" "is_number a" "is_number b" by blast
  have "take_number (a @ THROUGHPUT @ x) = Some (a, THROUGHPUT @ x)" for x
    using take_number_complete [OF s(2), of "tl THROUGHPUT @ x"] THROUGHPUT_space by (metis append_Cons)
  moreover have "take_number (b @ GOODPUT @ x) = Some (b, GOODPUT @ x)" for x
    using take_number_complete [OF s(3), of "tl GOODPUT @ x"] GOODPUT_space by (metis append_Cons)
  ultimately show "tail_match s = Some (a, b)"
    by (simp add: s(1) tail_match_def literal_def)
qed

lemma last_match_complete:
  "tail_match t \<noteq> None \<Longrightarrow> CHR 10 \<notin> set mid \<Longrightarrow> last_match (mid @ t) \<noteq> None"
proof (induction mid)
  case Nil
  then show ?case by (cases t) (auto split: option.splits)
qed (auto split: option.splits)

text \<open>The last possibility is the longest \<open>mid\<close>.\<close>

definition takes :: "string \<Rightarrow> string \<Rightarrow> string \<Rightarrow> bool" where
  "takes s mid t \<longleftrightarrow> s = mid @ t \<and> CHR 10 \<notin> set mid \<and> tail_match t \<noteq> None"

lemma last_match_longest:
  "last_match s = Some x \<Longrightarrow> \<exists>mid t. takes s mid t \<and> tail_match t = Some x \<and>
     (\<forall>mid' t'. takes s mid' t' \<longrightarrow> length mid' \<le> length mid)"
proof (induction s)
  case Nil
  then show ?case by (auto simp: takes_def)
next
  case (Cons c s)
  show ?case
  proof (cases "c \<noteq> CHR 10 \<and> last_match s = Some x")
    case True
    with Cons.IH obtain mid t where m: "takes s mid t" "tail_match t = Some x"
      "\<And>mid' t'. takes s mid' t' \<Longrightarrow> length mid' \<le> length mid" by blast
    have "length mid' \<le> length (c # mid)" if "takes (c # s) mid' t'" for mid' t'
      using that m(3) [of "tl mid'" t'] by (cases mid') (auto simp: takes_def)
    moreover have "takes (c # s) (c # mid) t" using m(1) True by (auto simp: takes_def)
    ultimately show ?thesis using m(2) by blast
  next
    case False
    with Cons.prems have x: "tail_match (c # s) = Some x" and n: "c = CHR 10 \<or> last_match s = None"
      by (auto split: if_splits option.splits)
    have "length mid' \<le> length []" if "takes (c # s) mid' t'" for mid' t'
      using that n last_match_complete [of t' "tl mid'"] by (cases mid') (auto simp: takes_def)
    moreover have "takes (c # s) [] (c # s)" using x by (simp add: takes_def)
    ultimately show ?thesis using x by blast
  qed
qed

lemma match_from_iff:
  "match_from line start mid a b \<longleftrightarrow>
   (\<exists>t. line = start @ HEAD @ mid @ t \<and> mid \<noteq> [] \<and> CHR 10 \<notin> set mid \<and> tail_match t = Some (a, b))"
  unfolding match_from_def tail_match_iff by blast

lemma match_at_longest:
  "match_at s = Some (a, b) \<Longrightarrow> \<exists>mid. match_from s [] mid a b \<and>
     (\<forall>mid' a' b'. match_from s [] mid' a' b' \<longrightarrow> length mid' \<le> length mid)"
proof -
  assume "match_at s = Some (a, b)"
  then obtain c r where r: "s = HEAD @ c # r" "c \<noteq> CHR 10" "last_match r = Some (a, b)"
    by (auto simp: match_at_def literal_Some split: option.splits list.splits if_splits)
  from last_match_longest [OF r(3)] obtain mid t where m: "takes r mid t" "tail_match t = Some (a, b)"
    "\<And>mid' t'. takes r mid' t' \<Longrightarrow> length mid' \<le> length mid" by blast
  have "length mid' \<le> length (c # mid)" if "match_from s [] mid' a' b'" for mid' a' b'
  proof -
    obtain t' where t': "s = HEAD @ mid' @ t'" "mid' \<noteq> []" "CHR 10 \<notin> set mid'" "tail_match t' = Some (a', b')"
      using \<open>match_from s [] mid' a' b'\<close> by (auto simp: match_from_iff)
    then have "takes r (tl mid') t'" using r(1) by (cases mid') (auto simp: takes_def)
    from m(3) [OF this] t'(2) show ?thesis by (cases mid') auto
  qed
  moreover have "match_from s [] (c # mid) a b"
    using m(1,2) r(1,2) by (auto simp: match_from_iff takes_def)
  ultimately show ?thesis by blast
qed

lemma match_at_None: "match_at s = None \<Longrightarrow> \<not> match_from s [] mid a b"
proof
  assume n: "match_at s = None" and "match_from s [] mid a b"
  then obtain t where t: "s = HEAD @ mid @ t" "mid \<noteq> []" "CHR 10 \<notin> set mid" "tail_match t = Some (a, b)"
    by (auto simp: match_from_iff)
  obtain c m where m: "mid = c # m" using t(2) by (cases mid) auto
  then have "last_match (m @ t) \<noteq> None" using t by (intro last_match_complete) auto
  then have "match_at s \<noteq> None" using t(3) by (auto simp: t(1) match_at_def literal_def m)
  with n show False by simp
qed

lemma match_from_Cons:
  "match_from (c # s) (d # start) mid a b \<longleftrightarrow> d = c \<and> match_from s start mid a b"
  by (auto simp: match_from_def)

lemma pattern_search_None: "pattern_search s = None \<Longrightarrow> \<not> match_from s start mid a b"
proof (induction s arbitrary: start)
  case Nil
  then show ?case by (simp add: match_from_def HEAD_def)
next
  case (Cons c s)
  then have n: "match_at (c # s) = None" "pattern_search s = None" by (auto split: option.splits)
  then show ?case
    using match_at_None [OF n(1)] Cons.IH [OF n(2)] by (cases start) (auto simp: match_from_def)
qed

text \<open>The search finds the leftmost match and, from there, the longest \<open>mid\<close>.\<close>

definition first_match :: "string \<Rightarrow> string \<Rightarrow> string \<Rightarrow> bool" where
  "first_match s start mid \<longleftrightarrow> (\<forall>start' mid' a' b'. match_from s start' mid' a' b' \<longrightarrow>
     length start < length start' \<or> start' = start \<and> length mid' \<le> length mid)"

lemma pattern_search_first:
  "pattern_search s = Some (a, b) \<Longrightarrow> \<exists>start mid. match_from s start mid a b \<and> first_match s start mid"
proof (induction s)
  case Nil
  then show ?case by (simp add: match_at_def literal_def HEAD_def)
next
  case (Cons c s)
  show ?case
  proof (cases "match_at (c # s)")
    case None
    with Cons obtain start mid where m: "match_from s start mid a b" "first_match s start mid" by auto
    have "first_match (c # s) (c # start) mid"
      unfolding first_match_def
    proof (intro allI impI)
      fix start' mid' a' b'
      assume "match_from (c # s) start' mid' a' b'"
      then show "length (c # start) < length start' \<or> start' = c # start \<and> length mid' \<le> length mid"
        using match_at_None [OF None] m(2) [unfolded first_match_def, rule_format, of "tl start'" mid' a' b']
        by (cases start') (auto simp: match_from_Cons)
    qed
    moreover have "match_from (c # s) (c # start) mid a b" using m(1) by (simp add: match_from_Cons)
    ultimately show ?thesis by blast
  next
    case (Some y)
    with Cons.prems have "match_at (c # s) = Some (a, b)" by simp
    from match_at_longest [OF this] obtain mid where "match_from (c # s) [] mid a b"
      "\<And>mid' a' b'. match_from (c # s) [] mid' a' b' \<Longrightarrow> length mid' \<le> length mid" by blast
    moreover from this have "first_match (c # s) [] mid" unfolding first_match_def by (metis length_greater_0_conv list.size(3))
    ultimately show ?thesis by blast
  qed
qed

lemma match_from_unique:
  assumes "match_from s start mid a b" and "match_from s start mid' a' b'" and "length mid = length mid'"
  shows "a = a' \<and> b = b'"
proof -
  obtain t where t: "s = start @ HEAD @ mid @ t" "tail_match t = Some (a, b)" using assms(1) by (auto simp: match_from_iff)
  obtain t' where t': "s = start @ HEAD @ mid' @ t'" "tail_match t' = Some (a', b')" using assms(2) by (auto simp: match_from_iff)
  have "t = t'" using t(1) t'(1) assms(3) by simp
  then show ?thesis using t(2) t'(2) by simp
qed

lemma pattern_search_iff:
  "pattern_search s = Some (a, b) \<longleftrightarrow> (\<exists>start mid. match_from s start mid a b \<and> first_match s start mid)"
proof
  assume "\<exists>start mid. match_from s start mid a b \<and> first_match s start mid"
  then obtain start mid where m: "match_from s start mid a b" "first_match s start mid" by blast
  then obtain a' b' where p: "pattern_search s = Some (a', b')"
    using pattern_search_None [of s start mid a b] by (cases "pattern_search s") auto
  from pattern_search_first [OF p] obtain start' mid' where m': "match_from s start' mid' a' b'" "first_match s start' mid'"
    by blast
  have "start' = start \<and> length mid' = length mid"
    using m(2) m'(2) m(1) m'(1) unfolding first_match_def by (metis le_antisym less_asym')
  with match_from_unique [of s start mid a b mid' a' b'] m m' p show "pattern_search s = Some (a, b)" by simp
qed (rule pattern_search_first)

lemma open_log_final:
  "m < n \<Longrightarrow> \<forall>j < m. retried message (ask (k + j)) \<Longrightarrow> \<not> retried message (ask (k + m)) \<Longrightarrow>
   open_log message ask g n k = final_reply message (ask (k + m))"
proof (induction n arbitrary: k m)
  case (Suc n)
  show ?case
  proof (cases m)
    case 0
    with Suc.prems show ?thesis
      by (auto simp: retried_def final_reply_def split: sum.splits exn.splits)
  next
    case (Suc m')
    with Suc.prems have "retried message (ask (k + 0))" by blast
    then have "open_log message ask g (Suc n) k = open_log message ask g n (Suc k)"
      by (auto simp: retried_def split: sum.splits exn.splits)
    moreover have "open_log message ask g n (Suc k) = final_reply message (ask (Suc k + m'))"
      using Suc Suc.prems by (intro Suc.IH) (auto dest: spec [of _ "Suc _"])
    ultimately show ?thesis by (simp add: Suc)
  qed
qed simp

lemma open_log_gives_up:
  "\<forall>j < n. retried message (ask (k + j)) \<Longrightarrow> open_log message ask g n k = Inl g"
proof (induction n arbitrary: k)
  case (Suc n)
  then have "retried message (ask (k + 0))" by blast
  then have "open_log message ask g (Suc n) k = open_log message ask g n (Suc k)"
    by (auto simp: retried_def split: sum.splits exn.splits)
  also have "\<dots> = Inl g" using Suc.prems by (intro Suc.IH) (auto dest: spec [of _ "Suc _"])
  finally show ?case .
qed simp

lemma open_log_eq:
  "open_log message ask g n 0 = (if \<forall>j < n. retried message (ask j) then Inl g
     else final_reply message (ask (LEAST j. \<not> retried message (ask j))))"
proof (cases "\<forall>j < n. retried message (ask j)")
  case True
  then show ?thesis using open_log_gives_up [of n message ask 0 g] by simp
next
  case False
  then obtain j where j: "j < n" "\<not> retried message (ask j)" by blast
  define m where "m = (LEAST j. \<not> retried message (ask j))"
  have "\<not> retried message (ask m)" unfolding m_def using j(2) by (rule LeastI)
  moreover have "m < n" using j Least_le [of "\<lambda>j. \<not> retried message (ask j)" j] by (simp add: m_def)
  moreover have "\<forall>i < m. retried message (ask i)" unfolding m_def using not_less_Least by blast
  ultimately have "open_log message ask g n 0 = final_reply message (ask m)"
    using open_log_final [of m n message ask 0 g] by simp
  then show ?thesis unfolding m_def by (simp only: False if_False)
qed

section \<open>The totals\<close>

text \<open>The two numbers a line contributes, and those of all streams together.\<close>

definition reading :: "string \<Rightarrow> (rat \<times> rat) list" where
  "reading line = (case pattern_search line of None \<Rightarrow> [] | Some (a, b) \<Rightarrow> [(decimal a, decimal b)])"

definition readings :: "stream list \<Rightarrow> (rat \<times> rat) list" where
  "readings streams = [ab. strm \<leftarrow> streams, x \<leftarrow> strm, ab \<leftarrow> (case x of Inl e \<Rightarrow> [] | Inr l \<Rightarrow> reading (rstrip_newlines l))]"

abbreviation unit_roundoff :: rat where "unit_roundoff \<equiv> 1 / 2 ^ 53"

text \<open>\<open>near n x s\<close>: \<open>x\<close> is \<open>s\<close> up to \<open>n\<close> roundings.\<close>

definition near :: "nat \<Rightarrow> rat \<Rightarrow> rat \<Rightarrow> bool" where
  "near n x s \<longleftrightarrow> (1 - unit_roundoff) ^ n * s \<le> x \<and> x \<le> (1 + unit_roundoff) ^ n * s"

definition in_range :: "rat \<Rightarrow> bool" where
  "in_range q \<longleftrightarrow> q = 0 \<or> pow_rat 2 (- 1022) \<le> q"

lemma in_range_nonneg: "in_range q \<Longrightarrow> 0 \<le> q"
  unfolding in_range_def using pow_rat_pos [of 2 "- 1022"] by (metis less_imp_le one_less_numeral_iff order.trans order_refl semiring_norm(76))

lemma round_in_range: "in_range q \<Longrightarrow> in_range (round_double q) \<and> near 1 (round_double q) q"
proof (cases "q = 0")
  case True
  then show ?thesis by (simp add: in_range_def near_def round_double_def)
next
  case False
  assume "in_range q"
  with False have "pow_rat 2 (- 1022) \<le> q" by (simp add: in_range_def)
  from round_double_normal [OF this] have "in_range (round_double q)"
    and "round_double q - q \<le> q / 2 ^ 53" "q - round_double q \<le> q / 2 ^ 53"
    unfolding in_range_def by linarith+
  then show ?thesis by (simp add: near_def left_diff_distrib distrib_right)
qed

lemma in_range_add: "in_range p \<Longrightarrow> in_range q \<Longrightarrow> in_range (p + q)"
  using in_range_nonneg [of p] in_range_nonneg [of q] unfolding in_range_def by auto

lemma near_Suc: "near n x s \<Longrightarrow> 0 \<le> s \<Longrightarrow> near (Suc n) x s"
proof -
  assume "near n x s" "0 \<le> s"
  moreover have "(1 - unit_roundoff) ^ Suc n * s \<le> (1 - unit_roundoff) ^ n * s"
    by (intro mult_right_mono power_decreasing) (use \<open>0 \<le> s\<close> in auto)
  moreover have "(1 + unit_roundoff) ^ n * s \<le> (1 + unit_roundoff) ^ Suc n * s"
    by (intro mult_right_mono power_increasing) (use \<open>0 \<le> s\<close> in auto)
  ultimately show ?thesis unfolding near_def by linarith
qed

lemma near_mono: "near m x s \<Longrightarrow> 0 \<le> s \<Longrightarrow> m \<le> n \<Longrightarrow> near n x s"
  by (induction n) (auto simp: le_Suc_eq intro: near_Suc)

lemma near_add: "near n x s \<Longrightarrow> near n y t \<Longrightarrow> near n (x + y) (s + t)"
  unfolding near_def distrib_left by linarith

lemma near_trans: "near m y x \<Longrightarrow> near n x s \<Longrightarrow> near (m + n) y s"
proof -
  assume a: "near m y x" "near n x s"
  have "(1 - unit_roundoff) ^ m * ((1 - unit_roundoff) ^ n * s) \<le> (1 - unit_roundoff) ^ m * x"
    by (rule mult_left_mono) (use a(2) in \<open>auto simp: near_def\<close>)
  moreover have "(1 + unit_roundoff) ^ m * x \<le> (1 + unit_roundoff) ^ m * ((1 + unit_roundoff) ^ n * s)"
    by (rule mult_left_mono) (use a(2) in \<open>auto simp: near_def\<close>)
  ultimately show ?thesis using a(1) unfolding near_def power_add mult.assoc by linarith
qed

text \<open>One more value rounds it and the new sum.\<close>

lemma add_near:
  assumes "in_range x" and "in_range v" and "near (Suc n) x s" and "0 \<le> s"
  shows "in_range (round_double (x + round_double v)) \<and> near (Suc (Suc n)) (round_double (x + round_double v)) (s + v)"
proof -
  have v: "in_range (round_double v)" "near (Suc n) (round_double v) v"
    using round_in_range [OF assms(2)] in_range_nonneg [OF assms(2)] by (auto intro: near_mono)
  have r: "in_range (x + round_double v)" by (rule in_range_add [OF assms(1) v(1)])
  have "near (Suc n) (x + round_double v) (s + v)" by (rule near_add [OF assms(3) v(2)])
  from near_trans [OF conjunct2 [OF round_in_range [OF r]] this] round_in_range [OF r] show ?thesis by simp
qed

definition add_value :: "rat \<Rightarrow> double \<Rightarrow> double" where
  "add_value v d = add_double d (to_double v)"

text \<open>\<open>d\<close> is \<open>s\<close> up to \<open>n\<close> roundings; infinite only if that may reach \<open>2 ^ 1024\<close>.\<close>

definition near_double :: "nat \<Rightarrow> double \<Rightarrow> rat \<Rightarrow> bool" where
  "near_double n d s \<longleftrightarrow> (case d of Finite x \<Rightarrow> in_range x \<and> near n x s | Infinity \<Rightarrow> 2 ^ 1024 \<le> (1 + unit_roundoff) ^ n * s)"

lemma to_double_near: "in_range (round_double q) \<Longrightarrow> near n (round_double q) s \<Longrightarrow> near_double n (to_double q) s"
  by (auto simp: near_double_def to_double_def near_def)

lemma near_double_more:
  assumes "near_double n Infinity s" and "s \<le> t" and "0 \<le> s"
  shows "near_double (Suc n) Infinity t"
proof -
  have "(1 + unit_roundoff) ^ n * s \<le> (1 + unit_roundoff) ^ Suc n * t"
    using assms(2,3) by (intro mult_mono power_increasing) auto
  with assms(1) show ?thesis unfolding near_double_def double.case by (rule order_trans)
qed

lemma add_value_near:
  assumes "near_double (Suc n) d s" and "in_range v" and "0 \<le> s"
  shows "near_double (Suc (Suc n)) (add_value v d) (s + v)"
proof (cases d)
  case (Finite x)
  then have x: "in_range x" "near (Suc n) x s" using assms(1) by (simp_all add: near_double_def)
  have v: "0 \<le> v" "near (Suc n) (round_double v) v"
    using in_range_nonneg [OF assms(2)] round_in_range [OF assms(2)] by (auto intro: near_mono)
  note r = add_near [OF x(1) assms(2) x(2) assms(3)]
  show ?thesis
  proof (cases "to_double v")
    case (Finite y)
    then have "y = round_double v" by (simp add: to_double_def split: if_splits)
    with r \<open>d = Finite x\<close> Finite show ?thesis by (simp add: add_value_def to_double_near)
  next
    case Infinity
    then have "near_double (Suc n) Infinity v" using v(2) by (simp add: to_double_def near_double_def near_def split: if_splits)
    from near_double_more [OF this _ v(1), of "s + v"] assms(3) Infinity \<open>d = Finite x\<close> show ?thesis by (simp add: add_value_def)
  qed
next
  case Infinity
  with near_double_more [of "Suc n" s "s + v"] assms in_range_nonneg [OF assms(2)] show ?thesis by (simp add: add_value_def)
qed

lemma parse_and_add_eq:
  "parse_and_add name i l t = Inr \<lparr>throughput = fold add_value (map fst (reading l)) (throughput t),
     goodput = fold add_value (map snd (reading l)) (goodput t),
     matched_logs = matched_logs t @ (if reading l = [] then [] else [''['' @ name i @ ''] '' @ l])\<rparr>"
  by (auto simp: parse_and_add_def reading_def add_value_def float_of_def split: option.splits)

lemma parse_fold:
  "rfold (\<lambda>(i, l). parse_and_add name i l) ls t = Inr t' \<Longrightarrow>
   throughput t' = fold add_value (map fst (concat (map (reading \<circ> snd) ls))) (throughput t) \<and>
   goodput t' = fold add_value (map snd (concat (map (reading \<circ> snd) ls))) (goodput t) \<and>
   length (matched_logs t') = length (matched_logs t) + length (concat (map (reading \<circ> snd) ls))"
proof (induction ls arbitrary: t)
  case (Cons x ls)
  obtain i l where x: "x = (i, l)" by fastforce
  have "length (if reading l = [] then [] else [''['' @ name i @ ''] '' @ l]) = length (reading l)"
    by (simp add: reading_def split: option.splits prod.splits)
  moreover from Cons.prems have "rfold (\<lambda>(i, l). parse_and_add name i l) ls
      \<lparr>throughput = fold add_value (map fst (reading l)) (throughput t),
       goodput = fold add_value (map snd (reading l)) (goodput t),
       matched_logs = matched_logs t @ (if reading l = [] then [] else [''['' @ name i @ ''] '' @ l])\<rparr> = Inr t'"
    by (simp only: x rfold.simps prod.case parse_and_add_eq [of name i l t] rbind_simps)
  note Cons.IH [OF this]
  ultimately show ?case by (simp add: x)
qed simp

lemma fold_near:
  "\<forall>v \<in> set vs. in_range v \<Longrightarrow> near_double (Suc n) d s \<Longrightarrow> 0 \<le> s \<Longrightarrow>
   near_double (Suc n + length vs) (fold add_value vs d) (s + sum_list vs)"
proof (induction vs arbitrary: n d s)
  case (Cons v vs)
  have "near_double (Suc (Suc n)) (add_value v d) (s + v)"
    by (rule add_value_near) (use Cons.prems in auto)
  moreover have "0 \<le> s + v" using Cons.prems in_range_nonneg [of v] by simp
  ultimately have "near_double (Suc (Suc n) + length vs) (fold add_value vs (add_value v d)) (s + v + sum_list vs)"
    using Cons.prems by (intro Cons.IH) auto
  then show ?case by (simp add: add.assoc)
qed simp

text \<open>Once the exit event is set, the readings of the lines seen are those of the streams, in some order.\<close>

lemma mset_concat_map: "mset (concat (map f xs)) = (\<Sum>x \<in># mset xs. mset (f x))"
  by (induction xs) simp_all

lemma sum_mset_sum: "finite A \<Longrightarrow> (\<Sum>x \<in># (\<Sum>i \<in> A. M i). f x) = (\<Sum>i \<in> A. \<Sum>x \<in># M i. f x :: 'b multiset)"
  by (induction A rule: finite_induct) simp_all

lemma seen_readings:
  assumes "log_steps callback (print_logs streams s) f" and "exit_event f"
  shows "mset (concat (map (reading \<circ> snd) (seen f))) = mset (readings streams)"
proof -
  have r: "streams ! i = map Inr raw \<Longrightarrow> lines_of i (seen f) = map rstrip_newlines raw \<Longrightarrow>
      mset (concat (map reading (lines_of i (seen f)))) =
      mset (concat (map (case_sum (\<lambda>e. []) (\<lambda>l. reading (rstrip_newlines l))) (streams ! i)))" for i raw
    by (simp add: comp_def)
  have "mset (concat (map (reading \<circ> snd) (seen f))) = (\<Sum>l \<in># image_mset snd (mset (seen f)). mset (reading l))"
    by (simp add: mset_concat_map image_mset.compositionality comp_def)
  also have "image_mset snd (mset (seen f)) = (\<Sum>i < length streams. mset (lines_of i (seen f)))"
    by (rule seen_lines) (use seen_streams [OF assms(1)] in simp)
  also have "(\<Sum>l \<in># \<dots>. mset (reading l)) = (\<Sum>i < length streams. mset (concat (map reading (lines_of i (seen f)))))"
    by (simp add: sum_mset_sum mset_concat_map)
  also have "\<dots> = (\<Sum>i < length streams. mset (concat (map (case_sum (\<lambda>e. []) (\<lambda>l. reading (rstrip_newlines l))) (streams ! i))))"
    using exit_event_lines [OF assms] r by (intro sum.cong refl) blast
  also have "\<dots> = mset (readings streams)"
    unfolding readings_def by (subst mset_concat_map) (simp add: sum_mset_sum_list sum_list_sum_nth atLeast0LessThan flip: mset_map)
  finally show ?thesis .
qed

section \<open>Properties\<close>

definition sample_line :: string where
  "sample_line = ''Rate limited reqs/s: Results(n=1) = 12.5 requests/sec (throughput), 3 requests/sec (goodput)''"

lemma sample_search: "pattern_search sample_line = Some (''12.5'', ''3'')"
  by code_simp

definition sample_api :: "string job_api" where
  "sample_api = \<lparr>region_config = Inr (), job_labels = Inr [(''job-name'', ''execute'')],
     pods_reply = (\<lambda>labels k. if k = 0 then Inr [] else Inr [''pod'']),
     log_reply = (\<lambda>pod k. if k = 0 then Inl (ApiException 500 ''b'') else Inr ''log''), body_message = Inr\<rparr>"

text \<open>C19 Which numbers \<^verbatim>\<open>Execute.log\<close> takes from a line: the search by parts is the regular expression's, with the
  leftmost match, the longest \<^verbatim>\<open>.+\<close> from there, and whole numbers on both sides.\<close>

theorem result_pattern:
  "pattern_search line = Some (a, b) \<longleftrightarrow>
   (\<exists>start mid rest. line = start @ ''Rate limited reqs/s: Results('' @ mid @ '') = '' @ a @
        '' requests/sec (throughput), '' @ b @ '' requests/sec (goodput)'' @ rest \<and>
      mid \<noteq> [] \<and> CHR 10 \<notin> set mid \<and> is_number a \<and> is_number b \<and>
      (\<forall>start' mid' a' b'. match_from line start' mid' a' b' \<longrightarrow>
         length start < length start' \<or> start' = start \<and> length mid' \<le> length mid))"
proof -
  have "pattern_search line = Some (a, b) \<longleftrightarrow> (\<exists>start mid. match_from line start mid a b \<and> first_match line start mid)"
    by (rule pattern_search_iff)
  then show ?thesis
    unfolding first_match_def match_from_def [of line _ _ a b] HEAD_def EQ_def THROUGHPUT_def GOODPUT_def
    by (simp only: ex_simps conj_assoc)
qed

lemma result_pattern_witness:
  "\<exists>start mid rest. sample_line = start @ ''Rate limited reqs/s: Results('' @ mid @ '') = '' @ ''12.5'' @
        '' requests/sec (throughput), '' @ ''3'' @ '' requests/sec (goodput)'' @ rest \<and> mid \<noteq> [] \<and>
      is_number ''12.5'' \<and> is_number ''3''"
  using result_pattern [of sample_line "''12.5''" "''3''", THEN iffD1, OF sample_search]
  by (elim exE conjE) (intro exI conjI)

text \<open>C18 Waiting for the pod of a job: the loop ends exactly when some reply settles it, with that reply, and
  the branch for \<open>no_pods\<close> is never taken. The log of the first pod is then asked for at most ten
  times, and the tenth API error gives up.\<close>

theorem job_logs_outcome:
  assumes "region_config api = Inr ()" and "job_labels api = Inr labels" and "labels \<noteq> []"
  shows "(get_job_logs api line ns region job False = None \<longleftrightarrow>
      (\<forall>k. asks_again (body_message api) (pods_reply api labels k))) \<and>
    (\<forall>n. (\<forall>k < n. asks_again (body_message api) (pods_reply api labels k)) \<longrightarrow>
        \<not> asks_again (body_message api) (pods_reply api labels n) \<longrightarrow>
      get_job_logs api line ns region job False = Some (case final_reply (body_message api) (pods_reply api labels n) of
        Inl e \<Rightarrow> Inl e
      | Inr pods \<Rightarrow> if \<forall>j < 10. retried (body_message api) (log_reply api (hd pods) j) then Inl (no_log job ns)
          else final_reply (body_message api) (log_reply api (hd pods)
            (LEAST j. \<not> retried (body_message api) (log_reply api (hd pods) j)))))"
proof -
  let ?again = "\<lambda>k. asks_again (body_message api) (pods_reply api labels k)"
  let ?wait = "wait_pods (body_message api) (pods_reply api labels) 0"
  have g: "get_job_logs api line ns region job False = (case ?wait of None \<Rightarrow> None
      | Some (Inl e, k) \<Rightarrow> Some (Inl e) | Some (Inr [], k) \<Rightarrow> Some (Inl (no_pods job ns))
      | Some (Inr (p # ps), k) \<Rightarrow> Some (open_log (body_message api) (log_reply api p) (no_log job ns) 10 0))"
    using assms by (simp add: get_job_logs_def)
  have r: "?wait = Some (final_reply (body_message api) (pods_reply api labels n), Suc n)"
    if "\<forall>k < n. ?again k" "\<not> ?again n" for n
    using wait_pods_first [of 0 n] that by blast
  have "?wait = None \<longleftrightarrow> (\<forall>k. ?again k)"
  proof
    assume n: "?wait = None"
    show "\<forall>k. ?again k"
    proof (rule ccontr)
      assume "\<not> (\<forall>k. ?again k)"
      then have "\<exists>k. \<not> ?again k" by simp
      then have a: "\<not> ?again (LEAST k. \<not> ?again k)" by (rule LeastI_ex)
      have "\<forall>k < (LEAST k. \<not> ?again k). ?again k" using not_less_Least by blast
      from r [OF this a] n show False by (simp only: option.distinct)
    qed
  qed (simp add: wait_pods_never)
  moreover have "get_job_logs api line ns region job False = None \<longleftrightarrow> ?wait = None"
    unfolding g by (auto split: option.splits sum.splits list.splits)
  ultimately have none: "get_job_logs api line ns region job False = None \<longleftrightarrow> (\<forall>k. ?again k)" by simp
  have some: "get_job_logs api line ns region job False = Some (case final_reply (body_message api) (pods_reply api labels n) of
        Inl e \<Rightarrow> Inl e
      | Inr pods \<Rightarrow> if \<forall>j < 10. retried (body_message api) (log_reply api (hd pods) j) then Inl (no_log job ns)
          else final_reply (body_message api) (log_reply api (hd pods)
            (LEAST j. \<not> retried (body_message api) (log_reply api (hd pods) j))))"
    if n: "\<forall>k < n. ?again k" "\<not> ?again n" for n
  proof (cases "final_reply (body_message api) (pods_reply api labels n)")
    case (Inl e)
    then show ?thesis by (simp add: g r [OF n])
  next
    case (Inr pods)
    with wait_pods_result [OF r [OF n]] obtain p ps where "pods = p # ps" by (cases pods) auto
    then show ?thesis by (simp only: g r [OF n] Inr option.case prod.case sum.case list.case open_log_eq list.sel)
  qed
  show ?thesis by (intro conjI allI impI none) (rule some)
qed

lemma job_logs_outcome_witness:
  "get_job_logs sample_api id ''ns'' ''eu'' ''execute'' False = Some (Inr ''log'')"
proof -
  have a: "region_config sample_api = Inr ()" "job_labels sample_api = Inr [(''job-name'', ''execute'')]"
    by (simp_all add: sample_api_def)
  have again: "\<forall>k < Suc 0. asks_again (body_message sample_api) (pods_reply sample_api [(''job-name'', ''execute'')] k)"
    "\<not> asks_again (body_message sample_api) (pods_reply sample_api [(''job-name'', ''execute'')] (Suc 0))"
    by (simp_all add: sample_api_def asks_again_def retried_def)
  have r: "retried (body_message sample_api) (log_reply sample_api ''pod'' j) \<longleftrightarrow> j = 0" for j
    by (simp add: sample_api_def retried_def)
  have l: "Least ((<) (0 :: nat)) = Suc 0" by (rule Least_equality) auto
  have n: "\<not> (\<forall>j < 10. (j :: nat) = 0)" by (auto intro: exI [of _ 1])
  have f: "final_reply (body_message sample_api) (pods_reply sample_api [(''job-name'', ''execute'')] (Suc 0)) = Inr [''pod'']"
    "final_reply (body_message sample_api) (log_reply sample_api ''pod'' (Suc 0)) = Inr ''log''"
    by (simp_all add: sample_api_def final_reply_def)
  from job_logs_outcome [OF a, THEN conjunct2, rule_format, OF _ again(1) [rule_format] again(2)]
  show ?thesis by (simp add: f r l n)
qed

text \<open>Within \<open>n\<close> roundings of a sum, or infinite because that may reach the largest doubles.\<close>

definition accurate :: "nat \<Rightarrow> rat \<Rightarrow> double \<Rightarrow> bool" where
  "accurate n s d \<longleftrightarrow> (case d of
     Finite x \<Rightarrow> (1 - 1 / 2 ^ 53) ^ n * s \<le> x \<and> x \<le> (1 + 1 / 2 ^ 53) ^ n * s
   | Infinity \<Rightarrow> 2 ^ 1024 \<le> (1 + 1 / 2 ^ 53) ^ n * s)"

lemma near_accurate: "near_double n d s \<Longrightarrow> accurate n s d"
  by (simp add: near_double_def accurate_def near_def split: double.splits)

text \<open>C17 Throughput and goodput do not depend on how the readers interleave, up to rounding: whatever the order,
  after the exit event the result is the exact sum over all result lines of all logs, off by at
  most one rounding (a factor of \<open>1 \<plusminus> 2 ^ -53\<close>) per line and one for the value itself, or infinite when that
  sum may reach \<open>2 ^ 1024\<close>, and every result line was counted once. The hypothesis excludes values so small that
  doubles lose precision.\<close>

theorem totals_accuracy:
  assumes "log_steps (parse_and_add name) (print_logs streams no_totals) f" and "exit_event f"
    and "\<forall>(a, b) \<in> set (readings streams). (a = 0 \<or> 1 / 2 ^ 1022 \<le> a) \<and> (b = 0 \<or> 1 / 2 ^ 1022 \<le> b)"
  shows "let n = length (readings streams); a = sum_list (map fst (readings streams)); b = sum_list (map snd (readings streams)) in
    length (matched_logs (result f)) = n \<and> accurate (n + 1) a (throughput (result f)) \<and> accurate (n + 1) b (goodput (result f))"
proof -
  let ?rs = "concat (map (reading \<circ> snd) (seen f))"
  have m: "mset ?rs = mset (readings streams)" by (rule seen_readings [OF assms(1,2)])
  have p: "pow_rat 2 (- 1022) = 1 / 2 ^ 1022" by (simp add: pow_rat_def)
  have fold: "rfold (\<lambda>(i, l). parse_and_add name i l) (seen f) no_totals = Inr (result f)"
    using faithful_reachable [OF assms(1)] by (simp add: faithful_def)
  from parse_fold [OF this] have e: "throughput (result f) = fold add_value (map fst ?rs) (Finite 0)"
    "goodput (result f) = fold add_value (map snd ?rs) (Finite 0)" "length (matched_logs (result f)) = length ?rs"
    by (simp_all add: no_totals_def)
  have "set ?rs = set (readings streams)" using m by (rule mset_eq_setD)
  then have "\<forall>v \<in> set (map fst ?rs). in_range v" "\<forall>v \<in> set (map snd ?rs). in_range v"
    using assms(3) by (auto simp: in_range_def p)
  then have "near_double (Suc 0 + length (map fst ?rs)) (fold add_value (map fst ?rs) (Finite 0)) (0 + sum_list (map fst ?rs))"
    "near_double (Suc 0 + length (map snd ?rs)) (fold add_value (map snd ?rs) (Finite 0)) (0 + sum_list (map snd ?rs))"
    by (intro fold_near; simp add: near_double_def in_range_def near_def)+
  note n = this [THEN near_accurate]
  have s: "sum_list (map fst ?rs) = sum_list (map fst (readings streams))"
    "sum_list (map snd ?rs) = sum_list (map snd (readings streams))"
    using m by (metis mset_map sum_mset_sum_list)+
  have "length ?rs = length (readings streams)" using m by (rule mset_eq_length)
  then show ?thesis
    using n e(3) unfolding e(1,2) s Let_def by simp
qed

lemma totals_accuracy_witness:
  "\<exists>f. log_steps (parse_and_add (\<lambda>_. ''eu'')) (print_logs [[Inr sample_line]] no_totals) f \<and> exit_event f \<and>
     length (matched_logs (result f)) = 1 \<and> accurate 2 (25 / 2) (throughput (result f))"
proof -
  let ?cb = "parse_and_add (\<lambda>_. ''eu'')" and ?f0 = "print_logs [[Inr sample_line]] no_totals"
  have l: "rstrip_newlines sample_line = sample_line" by code_simp
  obtain s where s: "?cb 0 (rstrip_newlines sample_line) (result ?f0) = Inr s" by (simp add: parse_and_add_def)
  define f1 where "f1 = ?f0\<lparr>readers := [Reading []], result := s, seen := [(0, rstrip_newlines sample_line)]\<rparr>"
  define f2 where "f2 = f1\<lparr>readers := [Ended], alive := 0, exit_event := True\<rparr>"
  have "log_step ?cb ?f0 f1"
    using log_step.read_line [of 0 ?f0 sample_line "[]" ?cb s] s by (simp add: f1_def print_logs_def)
  moreover have "log_step ?cb f1 f2"
    using log_step.stream_end [of 0 f1 ?cb] by (simp add: f2_def f1_def print_logs_def)
  ultimately have st: "log_steps ?cb ?f0 f2" by (meson r_into_rtranclp rtranclp.rtrancl_into_rtrancl)
  have x: "exit_event f2" by (simp add: f2_def)
  have d: "decimal ''12.5'' = 25 / 2" "decimal ''3'' = 3" by (simp_all add: decimal_def str_simps digits_val_def digit_val_def)
  have rd: "readings [[Inr sample_line]] = [(25 / 2, 3)]"
    by (simp add: readings_def reading_def l sample_search d)
  have "\<forall>(a, b) \<in> set (readings [[Inr sample_line]]). (a = 0 \<or> 1 / 2 ^ 1022 \<le> a) \<and> (b = 0 \<or> 1 / 2 ^ 1022 \<le> b)"
    by (simp add: rd)
  from totals_accuracy [OF st x this] st x show ?thesis
    by (intro exI [of _ f2]) (simp add: rd Let_def numeral_2_eq_2)
qed

end
