(* ===== verification/Argparse.thy ===== *)
theory Argparse
  imports Py_Prelude Py_Str
begin

text \<open>
  \<^verbatim>\<open>argparse.ArgumentParser\<close> of the standard library as the tools use it: long and short options,
  abbreviations, \<^verbatim>\<open>--key=value\<close>, options with one value, with any number of values, repeated
  ones, flags, integers, choices, and positional arguments between them. A wrong command line
  ends the program with code 2, \<^verbatim>\<open>--help\<close> with code 0. Command lines with the argument \<^verbatim>\<open>--\<close>,
  with several short flags in one argument, or with digit separators in an integer are outside.
\<close>

section \<open>Parsers and arguments\<close>

datatype action = Flag | Append | Store | Number | Many | Help

text \<open>\<open>choices\<close> is empty when every text is allowed.\<close>

record option_spec =
  option_names :: "string list"
  dest :: string
  action :: action
  choices :: "string list"

record parser =
  options :: "option_spec list"
  positionals :: "(string \<times> string list) list"

datatype arg_value = Missing | Bool bool | Text string | Num int | Texts "string list"

type_synonym args = "(string, arg_value) dict"

datatype 'a parsed = Parsed 'a | Exits int | Outside

definition help_option :: option_spec where
  "help_option = \<lparr>option_names = [''-h'', ''--help''], dest = ''help'', action = Help, choices = []\<rparr>"

section \<open>Classifying the arguments\<close>

text \<open>\<open>Opt o name v\<close> is the option \<open>o\<close> written as \<open>name\<close>, with the value \<open>v\<close> when it is in the same argument.\<close>

datatype token = Plain string | Opt option_spec string "string option" | Unknown | Ambiguous

definition named :: "parser \<Rightarrow> string \<Rightarrow> (option_spec \<times> string) list" where
  "named p n = [(opt, m). opt \<leftarrow> options p, m \<leftarrow> option_names opt, m = n]"

text \<open>The text before the first \<^verbatim>\<open>=\<close>, and the one after it when there is one.\<close>

definition cut_equals :: "string \<Rightarrow> string \<times> string option" where
  "cut_equals s = (takeWhile (\<lambda>c. c \<noteq> CHR ''='') s,
     case dropWhile (\<lambda>c. c \<noteq> CHR ''='') s of [] \<Rightarrow> None | _ # v \<Rightarrow> Some v)"

definition abbreviations :: "parser \<Rightarrow> string \<Rightarrow> (option_spec \<times> string \<times> string option) list" where
  "abbreviations p s =
     (if take 2 s = ''--'' then (case cut_equals s of (n, v) \<Rightarrow>
        [(opt, m, v). opt \<leftarrow> options p, m \<leftarrow> option_names opt, prefix n m])
      else [(opt, m, if m = take 2 s then Some (drop 2 s) else None).
        opt \<leftarrow> options p, m \<leftarrow> option_names opt, m = take 2 s \<or> prefix s m])"

definition is_negative_number :: "string \<Rightarrow> bool" where
  "is_negative_number s = (case s of [] \<Rightarrow> False | c # r \<Rightarrow> c = CHR ''-'' \<and>
     (r \<noteq> [] \<and> list_all is_digit r \<or>
      (case dropWhile is_digit r of [] \<Rightarrow> False | d # f \<Rightarrow> d = CHR ''.'' \<and> f \<noteq> [] \<and> list_all is_digit f)))"

definition classify :: "parser \<Rightarrow> string \<Rightarrow> token" where
  "classify p s =
     (if s = [] \<or> hd s \<noteq> CHR ''-'' then Plain s
      else case named p s of (opt, m) # _ \<Rightarrow> Opt opt m None
      | [] \<Rightarrow>
      if length s = 1 then Plain s
      else case (if CHR ''='' \<in> set s then named p (fst (cut_equals s)) else []) of
        (opt, m) # _ \<Rightarrow> Opt opt m (snd (cut_equals s))
      | [] \<Rightarrow> (case abbreviations p s of
          [(opt, m, v)] \<Rightarrow> Opt opt m v
        | _ # _ # _ \<Rightarrow> Ambiguous
        | [] \<Rightarrow> if is_negative_number s \<or> CHR '' '' \<in> set s then Plain s else Unknown))"

section \<open>Consuming them\<close>

definition store_value :: "option_spec \<Rightarrow> string \<Rightarrow> args \<Rightarrow> args parsed" where
  "store_value opt v ns = (case action opt of
     Number \<Rightarrow> if CHR ''_'' \<in> set v then Outside
       else (case int_of_str v of None \<Rightarrow> Exits 2 | Some i \<Rightarrow> Parsed (dset (dest opt) (Num i) ns))
   | _ \<Rightarrow> if choices opt \<noteq> [] \<and> v \<notin> set (choices opt) then Exits 2
       else Parsed (dset (dest opt)
         (case action opt of
            Append \<Rightarrow> Texts ((case dget ns (dest opt) of Some (Texts l) \<Rightarrow> l | _ \<Rightarrow> []) @ [v])
          | Many \<Rightarrow> Texts [v]
          | _ \<Rightarrow> Text v) ns))"

fun is_arg :: "token \<Rightarrow> bool" where
  "is_arg (Plain s) = True"
| "is_arg _ = False"

fun arg_text :: "token \<Rightarrow> string" where
  "arg_text (Plain s) = s"
| "arg_text _ = []"

lemma dropWhile_args [termination_simp]: "length (dropWhile is_arg ts) < Suc (length ts)"
  by (simp add: length_dropWhile_le less_Suc_eq_le)

text \<open>
  \<open>ps\<close> are the positional arguments still missing, \<open>extra\<close> is set once an argument was left over.
  Leftover and missing arguments are an error only at the end, when \<^verbatim>\<open>--help\<close> had its chance.
\<close>

fun consume :: "(string \<times> string list) list \<Rightarrow> bool \<Rightarrow> token list \<Rightarrow> args \<Rightarrow> args parsed" where
  "consume ps extra [] ns = (if ps \<noteq> [] \<or> extra then Exits 2 else Parsed ns)"
| "consume ps extra (Plain s # ts) ns = (case ps of
     [] \<Rightarrow> consume ps True ts ns
   | (d, cs) # ps' \<Rightarrow> if cs \<noteq> [] \<and> s \<notin> set cs then Exits 2
       else consume ps' extra ts (dset d (Text s) ns))"
| "consume ps extra (Unknown # ts) ns = consume ps True ts ns"
| "consume ps extra (Ambiguous # ts) ns = Exits 2"
| "consume ps extra (Opt opt m (Some v) # ts) ns =
     (if action opt = Flag \<or> action opt = Help then (if take 2 m = ''--'' then Exits 2 else Outside)
      else case store_value opt v ns of
        Parsed ns' \<Rightarrow> consume ps extra ts ns'
      | Exits c \<Rightarrow> Exits c
      | Outside \<Rightarrow> Outside)"
| "consume ps extra (Opt opt m None # ts) ns = (case action opt of
     Help \<Rightarrow> Exits 0
   | Flag \<Rightarrow> consume ps extra ts (dset (dest opt) (Bool True) ns)
   | Many \<Rightarrow> (let vs = map arg_text (takeWhile is_arg ts)
       in if choices opt \<noteq> [] \<and> \<not> set vs \<subseteq> set (choices opt) then Exits 2
          else consume ps extra (dropWhile is_arg ts) (dset (dest opt) (Texts vs) ns))
   | _ \<Rightarrow> (case ts of
        Plain v # ts' \<Rightarrow> (case store_value opt v ns of
            Parsed ns' \<Rightarrow> consume ps extra ts' ns'
          | Exits c \<Rightarrow> Exits c
          | Outside \<Rightarrow> Outside)
      | _ \<Rightarrow> Exits 2))"

text \<open>Ambiguous abbreviations are reported before anything else; \<open>ns\<close> holds the defaults.\<close>

definition parse_args :: "parser \<Rightarrow> args \<Rightarrow> string list \<Rightarrow> args parsed" where
  "parse_args p ns argv =
     (if ''--'' \<in> set argv then Outside
      else let ts = map (classify p) argv in
        if Ambiguous \<in> set ts then Exits 2 else consume (positionals p) False ts ns)"

section \<open>Subcommands\<close>

text \<open>
  A parser with required subcommands: the first argument that is no option of the main parser
  names the command, and everything after it belongs to the parser of that command. The main
  parsers of the tools have options with one value only.
\<close>

fun command_line :: "parser \<Rightarrow> (string \<times> parser \<times> args) list \<Rightarrow> bool \<Rightarrow> string list \<Rightarrow> args \<Rightarrow> (string \<times> args) parsed" where
  "command_line p subs extra [] ns = Exits 2"
| "command_line p subs extra [s] ns = (case classify p s of
     Plain c \<Rightarrow> (case map_of subs c of
         None \<Rightarrow> Exits 2
       | Some (q, ds) \<Rightarrow> (case parse_args q ds [] of
           Parsed a \<Rightarrow> if extra then Exits 2 else Parsed (c, ns @ a)
         | Exits e \<Rightarrow> Exits e
         | Outside \<Rightarrow> Outside))
   | Opt opt m None \<Rightarrow> if action opt = Help then Exits 0 else Exits 2
   | _ \<Rightarrow> Exits 2)"
| "command_line p subs extra (s # v # r) ns = (case classify p s of
     Plain c \<Rightarrow> (case map_of subs c of
         None \<Rightarrow> Exits 2
       | Some (q, ds) \<Rightarrow> (case parse_args q ds (v # r) of
           Parsed a \<Rightarrow> if extra then Exits 2 else Parsed (c, ns @ a)
         | Exits e \<Rightarrow> Exits e
         | Outside \<Rightarrow> Outside))
   | Unknown \<Rightarrow> command_line p subs True (v # r) ns
   | Ambiguous \<Rightarrow> Exits 2
   | Opt opt m (Some w) \<Rightarrow> if action opt \<noteq> Store then (if take 2 m = ''--'' then Exits 2 else Outside)
       else (case store_value opt w ns of
           Parsed ns' \<Rightarrow> command_line p subs extra (v # r) ns'
         | Exits e \<Rightarrow> Exits e
         | Outside \<Rightarrow> Outside)
   | Opt opt m None \<Rightarrow> if action opt = Help then Exits 0
       else if action opt \<noteq> Store then Outside
       else (case classify p v of
           Plain _ \<Rightarrow> (case store_value opt v ns of
               Parsed ns' \<Rightarrow> command_line p subs extra r ns'
             | Exits e \<Rightarrow> Exits e
             | Outside \<Rightarrow> Outside)
         | _ \<Rightarrow> Exits 2))"

definition parse_command :: "parser \<Rightarrow> (string \<times> parser \<times> args) list \<Rightarrow> string list \<Rightarrow> (string \<times> args) parsed" where
  "parse_command p subs argv =
     (if ''--'' \<in> set argv then Outside
      else if Ambiguous \<in> classify p ` set argv then Exits 2
      else command_line p subs False argv [])"

section \<open>Common command lines\<close>

lemma classify_plain: "s = [] \<or> hd s \<noteq> CHR ''-'' \<Longrightarrow> classify p s = Plain s"
  by (auto simp: classify_def)

lemma classify_option: "hd n = CHR ''-'' \<Longrightarrow> n \<noteq> [] \<Longrightarrow> named p n = (opt, m) # r \<Longrightarrow> classify p n = Opt opt m None"
  by (simp add: classify_def)

text \<open>Options with the value in the next argument, repeated.\<close>

lemma consume_appends:
  assumes "action opt = Append" and "choices opt = []" and "dget ns (dest opt) = Some (Texts l)"
  shows "consume ps extra (concat (map (\<lambda>v. [Opt opt m None, Plain v]) vs) @ ts) ns =
    consume ps extra ts (if vs = [] then ns else dset (dest opt) (Texts (l @ vs)) ns)"
  using assms(3)
proof (induction vs arbitrary: ns l)
  case (Cons v vs)
  let ?ns = "dset (dest opt) (Texts (l @ [v])) ns"
  have "consume ps extra (concat (map (\<lambda>v. [Opt opt m None, Plain v]) (v # vs)) @ ts) ns =
      consume ps extra (concat (map (\<lambda>v. [Opt opt m None, Plain v]) vs) @ ts) ?ns"
    using assms(1,2) Cons.prems by (simp add: store_value_def)
  also have "\<dots> = consume ps extra ts (if vs = [] then ?ns else dset (dest opt) (Texts ((l @ [v]) @ vs)) ?ns)"
    by (rule Cons.IH) (simp add: dict_simps)
  also have "\<dots> = consume ps extra ts (dset (dest opt) (Texts (l @ v # vs)) ns)"
    by (simp add: update_last)
  finally show ?case by simp
qed simp

end
