(* ===== verification/Bench_Cli.thy ===== *)
theory Bench_Cli
  imports Argparse Benchmark Bench_Logs
begin

text \<open>
  The front of \<^verbatim>\<open>tools/benchmark.py\<close>: the command line, the \<^verbatim>\<open>log\<close> methods of the operations, and
  \<^verbatim>\<open>main\<close>, which prepares, runs and follows one operation. A call of \<^verbatim>\<open>main\<close> is the relation
  between its arguments, the commands it ran and how it ended; a call that waits for ever is in
  no relation to any ending.
\<close>

section \<open>The command line\<close>

definition OPERATIONS :: "string list" where
  "OPERATIONS = [''create'', ''load'', ''sload'', ''execute'', ''delete'']"

definition set_option :: option_spec where
  "set_option = \<lparr>option_names = [''--set'', ''-s''], dest = ''set'', action = Append, choices = []\<rparr>"

definition dry_run_option :: option_spec where
  "dry_run_option = \<lparr>option_names = [''--dry-run''], dest = ''dry_run'', action = Flag, choices = []\<rparr>"

definition logs_per_sec_option :: option_spec where
  "logs_per_sec_option = \<lparr>option_names = [''--logs-per-sec''], dest = ''logs_per_sec'', action = Number, choices = []\<rparr>"

definition bench_parser :: parser where
  "bench_parser = \<lparr>
     options = [help_option, set_option,
       \<lparr>option_names = [''--regions'', ''-r''], dest = ''regions'', action = Many, choices = []\<rparr>,
       dry_run_option,
       \<lparr>option_names = [''--logs-only'', ''-l''], dest = ''logs_only'', action = Flag, choices = []\<rparr>,
       logs_per_sec_option],
     positionals = [(''operation'', OPERATIONS)]\<rparr>"

definition bench_defaults :: args where
  "bench_defaults = [(''set'', Texts []), (''regions'', Missing), (''dry_run'', Bool False),
     (''logs_only'', Bool False), (''logs_per_sec'', Num 0)]"

record bench_options =
  bo_operation :: string
  bo_set :: "string list"
  bo_regions :: "string list"
  bo_dry_run :: bool
  bo_logs_only :: bool
  bo_logs_per_sec :: int

definition texts_of :: "arg_value option \<Rightarrow> string list" where
  "texts_of v = (case v of Some (Texts l) \<Rightarrow> l | _ \<Rightarrow> [])"

definition bench_options_of :: "args \<Rightarrow> bench_options" where
  "bench_options_of ns = \<lparr>
     bo_operation = (case dget ns ''operation'' of Some (Text s) \<Rightarrow> s | _ \<Rightarrow> []),
     bo_set = texts_of (dget ns ''set''), bo_regions = texts_of (dget ns ''regions''),
     bo_dry_run = (dget ns ''dry_run'' = Some (Bool True)),
     bo_logs_only = (dget ns ''logs_only'' = Some (Bool True)),
     bo_logs_per_sec = (case dget ns ''logs_per_sec'' of Some (Num i) \<Rightarrow> i | _ \<Rightarrow> 0)\<rparr>"

definition bench_cli :: "string list \<Rightarrow> bench_options parsed" where
  "bench_cli argv = (case parse_args bench_parser bench_defaults argv of
     Parsed ns \<Rightarrow> Parsed (bench_options_of ns)
   | Exits c \<Rightarrow> Exits c
   | Outside \<Rightarrow> Outside)"

section \<open>The log methods\<close>

type_synonym job = "string \<times> string \<times> string"

text \<open>Namespace, region and job of every log an operation follows; \<open>None\<close> when it follows nothing.\<close>

definition job_of :: "string \<Rightarrow> string \<times> namespace_info \<Rightarrow> job" where
  "job_of j = (\<lambda>(n, info). (n, ni_region info, j))"

definition create_jobs :: "operation \<Rightarrow> string list \<Rightarrow> job list option res" where
  "create_jobs op rs = rbind (global_name op) (\<lambda>region.
     if \<not> selected rs region then Inr None
     else Inr (Some [(''global'', region, ''create-load'')]))"

definition sload_jobs :: "operation \<Rightarrow> string list \<Rightarrow> job list option res" where
  "sload_jobs op rs = rbind (global_name op) (\<lambda>region.
     if \<not> selected rs region then Inr None
     else Inr (Some [(''global'', region, ''create-load'')]))"

definition load_jobs :: "operation \<Rightarrow> string list \<Rightarrow> job list option res" where
  "load_jobs op rs = (if op_namespaces op = [] then Inl no_workers
     else Inr (Some (map (job_of ''create-load'')
       (filter (\<lambda>(n, info). selected rs (ni_region info)) (op_namespaces op)))))"

definition execute_jobs :: "operation \<Rightarrow> string list \<Rightarrow> job list option res" where
  "execute_jobs op rs = (if op_namespaces op = [] then Inl no_workers
     else Inr (Some (map (job_of ''execute'') (without_global op rs))))"

text \<open>
  The jobs are looked up in a pool that is left when all lookups are done, so one that waits for
  ever blocks the rest; then the first exception in order is raised.
\<close>

definition open_streams :: "(job \<Rightarrow> stream job_api) \<Rightarrow> bool \<Rightarrow> job list \<Rightarrow> stream list res option" where
  "open_streams api dry_run jobs =
     (let rs = map (\<lambda>(n, r, j). get_job_logs (api (n, r, j)) (\<lambda>t. [Inr t]) n r j dry_run) jobs
      in if None \<in> set rs then None else Some (rmap the rs))"

definition log_callback :: "string \<Rightarrow> job list \<Rightarrow> nat \<Rightarrow> string \<Rightarrow> totals \<Rightarrow> totals res" where
  "log_callback name jobs =
     (if name = ''execute'' then parse_and_add (\<lambda>i. fst (jobs ! i) @ ''|execute'') else (\<lambda>i l t. Inr t))"

type_synonym bench_result = "(string, pval) dict"

text \<open>Opening the logs and following them to the exit event.\<close>

definition follow_jobs :: "(job \<Rightarrow> stream job_api) \<Rightarrow> string \<Rightarrow> operation \<Rightarrow> job list option res \<Rightarrow> bench_result option res \<Rightarrow> bool" where
  "follow_jobs api name op js r \<longleftrightarrow> (case js of
     Inl e \<Rightarrow> r = Inl e
   | Inr None \<Rightarrow> r = Inr None
   | Inr (Some jobs) \<Rightarrow> (case open_streams api (op_dry_run op) jobs of
       None \<Rightarrow> False
     | Some (Inl e) \<Rightarrow> r = Inl e
     | Some (Inr streams) \<Rightarrow>
         (\<exists>f. log_steps (log_callback name jobs) (print_logs streams no_totals) f \<and> exit_event f \<and>
           r = Inr (if name = ''execute'' then Some (execute_result (result f)) else None))))"

definition create_log :: "(job \<Rightarrow> stream job_api) \<Rightarrow> operation \<Rightarrow> string list \<Rightarrow> bench_result option res \<Rightarrow> bool" where
  "create_log api op rs r = follow_jobs api ''create'' op (create_jobs op rs) r"

definition sload_log :: "(job \<Rightarrow> stream job_api) \<Rightarrow> operation \<Rightarrow> string list \<Rightarrow> bench_result option res \<Rightarrow> bool" where
  "sload_log api op rs r = follow_jobs api ''sload'' op (sload_jobs op rs) r"

definition load_log :: "(job \<Rightarrow> stream job_api) \<Rightarrow> operation \<Rightarrow> string list \<Rightarrow> bench_result option res \<Rightarrow> bool" where
  "load_log api op rs r = follow_jobs api ''load'' op (load_jobs op rs) r"

definition execute_log :: "(job \<Rightarrow> stream job_api) \<Rightarrow> operation \<Rightarrow> string list \<Rightarrow> bench_result option res \<Rightarrow> bool" where
  "execute_log api op rs r = follow_jobs api ''execute'' op (execute_jobs op rs) r"

text \<open>\<^verbatim>\<open>Delete\<close> inherits the method of \<^verbatim>\<open>Operation\<close>, which returns \<open>None\<close>.\<close>

definition log_ends :: "(job \<Rightarrow> stream job_api) \<Rightarrow> string \<Rightarrow> operation \<Rightarrow> string list \<Rightarrow> bench_result option res \<Rightarrow> bool" where
  "log_ends api name op rs r =
     (if name = ''create'' then create_log api op rs r
      else if name = ''sload'' then sload_log api op rs r
      else if name = ''load'' then load_log api op rs r
      else if name = ''execute'' then execute_log api op rs r
      else r = Inr None)"

text \<open>What the methods have in common.\<close>

definition log_jobs :: "string \<Rightarrow> operation \<Rightarrow> string list \<Rightarrow> job list option res" where
  "log_jobs name op rs =
     (if name = ''create'' then create_jobs op rs
      else if name = ''sload'' then sload_jobs op rs
      else if name = ''load'' then load_jobs op rs
      else if name = ''execute'' then execute_jobs op rs
      else Inr None)"

lemma log_ends_eq: "log_ends api name op rs r \<longleftrightarrow> follow_jobs api name op (log_jobs name op rs) r"
proof -
  have "follow_jobs api name op (Inr None) r \<longleftrightarrow> r = Inr None" by (simp add: follow_jobs_def)
  then show ?thesis
    by (auto simp: log_ends_def create_log_def sload_log_def load_log_def execute_log_def log_jobs_def)
qed

section \<open>main\<close>

definition zeros :: bench_result where
  "zeros = [(''throughput'', PInt 0), (''goodput'', PInt 0)]"

text \<open>\<^verbatim>\<open>Operation.run\<close>; \<open>ls\<close> are the commands of the tasks, as in \<open>phases_run\<close>.\<close>

definition run_ends :: "site \<Rightarrow> (job \<Rightarrow> stream job_api) \<Rightarrow> bench_options \<Rightarrow> (nat \<times> event) list list
    \<Rightarrow> bench_result option res \<Rightarrow> bool" where
  "run_ends st api opts ls r \<longleftrightarrow> (case prepare st (bo_set opts) (bo_dry_run opts) of
     Inl e \<Rightarrow> ls = [] \<and> r = Inl e
   | Inr op \<Rightarrow>
       if bo_logs_only opts then ls = [] \<and> log_ends api (bo_operation opts) op (bo_regions opts) r
       else case operation_do (bo_operation opts) st op (bo_regions opts) of
         Inl e \<Rightarrow> ls = [] \<and> r = Inl e
       | Inr ph \<Rightarrow> \<exists>x. phases_run ph ls x \<and> (case x of
             Some e \<Rightarrow> r = Inl e
           | None \<Rightarrow> log_ends api (bo_operation opts) op (bo_regions opts) r))"

text \<open>The result is a non-empty dictionary, so \<^verbatim>\<open>result or {...}\<close> replaces exactly \<open>None\<close>.\<close>

definition result_or_zeros :: "bench_result option \<Rightarrow> bench_result" where
  "result_or_zeros r = (case r of None \<Rightarrow> zeros | Some d \<Rightarrow> if d = [] then zeros else d)"

definition main_ends :: "site \<Rightarrow> (job \<Rightarrow> stream job_api) \<Rightarrow> string list \<Rightarrow> (nat \<times> event) list list
    \<Rightarrow> bench_result res \<Rightarrow> bool" where
  "main_ends st api argv ls r \<longleftrightarrow> (case bench_cli argv of
     Parsed opts \<Rightarrow> (\<exists>x. run_ends st api opts ls x \<and> r = map_sum id result_or_zeros x)
   | Exits c \<Rightarrow> ls = [] \<and> r = Inl (SystemExit c)
   | Outside \<Rightarrow> False)"

section \<open>Parsing the runner's command lines\<close>

lemma classify_set: "classify bench_parser ''-s'' = Opt set_option ''-s'' None"
  by (simp add: classify_def named_def bench_parser_def help_option_def set_option_def
      dry_run_option_def logs_per_sec_option_def)

lemma classify_dry_run: "classify bench_parser ''--dry-run'' = Opt dry_run_option ''--dry-run'' None"
  by (simp add: classify_def named_def bench_parser_def help_option_def set_option_def
      dry_run_option_def logs_per_sec_option_def)

lemma classify_logs_per_sec: "classify bench_parser ''--logs-per-sec'' = Opt logs_per_sec_option ''--logs-per-sec'' None"
  by (simp add: classify_def named_def bench_parser_def help_option_def set_option_def
      dry_run_option_def logs_per_sec_option_def)

definition plain :: "string \<Rightarrow> bool" where
  "plain s \<longleftrightarrow> s = [] \<or> hd s \<noteq> CHR ''-''"

lemma classify_sets:
  "\<forall>s \<in> set ss. plain s \<Longrightarrow> map (classify bench_parser) (concat (map (\<lambda>s. [''-s'', s]) ss)) =
     concat (map (\<lambda>v. [Opt set_option ''-s'' None, Plain v]) ss)"
  by (induction ss) (simp_all add: classify_set classify_plain plain_def)

lemma classify_int: "classify bench_parser (show_int i) = Plain (show_int i)"
proof (cases "0 \<le> i")
  case True
  obtain c r where c: "show_nat (nat i) = c # r" "is_digit c"
    using show_nat_props [of "nat i"] by (cases "show_nat (nat i)") auto
  then show ?thesis using True is_digit_not_special [of c] by (simp add: show_int_def classify_def)
next
  case False
  define s where "s = show_nat (nat (- i))"
  have s: "s \<noteq> []" "list_all is_digit s" using show_nat_props [of "nat (- i)"] by (simp_all add: s_def)
  then obtain c r where c: "s = c # r" "is_digit c" by (cases s) auto
  have d: "c \<noteq> CHR ''h''" "c \<noteq> CHR ''s''" "c \<noteq> CHR ''r''" "c \<noteq> CHR ''l''" "c \<noteq> CHR ''-''"
    using c(2) by (auto simp: is_digit_def)
  have "CHR ''='' \<notin> set s" using s(2) by (auto simp: list_all_iff is_digit_def)
  then have e: "CHR ''='' \<notin> set (CHR ''-'' # s)" by simp
  have n: "named bench_parser (CHR ''-'' # s) = []"
    using d by (auto simp: named_def bench_parser_def help_option_def set_option_def
      dry_run_option_def logs_per_sec_option_def c(1))
  have a: "abbreviations bench_parser (CHR ''-'' # s) = []"
    using d by (auto simp: abbreviations_def bench_parser_def help_option_def set_option_def
      dry_run_option_def logs_per_sec_option_def c(1) numeral_2_eq_2)
  have "classify bench_parser (CHR ''-'' # s) = Plain (CHR ''-'' # s)"
    using s e by (simp add: classify_def n a is_negative_number_def)
  then show ?thesis using False by (simp add: show_int_def s_def)
qed

definition render :: "string \<Rightarrow> int option \<Rightarrow> string list \<Rightarrow> bool \<Rightarrow> string list" where
  "render name rate ss dry_run = name # (case rate of None \<Rightarrow> [] | Some n \<Rightarrow> [''--logs-per-sec'', show_int n]) @
     concat (map (\<lambda>s. [''-s'', s]) ss) @ (if dry_run then [''--dry-run''] else [])"

lemma render_tokens:
  assumes "name \<in> set OPERATIONS" and "\<forall>s \<in> set ss. plain s"
  shows "map (classify bench_parser) (render name rate ss dry_run) = Plain name #
    (case rate of None \<Rightarrow> [] | Some n \<Rightarrow> [Opt logs_per_sec_option ''--logs-per-sec'' None, Plain (show_int n)]) @
    concat (map (\<lambda>v. [Opt set_option ''-s'' None, Plain v]) ss) @
    (if dry_run then [Opt dry_run_option ''--dry-run'' None] else [])"
proof -
  have "hd name \<noteq> CHR ''-''" using assms(1) by (auto simp: OPERATIONS_def)
  then have "classify bench_parser name = Plain name" by (simp add: classify_plain)
  then show ?thesis
    using assms(2) by (simp add: render_def classify_sets classify_dry_run classify_logs_per_sec classify_int split: option.split)
qed

lemma render_no_dashes:
  assumes "name \<in> set OPERATIONS" and "\<forall>s \<in> set ss. plain s"
  shows "''--'' \<notin> set (render name rate ss dry_run)"
proof -
  have dash: "CHR ''-'' \<notin> set (show_nat m)" for m
    by (auto dest!: show_nat_digits simp: is_digit_def)
  have "''--'' \<noteq> show_int n" for n
  proof
    assume e: "''--'' = show_int n"
    show False
    proof (cases "n < 0")
      case True
      with e have "show_nat (nat (- n)) = ''-''" by (simp add: show_int_def)
      with dash [of "nat (- n)"] show False by simp
    next
      case False
      with e have "show_nat (nat n) = ''--''" by (simp add: show_int_def)
      with dash [of "nat n"] show False by simp
    qed
  qed
  moreover have "''--'' \<noteq> name" using assms(1) by (auto simp: OPERATIONS_def)
  ultimately show ?thesis
    using assms(2) by (auto simp: render_def plain_def split: option.splits)
qed

lemma bench_cli_render:
  assumes "name \<in> set OPERATIONS" and "\<forall>s \<in> set ss. plain s"
  shows "bench_cli (render name rate ss dry_run) = Parsed \<lparr>bo_operation = name, bo_set = ss, bo_regions = [],
    bo_dry_run = dry_run, bo_logs_only = False, bo_logs_per_sec = (case rate of None \<Rightarrow> 0 | Some n \<Rightarrow> n)\<rparr>"
proof -
  let ?sets = "concat (map (\<lambda>v. [Opt set_option ''-s'' None, Plain v]) ss)"
  let ?dry = "if dry_run then [Opt dry_run_option ''--dry-run'' None] else []"
  let ?n0 = "dset ''operation'' (Text name) bench_defaults"
  let ?n1 = "case rate of None \<Rightarrow> ?n0 | Some n \<Rightarrow> dset ''logs_per_sec'' (Num n) ?n0"
  let ?n2 = "if ss = [] then ?n1 else dset ''set'' (Texts ss) ?n1"
  let ?n3 = "if dry_run then dset ''dry_run'' (Bool True) ?n2 else ?n2"
  have u: "CHR ''_'' \<notin> set (show_int n)" for n
    by (auto dest!: show_int_chars simp: is_digit_def)
  have ch: "OPERATIONS \<noteq> []" by (simp add: OPERATIONS_def)
  have "parse_args bench_parser bench_defaults (render name rate ss dry_run) =
      consume (positionals bench_parser) False (map (classify bench_parser) (render name rate ss dry_run)) bench_defaults"
    using render_no_dashes [OF assms] unfolding parse_args_def render_tokens [OF assms]
    by (cases rate) (simp_all add: image_iff)
  also have "\<dots> = consume [] False ((case rate of None \<Rightarrow> [] | Some n \<Rightarrow>
      [Opt logs_per_sec_option ''--logs-per-sec'' None, Plain (show_int n)]) @ ?sets @ ?dry) ?n0"
    using assms(1) ch unfolding render_tokens [OF assms] by (simp add: bench_parser_def)
  also have "\<dots> = consume [] False (?sets @ ?dry) ?n1"
    by (simp add: logs_per_sec_option_def store_value_def u split: option.split)
  also have "\<dots> = consume [] False ?dry ?n2"
  proof -
    have "dget ?n1 (dest set_option) = Some (Texts [])"
      by (cases rate) (simp_all add: set_option_def, simp_all add: bench_defaults_def)
    from consume_appends [OF _ _ this, of "[]" False "''-s''" ss ?dry] show ?thesis
      by (simp add: set_option_def)
  qed
  also have "\<dots> = Parsed ?n3" by (simp add: dry_run_option_def)
  finally have p: "parse_args bench_parser bench_defaults (render name rate ss dry_run) = Parsed ?n3" .
  have d: "dget bench_defaults ''set'' = Some (Texts [])" "dget bench_defaults ''regions'' = Some Missing"
    "dget bench_defaults ''dry_run'' = Some (Bool False)" "dget bench_defaults ''logs_only'' = Some (Bool False)"
    "dget bench_defaults ''logs_per_sec'' = Some (Num 0)"
    by (simp_all add: bench_defaults_def)
  show ?thesis
    unfolding bench_cli_def p by (cases rate) (simp_all add: bench_options_of_def texts_of_def d)
qed

section \<open>When following the logs ends\<close>

lemma open_streams_dry:
  "open_streams api True jobs = Some (Inr (map (\<lambda>(n, r, j). [Inr (dry_log j r)]) jobs))"
proof -
  have "rmap the (map (\<lambda>(n, r, j). get_job_logs (api (n, r, j)) (\<lambda>t. [Inr t]) n r j True) jobs) =
      Inr (map (\<lambda>(n, r, j). [Inr (dry_log j r)]) jobs)"
    by (induction jobs) (auto simp: get_job_logs_def)
  moreover have "None \<notin> set (map (\<lambda>(n, r, j). get_job_logs (api (n, r, j)) (\<lambda>t. [Inr t]) n r j True) jobs)"
    by (auto simp: get_job_logs_def)
  ultimately show ?thesis by (simp only: open_streams_def Let_def if_False)
qed

lemma log_callback_total: "\<not> isl (log_callback name jobs i l t)"
  by (simp add: log_callback_def parse_and_add_def)

text \<open>With clean streams, and at least one, following ends with the event set.\<close>

lemma follow_finishes:
  assumes "streams \<noteq> []" and "\<forall>strm \<in> set streams. clean strm" and "\<And>i l s. \<not> isl (callback i l s)"
  shows "\<exists>f. log_steps callback (print_logs streams s) f \<and> exit_event f"
proof -
  obtain f where f: "log_steps callback (print_logs streams s) f" "stuck f" using log_terminates by blast
  have "\<forall>r \<in> set (readers f). clean_reader r" by (rule clean_reachable [OF assms(3,2) f(1)])
  from clean_stuck_ended [OF f(2) this] exit_event_iff [OF f(1)] assms(1) f(1) show ?thesis by blast
qed

lemma log_ends_dry:
  assumes "op_dry_run op" and "log_jobs name op rs \<noteq> Inr (Some [])"
  shows "\<exists>r. log_ends api name op rs r"
proof (cases "log_jobs name op rs")
  case (Inl e)
  then show ?thesis by (simp add: log_ends_eq follow_jobs_def)
next
  case (Inr x)
  show ?thesis
  proof (cases x)
    case None
    with Inr show ?thesis by (simp add: log_ends_eq follow_jobs_def)
  next
    case (Some jobs)
    let ?streams = "map (\<lambda>(n, r, j). [Inr (dry_log j r)]) jobs"
    have "?streams \<noteq> []" using assms(2) Inr Some by auto
    moreover have "\<forall>strm \<in> set ?streams. clean strm" by (auto simp: clean_def)
    ultimately obtain f where "log_steps (log_callback name jobs) (print_logs ?streams no_totals) f" "exit_event f"
      using follow_finishes [of ?streams "log_callback name jobs" no_totals] log_callback_total by blast
    with Inr Some assms(1) show ?thesis
      unfolding log_ends_eq follow_jobs_def by (simp add: open_streams_dry) blast
  qed
qed

lemma log_never_ends:
  assumes "log_jobs name op rs = Inr (Some [])"
  shows "\<not> log_ends api name op rs r"
proof -
  have "open_streams api (op_dry_run op) [] = Some (Inr [])" by (simp add: open_streams_def)
  then show ?thesis
    using exit_event_iff [of "log_callback name []" "[]" no_totals] assms by (auto simp: log_ends_eq follow_jobs_def)
qed

lemma prepare_dry_run: "prepare st sets dry = Inr op \<Longrightarrow> op_dry_run op = dry"
  by (auto simp: prepare_def rbind_eq_Inr)

text \<open>The operations whose follower may wait for ever: those with namespaces, none of them selected.\<close>

definition nothing_to_follow :: "string \<Rightarrow> operation \<Rightarrow> string list \<Rightarrow> bool" where
  "nothing_to_follow name op rs \<longleftrightarrow> op_namespaces op \<noteq> [] \<and>
     (name = ''load'' \<and> (\<forall>(n, info) \<in> set (op_namespaces op). \<not> selected rs (ni_region info)) \<or>
      name = ''execute'' \<and> (\<forall>(n, info) \<in> set (op_namespaces op). n = ''global'' \<or> \<not> selected rs (ni_region info)))"

lemma filter_none: "filter (\<lambda>(n, x). P n x) l = [] \<longleftrightarrow> (\<forall>(n, x) \<in> set l. \<not> P n x)"
  by (auto simp: filter_empty_conv)

lemma log_jobs_empty: "log_jobs name op rs = Inr (Some []) \<longleftrightarrow> nothing_to_follow name op rs"
proof -
  have "create_jobs op rs \<noteq> Inr (Some [])" "sload_jobs op rs \<noteq> Inr (Some [])"
    by (cases "global_name op"; simp add: create_jobs_def sload_jobs_def)+
  then show ?thesis
    by (auto simp: log_jobs_def load_jobs_def execute_jobs_def nothing_to_follow_def without_global_def filter_none)
qed

text \<open>With no namespace to run, \<^verbatim>\<open>execute\<close> fails on its empty thread pool before it would look for a log.\<close>

lemma execute_fails_first:
  assumes "nothing_to_follow name op rs" and "name \<noteq> ''load''" and "operation_do name st op rs = Inr ph" and "phases_run ph ls x"
  shows "x \<noteq> None"
proof -
  have n: "name = ''execute''" and e: "\<forall>(n, info) \<in> set (op_namespaces op). n = ''global'' \<or> \<not> selected rs (ni_region info)"
    using assms(1,2) by (auto simp: nothing_to_follow_def)
  have "execute_do st op rs = Inr ph" using assms(3) by (simp add: operation_do_def n)
  from execute_without_namespaces [OF this e] assms(4) show ?thesis by simp
qed

lemma run_ends_after:
  assumes "prepare st (bo_set opts) True = Inr op" and "bo_dry_run opts" and "\<not> bo_logs_only opts"
    and "\<not> (nothing_to_follow (bo_operation opts) op (bo_regions opts) \<and> bo_operation opts = ''load'')"
    and "operation_do (bo_operation opts) st op (bo_regions opts) = Inr ph" and "phases_run ph ls y"
  shows "\<exists>x. run_ends st api opts ls x"
proof (cases y)
  case (Some e)
  then have "run_ends st api opts ls (Inl e)" using assms(3,5,6) by (auto simp: run_ends_def assms(1,2))
  then show ?thesis by blast
next
  case None
  with execute_fails_first [OF _ _ assms(5,6)] assms(4)
  have "\<not> nothing_to_follow (bo_operation opts) op (bo_regions opts)" by blast
  then obtain x where "log_ends api (bo_operation opts) op (bo_regions opts) x"
    using log_ends_dry [of op _ _ api] prepare_dry_run [OF assms(1)] by (auto simp: log_jobs_empty)
  then have "run_ends st api opts ls x" using assms(3,5,6) None by (auto simp: run_ends_def assms(1,2))
  then show ?thesis by blast
qed

lemma run_ends_dry:
  assumes "prepare st (bo_set opts) True = Inr op" and "bo_dry_run opts"
    and "\<not> (nothing_to_follow (bo_operation opts) op (bo_regions opts) \<and> (bo_operation opts = ''load'' \<or> bo_logs_only opts))"
  shows "\<exists>ls x. run_ends st api opts ls x"
proof (cases "bo_logs_only opts")
  case True
  with assms(3) have "\<not> nothing_to_follow (bo_operation opts) op (bo_regions opts)" by blast
  then obtain x where "log_ends api (bo_operation opts) op (bo_regions opts) x"
    using log_ends_dry [of op _ _ api] prepare_dry_run [OF assms(1)] by (auto simp: log_jobs_empty)
  with True have "run_ends st api opts [] x" by (simp add: run_ends_def assms(1,2))
  then show ?thesis by blast
next
  case False
  show ?thesis
  proof (cases "operation_do (bo_operation opts) st op (bo_regions opts)")
    case (Inl e)
    then have "run_ends st api opts [] (Inl e)" using False by (simp add: run_ends_def assms(1,2))
    then show ?thesis by blast
  next
    case (Inr ph)
    obtain ls y where "phases_run ph ls y" using phases_run_exists by blast
    then show ?thesis using run_ends_after [OF assms(1,2) False _ Inr] assms(3) by blast
  qed
qed

text \<open>In a dry run the logs that are followed are given, one line for each job, and every order of reading them ends
  with the event set, after two steps for each.\<close>

lemma follow_dry:
  assumes "jobs \<noteq> []"
  shows "\<exists>streams. open_streams api True jobs = Some (Inr streams) \<and>
    (\<forall>m f. (log_step (log_callback name jobs) ^^ m) (print_logs streams no_totals) f \<longrightarrow>
       m \<le> 2 * length jobs \<and> (exit_event f \<or> (\<exists>g. log_step (log_callback name jobs) f g)))"
proof -
  let ?streams = "map (\<lambda>(n, r, j). [Inr (dry_log j r)]) jobs"
  have c: "\<forall>strm \<in> set ?streams. clean strm" by (auto simp: clean_def)
  have ends: "exit_event f \<or> (\<exists>g. log_step (log_callback name jobs) f g)"
    if r: "log_steps (log_callback name jobs) (print_logs ?streams no_totals) f" for f
  proof (cases "stuck f")
    case True
    have "\<forall>r \<in> set (readers f). clean_reader r" by (rule clean_reachable [OF log_callback_total c r])
    from clean_stuck_ended [OF True this] exit_event_iff [OF r] assms show ?thesis by simp
  next
    case False
    then show ?thesis using log_progress by blast
  qed
  have p: "pending_all (print_logs ?streams no_totals) = 2 * length jobs"
    by (induction jobs) (simp_all add: pending_all_def print_logs_def split_def)
  have "m \<le> 2 * length jobs" if r: "(log_step (log_callback name jobs) ^^ m) (print_logs ?streams no_totals) f" for m f
    using lf.steps_bound [OF r] unfolding p by simp
  with ends show ?thesis by (intro exI [of _ ?streams]) (auto simp: open_streams_dry rtranclp_power)
qed

lemma load_phases_end:
  assumes "operation_do ''load'' st op rs = Inr ph" and "phases_run ph ls y" and "op_namespaces op \<noteq> []"
  shows "y = None"
  using assms by (auto simp: operation_do_def load_do_def)

lemma run_never_ends:
  assumes "prepare st (bo_set opts) (bo_dry_run opts) = Inr op"
    and "nothing_to_follow (bo_operation opts) op (bo_regions opts)"
    and "bo_operation opts = ''load'' \<or> bo_logs_only opts"
  shows "\<not> run_ends st api opts ls x"
proof
  let ?name = "bo_operation opts" and ?rs = "bo_regions opts"
  have n: "\<not> log_ends api ?name op ?rs z" for z
    using assms(2) by (intro log_never_ends) (simp add: log_jobs_empty)
  assume r: "run_ends st api opts ls x"
  show False
  proof (cases "bo_logs_only opts")
    case True
    then show False using r n by (simp add: run_ends_def assms(1))
  next
    case False
    then have l: "?name = ''load''" using assms(3) by blast
    then obtain ph where ph: "operation_do ''load'' st op ?rs = Inr ph" by (simp add: operation_do_def load_do_def)
    with r False l obtain y where y: "phases_run ph ls y"
      "case y of Some e \<Rightarrow> x = Inl e | None \<Rightarrow> log_ends api ?name op ?rs x"
      by (auto simp: run_ends_def assms(1))
    have "op_namespaces op \<noteq> []" using assms(2) by (simp add: nothing_to_follow_def)
    from load_phases_end [OF ph y(1) this] y(2) n show False by simp
  qed
qed

section \<open>Properties\<close>

text \<open>The command lines the experiment runner and a user write come back as they were meant: the operation,
  the settings in order, the dry run and the log rate, provided no setting starts with a dash (which
  \<^verbatim>\<open>argparse\<close> takes for an option).\<close>

theorem command_line_round_trip:
  assumes "name \<in> set OPERATIONS" and "\<forall>s \<in> set ss. s = [] \<or> hd s \<noteq> CHR ''-''"
  shows "bench_cli (name # (case rate of None \<Rightarrow> [] | Some n \<Rightarrow> [''--logs-per-sec'', show_int n]) @
      concat (map (\<lambda>s. [''-s'', s]) ss) @ (if dry_run then [''--dry-run''] else [])) =
    Parsed \<lparr>bo_operation = name, bo_set = ss, bo_regions = [], bo_dry_run = dry_run, bo_logs_only = False,
      bo_logs_per_sec = (case rate of None \<Rightarrow> 0 | Some n \<Rightarrow> n)\<rparr>"
  using bench_cli_render [OF assms(1), of ss rate dry_run] assms(2) by (simp only: plain_def render_def)

lemma command_line_round_trip_witness:
  "bench_cli [''execute'', ''--logs-per-sec'', ''-5'', ''-s'', ''a=1'', ''--dry-run''] =
     Parsed \<lparr>bo_operation = ''execute'', bo_set = [''a=1''], bo_regions = [], bo_dry_run = True,
       bo_logs_only = False, bo_logs_per_sec = -5\<rparr>"
proof -
  have "''execute'' \<in> set OPERATIONS" by (simp add: OPERATIONS_def)
  moreover have "show_int (-5) = ''-5''" by (simp add: show_int_def str_simps)
  ultimately show ?thesis
    using command_line_round_trip [of "''execute''" "[''a=1'']" "Some (-5)" True] by simp
qed

text \<open>C16 When the script ends. With namespaces in the configuration of which the region filter selects none, \<^verbatim>\<open>load\<close> has no log
  to follow and waits for ever, in a dry run too, and so does \<^verbatim>\<open>execute\<close> if only its logs are asked for. Every other dry run ends, for
  whatever complete run of its tasks; and when it follows logs, every order of reading them reaches the exit event, after at most two
  steps for each log.\<close>

theorem main_ends_unless_nothing_to_follow:
  assumes "bench_cli argv = Parsed opts" and "prepare st (bo_set opts) (bo_dry_run opts) = Inr op"
  shows "let name = bo_operation opts; rs = bo_regions opts;
      waits = (nothing_to_follow name op rs \<and> (name = ''load'' \<or> bo_logs_only opts)) in
    (waits \<longrightarrow> (\<forall>ls r. \<not> main_ends st api argv ls r)) \<and>
    (bo_dry_run opts \<and> \<not> waits \<longrightarrow>
      (\<exists>ls r. main_ends st api argv ls r) \<and>
      (\<forall>ph ls x. \<not> bo_logs_only opts \<and> operation_do name st op rs = Inr ph \<and> phases_run ph ls x \<longrightarrow> (\<exists>r. main_ends st api argv ls r)) \<and>
      (\<forall>jobs. log_jobs name op rs = Inr (Some jobs) \<and> \<not> nothing_to_follow name op rs \<longrightarrow>
        (\<exists>streams. open_streams api True jobs = Some (Inr streams) \<and>
          (\<forall>m f. (log_step (log_callback name jobs) ^^ m) (print_logs streams no_totals) f \<longrightarrow>
            m \<le> 2 * length jobs \<and> (exit_event f \<or> (\<exists>g. log_step (log_callback name jobs) f g))))))"
proof -
  let ?name = "bo_operation opts" and ?rs = "bo_regions opts"
  let ?waits = "nothing_to_follow ?name op ?rs \<and> (?name = ''load'' \<or> bo_logs_only opts)"
  have m: "main_ends st api argv ls r \<longleftrightarrow> (\<exists>x. run_ends st api opts ls x \<and> r = map_sum id result_or_zeros x)" for ls r
    using assms(1) by (simp add: main_ends_def)
  have never: "?waits \<Longrightarrow> \<not> main_ends st api argv ls r" for ls r
    using run_never_ends [OF assms(2)] unfolding m by blast
  have dry: "\<exists>ls r. main_ends st api argv ls r" if "bo_dry_run opts" "\<not> ?waits"
    using run_ends_dry [of st opts op api] that assms(2) unfolding m by simp
  have every: "\<exists>r. main_ends st api argv ls r" if "bo_dry_run opts" "\<not> ?waits"
      "\<not> bo_logs_only opts \<and> operation_do ?name st op ?rs = Inr ph \<and> phases_run ph ls x" for ph ls x
    using run_ends_after [of st opts op ph ls x api] that assms(2) unfolding m by simp
  have follow: "\<exists>streams. open_streams api True jobs = Some (Inr streams) \<and>
      (\<forall>m f. (log_step (log_callback ?name jobs) ^^ m) (print_logs streams no_totals) f \<longrightarrow>
        m \<le> 2 * length jobs \<and> (exit_event f \<or> (\<exists>g. log_step (log_callback ?name jobs) f g)))"
    if "log_jobs ?name op ?rs = Inr (Some jobs) \<and> \<not> nothing_to_follow ?name op ?rs" for jobs
    by (rule follow_dry) (use that log_jobs_empty [of ?name op ?rs] in auto)
  show ?thesis unfolding Let_def
    by (intro conjI impI allI) (use never dry every follow in blast)+
qed

definition sample_job_api :: "job \<Rightarrow> stream job_api" where
  "sample_job_api j = \<lparr>region_config = Inr (), job_labels = Inr [], pods_reply = (\<lambda>l k. Inr []),
     log_reply = (\<lambda>p k. Inr []), body_message = Inr\<rparr>"

lemma sample_prepared: "map_sum id op_namespaces (prepare sample_site [] dry) = Inr sample_namespaces"
  by code_simp

lemma sample_command_lines:
  "bench_cli [''create'', ''--dry-run''] = Parsed \<lparr>bo_operation = ''create'', bo_set = [], bo_regions = [],
     bo_dry_run = True, bo_logs_only = False, bo_logs_per_sec = 0\<rparr>"
  "bench_cli [''load'', ''--dry-run'', ''-r'', ''asia''] = Parsed \<lparr>bo_operation = ''load'', bo_set = [], bo_regions = [''asia''],
     bo_dry_run = True, bo_logs_only = False, bo_logs_per_sec = 0\<rparr>"
  by code_simp+

lemma main_ends_unless_nothing_to_follow_witness:
  "(\<exists>ls r. main_ends sample_site sample_job_api [''create'', ''--dry-run''] ls r) \<and>
   \<not> main_ends sample_site sample_job_api [''load'', ''--dry-run'', ''-r'', ''asia''] [] (Inr [])"
proof
  let ?o = "\<lparr>bo_operation = ''create'', bo_set = [], bo_regions = [],
     bo_dry_run = True, bo_logs_only = False, bo_logs_per_sec = 0\<rparr>"
  obtain op where op: "prepare sample_site (bo_set ?o) (bo_dry_run ?o) = Inr op"
    using sample_prepared [of True] by (cases "prepare sample_site [] True") auto
  have "\<not> nothing_to_follow (bo_operation ?o) op (bo_regions ?o)" by (simp add: nothing_to_follow_def)
  with main_ends_unless_nothing_to_follow [OF sample_command_lines(1) op, of sample_job_api]
  show "\<exists>ls r. main_ends sample_site sample_job_api [''create'', ''--dry-run''] ls r"
    unfolding Let_def by simp
next
  let ?o = "\<lparr>bo_operation = ''load'', bo_set = [], bo_regions = [''asia''],
     bo_dry_run = True, bo_logs_only = False, bo_logs_per_sec = 0\<rparr>"
  obtain op where op: "prepare sample_site (bo_set ?o) (bo_dry_run ?o) = Inr op" "op_namespaces op = sample_namespaces"
    using sample_prepared [of True] by (cases "prepare sample_site [] True") auto
  have "nothing_to_follow (bo_operation ?o) op (bo_regions ?o)"
    by (simp add: op(2) sample_namespaces_def nothing_to_follow_def selected_def)
  with main_ends_unless_nothing_to_follow [OF sample_command_lines(2) op(1), of sample_job_api]
  show "\<not> main_ends sample_site sample_job_api [''load'', ''--dry-run'', ''-r'', ''asia''] [] (Inr [])"
    unfolding Let_def by simp
qed

end
