(* ===== verification/Session.thy ===== *)
theory Session
  imports Runner Bench_Cli
begin

text \<open>
  The experiment runner on top of the benchmark tool: \<^verbatim>\<open>experiment.py\<close> calls \<^verbatim>\<open>benchmark.main\<close>
  with the command lines it builds. The environment of \<open>Runner\<close> is constrained to behave as
  \<open>Bench_Cli\<close> says, and what every such call keeps is lifted to whole sessions.
\<close>

section \<open>Environments that behave like the benchmark tool\<close>

text \<open>
  The world of a session is the list of what every call of \<^verbatim>\<open>benchmark.main\<close> ran. An environment
  conforms when each call ends as \<open>main_ends\<close> allows; a call that would wait for ever may end
  in any way, but runs nothing that is recorded.
\<close>

type_synonym call_trace = "(nat \<times> event) list list list"

definition conforms :: "site \<Rightarrow> (job \<Rightarrow> stream job_api) \<Rightarrow> call_trace env \<Rightarrow> bool" where
  "conforms st api env \<longleftrightarrow>
     (\<forall>argv w. (\<exists>ls. main_ends st api argv ls (fst (bench env argv w)) \<and> snd (bench env argv w) = w @ [ls]) \<or>
       ((\<forall>ls r. \<not> main_ends st api argv ls r) \<and> snd (bench env argv w) = w)) \<and>
     (\<forall>w. snd (ask env w) = w \<and> snd (check_connection env w) = w)"

lemma conforms_exists: "\<exists>env. conforms st api env"
proof -
  define pick where "pick = (\<lambda>argv. SOME x. main_ends st api argv (fst x) (snd x))"
  define f where "f = (\<lambda>argv w. if \<exists>ls r. main_ends st api argv ls r
    then (snd (pick argv), w @ [fst (pick argv)]) else (Inl AssertionError, w))"
  have "main_ends st api argv (fst (pick argv)) (snd (pick argv))" if "\<exists>ls r. main_ends st api argv ls r" for argv
    unfolding pick_def by (rule someI_ex) (use that in auto)
  then have "conforms st api \<lparr>bench = f, ask = Pair True, check_connection = Pair True\<rparr>"
    by (auto simp: conforms_def f_def)
  then show ?thesis by blast
qed

text \<open>Every command line of a session is one \<open>render\<close> writes.\<close>

definition session_line :: "bool \<Rightarrow> string list \<Rightarrow> bool" where
  "session_line dry argv \<longleftrightarrow> (\<exists>name rate ss. name \<in> set OPERATIONS \<and> (\<forall>s \<in> set ss. plain s) \<and> argv = render name rate ss dry)"

definition plain_item :: "bench_item \<Rightarrow> bool" where
  "plain_item item \<longleftrightarrow> (\<exists>ss. (\<forall>s \<in> set ss. plain s) \<and> bi_args item = create_set_arg ss)"

lemma create_set_arg_append: "create_set_arg (xs @ ys) = create_set_arg xs @ create_set_arg ys"
  by (simp add: create_set_arg_def)

lemma session_lines:
  assumes "plain_item item" and "\<forall>s \<in> set (o_set opt). plain s" and "name \<in> set OPERATIONS"
  shows "session_line (o_dry_run opt) (name # common_args opt item)"
    and "session_line (o_dry_run opt) (name # ''--logs-per-sec'' # show_int n # common_args opt item)"
proof -
  obtain ss where ss: "\<forall>s \<in> set ss. plain s" "bi_args item = create_set_arg ss"
    using assms(1) by (auto simp: plain_item_def)
  have "common_args opt item = create_set_arg (ss @ o_set opt) @ (if o_dry_run opt then [''--dry-run''] else [])"
    by (simp add: common_args_def ss(2) create_set_arg_append)
  then have c: "name # common_args opt item = render name None (ss @ o_set opt) (o_dry_run opt)"
    "name # ''--logs-per-sec'' # show_int n # common_args opt item = render name (Some n) (ss @ o_set opt) (o_dry_run opt)"
    by (simp_all add: render_def create_set_arg_def)
  have p: "\<forall>s \<in> set (ss @ o_set opt). plain s" using ss(1) assms(2) by auto
  show "session_line (o_dry_run opt) (name # common_args opt item)"
    and "session_line (o_dry_run opt) (name # ''--logs-per-sec'' # show_int n # common_args opt item)"
    unfolding c session_line_def using assms(3) p by blast+
qed

text \<open>A property of the world that every such call keeps holds after the session.\<close>

definition keeps :: "'w env \<Rightarrow> bool \<Rightarrow> ('w \<Rightarrow> bool) \<Rightarrow> bool" where
  "keeps env dry P \<longleftrightarrow> (\<forall>argv w. session_line dry argv \<longrightarrow> P w \<longrightarrow> P (snd (bench env argv w))) \<and>
     (\<forall>w. P w \<longrightarrow> P (snd (ask env w)))"

lemma call_keeps:
  "keeps env dry P \<Longrightarrow> session_line dry argv \<Longrightarrow> P (rs_world st) \<Longrightarrow> P (rs_world (snd (call env argv st)))"
  by (simp add: keeps_def call_def split_beta)

lemma confirm_keeps: "keeps env dry P \<Longrightarrow> P (rs_world st) \<Longrightarrow> P (rs_world (snd (confirm_phase env opt st)))"
  by (simp add: keeps_def confirm_phase_def split_beta)

lemma load_keeps:
  assumes k: "keeps env (o_dry_run opt) P" and l: "\<And>name. name \<in> set OPERATIONS \<Longrightarrow> session_line (o_dry_run opt) (name # common_args opt item)"
    and p: "P (rs_world st)"
  shows "P (rs_world (snd (load_phase env opt item i n st)))"
proof -
  define loader where "loader = (if o_sload opt then ''sload'' else ''load'')"
  have o: "''create'' \<in> set OPERATIONS" "loader \<in> set OPERATIONS"
    by (simp_all add: OPERATIONS_def loader_def)
  obtain r1 st1 where c1: "call env (''create'' # common_args opt item) st = (r1, st1)" by fastforce
  have p1: "P (rs_world st1)" using call_keeps [OF k l [OF o(1)] p] c1 by simp
  obtain r2 st2 where c2: "call env (loader # common_args opt item) st1 = (r2, st2)"
    by fastforce
  have p2: "P (rs_world st2)" using call_keeps [OF k l [OF o(2)] p1] c2 by simp
  show ?thesis
    using p p1 p2 unfolding load_phase_def loader_def [symmetric]
    by (auto simp: c1 c2 change_record_def split: sum.split)
qed

lemma execute_keeps:
  assumes k: "keeps env (o_dry_run opt) P"
    and l: "session_line (o_dry_run opt) (''execute'' # ''--logs-per-sec'' # show_int (o_logs_per_sec opt) # common_args opt item)"
    and p: "P (rs_world st)"
  shows "P (rs_world (snd (execute_phase env opt item i st)))"
proof -
  obtain r1 st1 where c1: "call env ([''execute'', ''--logs-per-sec'', show_int (o_logs_per_sec opt)] @ common_args opt item) st = (r1, st1)"
    by fastforce
  have "P (rs_world st1)" using call_keeps [OF k l p] c1 by simp
  then show ?thesis unfolding execute_phase_def c1 by (auto simp: change_record_def split: sum.split)
qed

lemma try_keeps:
  assumes "keeps env (o_dry_run opt) P" and "plain_item item" and "\<forall>s \<in> set (o_set opt). plain s" and "P (rs_world st)"
  shows "P (rs_world (snd (try_body env opt item i n st)))"
proof -
  note l = session_lines [OF assms(2,3)]
  obtain o1 st1 where c1: "confirm_phase env opt st = (o1, st1)" by fastforce
  have p1: "P (rs_world st1)" using confirm_keeps [OF assms(1,4), of opt] c1 by simp
  obtain o2 st2 where c2: "load_phase env opt item i n st1 = (o2, st2)" by fastforce
  have p2: "P (rs_world st2)" using load_keeps [OF assms(1) l(1) p1, of i n] c2 by simp
  have "''execute'' \<in> set OPERATIONS" by (simp add: OPERATIONS_def)
  from execute_keeps [OF assms(1) l(2) [OF this] p2] p1 p2 show ?thesis
    by (simp add: try_body_def c1 c2 split: outcome.split)
qed

lemma run_items_keeps:
  assumes "keeps env (o_dry_run opt) P" and "\<forall>s \<in> set (o_set opt). plain s"
  shows "\<forall>item \<in> set items. plain_item item \<Longrightarrow> P (rs_world st) \<Longrightarrow> P (rs_world (snd (run_items env opt n fin items st)))"
proof (induction items arbitrary: st)
  case Nil
  then show ?case by (simp split: option.split)
next
  case (Cons item items)
  obtain i p where g: "get_or_insert (bi_metadata item) (rs_progress st) = (i, p)" by fastforce
  let ?st = "st\<lparr>rs_progress := p\<rparr>"
  obtain o1 st1 where t: "try_body env opt item i n ?st = (o1, st1)" by fastforce
  have "P (rs_world st1)" using try_keeps [OF assms(1) _ assms(2), of item ?st i n] Cons.prems t by simp
  then have w: "P (rs_world (on_success i st1))" "P (rs_world (on_error i st1))" "P (rs_world st1)" "P (rs_world ?st)"
    using Cons.prems by (simp_all add: on_success_def on_error_def save_state_def change_record_def)
  have items: "\<forall>item \<in> set items. plain_item item" using Cons.prems by simp
  show ?case
    using Cons.IH [OF items w(1)] Cons.IH [OF items w(2)] Cons.IH [OF items w(4)] w
    by (simp add: g t Let_def split: option.split outcome.split)
qed

text \<open>The items of the generator are plain when no parameter name starts with a dash.\<close>

lemma plain_setting: "plain k \<Longrightarrow> k \<noteq> [] \<Longrightarrow> plain (k @ v)"
  by (simp add: plain_def)

lemma plain_named: "plain k \<Longrightarrow> plain (k @ ''='' @ v)"
  by (cases k) (simp_all add: plain_def)

lemma one_benchmark_plain:
  assumes "one_benchmark e pre suf base tags c = Inr item" and "map fst base = base_keys"
    and "\<forall>p \<in> set (dkeys c). plain p"
  shows "plain_item item"
proof -
  obtain c' where c': "replace_values (e_replace e) c = Inr c'"
    "bi_args item = base_args base @ concat (map (\<lambda>(p, n). set_flag p (escape (value_of n))) c')
       @ set_flag ''tag'' (bi_tag item)"
    using one_benchmark_Inr [OF assms(1)] by metis
  let ?ss = "map (\<lambda>(k, v). k @ ''='' @ py_str v) base @ map (\<lambda>(p, n). p @ ''='' @ escape (value_of n)) c' @
    [''tag'' @ ''='' @ bi_tag item]"
  have a: "bi_args item = create_set_arg ?ss"
    unfolding c'(2) by (simp add: create_set_arg_def base_args_def set_flag_def comp_def case_prod_unfold)
  have "\<forall>p \<in> set (dkeys c'). plain p" using assms(3) by (simp only: replace_values_dkeys [OF c'(1)])
  then have "\<forall>(p, n) \<in> set c'. plain p" by auto
  moreover have "\<forall>(k, v) \<in> set base. plain k"
  proof -
    have "\<forall>k \<in> set (map fst base). plain k" unfolding assms(2) by (simp add: base_keys_def plain_def)
    then show ?thesis by (auto simp: split_beta)
  qed
  moreover have "plain ''tag''" by (simp add: plain_def)
  ultimately have "\<forall>s \<in> set ?ss. plain s" using plain_named by fastforce
  with a show ?thesis unfolding plain_item_def by blast
qed

definition plain_names :: "exp_file \<Rightarrow> bool" where
  "plain_names e \<longleftrightarrow> (\<forall>pk \<in> set (case e_param_keys e of None \<Rightarrow> [] | Some pks \<Rightarrow> pks).
     fst (key_entry pk) = [] \<or> hd (fst (key_entry pk)) \<noteq> CHR ''-'')"

lemma base_values_keys: "base_values e = Inr base \<Longrightarrow> map fst base = base_keys"
proof -
  have "rmap (\<lambda>k. rbind (scalar e k) (\<lambda>v. Inr (k, v))) ks = Inr base \<Longrightarrow> map fst base = ks" for ks
    by (induction ks arbitrary: base) (auto simp: rbind_eq_Inr)
  then show "base_values e = Inr base \<Longrightarrow> map fst base = base_keys" unfolding base_values_def by blast
qed

lemma generated_plain:
  assumes "plain_names e" and "benchmark_args e pre suf = (items, fin)"
  shows "\<forall>item \<in> set items. plain_item item"
proof (cases "set_up e")
  case (Inl x)
  with assms(2) show ?thesis by (simp add: benchmark_args_def)
next
  case (Inr s)
  then obtain base pks pvs where s: "base_values e = Inr base" "e_param_keys e = Some pks"
    "s = \<lparr>s_base = base, s_keys = build_keys pks, s_tags = tag_params (build_keys pks) pvs,
      s_combinations = map (zip (dkeys (build_keys pks)))
        (product_lists (map (candidates pvs) (dkeys (build_keys pks))))\<rparr>"
    by (rule set_up_eq)
  have "plain k" if "k \<in> set (dkeys (build_keys pks))" for k
    using that assms(1) build_keys_set [of pks] by (auto simp: plain_names_def s(2) plain_def)
  then have k: "\<forall>p \<in> set (dkeys c). plain p" if "c \<in> set (s_combinations s)" for c
    using that by (auto simp: s(3) dest!: set_zip_leftD)
  show ?thesis
  proof
    fix item
    assume "item \<in> set items"
    with assms(2) Inr have "item \<in> set (fst (generate (one_benchmark e pre suf (s_base s) (s_tags s)) (s_combinations s)))"
      by (simp add: benchmark_args_def)
    from generate_mem [OF this] obtain c where c: "c \<in> set (s_combinations s)"
      "one_benchmark e pre suf (s_base s) (s_tags s) c = Inr item" by blast
    have "map fst (s_base s) = base_keys" using base_values_keys [OF s(1)] by (simp add: s(3))
    from one_benchmark_plain [OF c(2) this k [OF c(1)]] show "plain_item item" .
  qed
qed

lemma session_keeps:
  assumes "keeps env (o_dry_run opt) P" and "\<forall>s \<in> set (o_set opt). plain s" and "plain_names e"
    and "run_benchmarks env opt e n ts p w = (r, st)" and "P w"
  shows "P (rs_world st)"
proof -
  obtain items fin where g: "benchmark_args e (Some (o_prefix opt)) (Some ts) = (items, fin)" by fastforce
  let ?st = "\<lparr>rs_progress = p, rs_counter = 0, rs_submitted = [], rs_world = w\<rparr>"
  have "P (rs_world (snd (run_items env opt n fin items ?st)))"
    by (rule run_items_keeps [OF assms(1,2) generated_plain [OF assms(3) g]]) (simp add: assms(5))
  then show ?thesis
    using assms(4) by (auto simp: run_benchmarks_def g split: prod.splits ending.splits)
qed

section \<open>What a session runs\<close>

definition in_scope :: "site \<Rightarrow> bool \<Rightarrow> string list \<Rightarrow> bool" where
  "in_scope st dry c \<longleftrightarrow> (\<exists>cfg nss n r. get_main_config (contexts st) (yaml st) = Inr cfg \<and> get_namespaces cfg = Inr nss \<and>
     ((n = ''global'' \<and> global_region cfg = Some r) \<or> (\<exists>info. (n, info) \<in> set nss \<and> ni_region info = r)) \<and>
     (take 5 c = [''helm'', ''template'', base_path st @ ''/helm-benchbase'', ''--namespace'', n] \<or>
      (\<exists>ctx verb. c = [''kubectl'', verb, ''--namespace'', n, ''-f'', ''-'', ''--context'', ctx] \<and>
         get_context (contexts st) (yaml st) r = Inr ctx \<and> \<not> dry)))"

definition scoped :: "site \<Rightarrow> bool \<Rightarrow> call_trace \<Rightarrow> bool" where
  "scoped st dry w \<longleftrightarrow> (\<forall>ls \<in> set w. \<forall>l \<in> set ls. \<forall>x \<in> set l. in_scope st dry (fst (snd x)))"

lemma run_in_scope:
  assumes "run_ends st api opts ls x" and "l \<in> set ls" and "(i, c, rc) \<in> set l"
  shows "in_scope st (bo_dry_run opts) c"
proof (cases "prepare st (bo_set opts) (bo_dry_run opts)")
  case (Inl e)
  with assms show ?thesis by (simp add: run_ends_def)
next
  case (Inr op)
  from prepare_eq [OF Inr] obtain nss where n: "get_main_config (contexts st) (yaml st) = Inr (op_config op)"
    "get_namespaces (op_config op) = Inr nss" "sort_namespaces nss = Inr (op_namespaces op)" "op_dry_run op = bo_dry_run opts"
    by metis
  have "mset (op_namespaces op) = mset nss" using sort_namespaces_Inr [OF n(3)] by simp
  then have s: "set (op_namespaces op) = set nss" by (rule mset_eq_setD)
  from assms Inr obtain ph y where ph: "operation_do (bo_operation opts) st op (bo_regions opts) = Inr ph" "phases_run ph ls y"
    by (auto simp: run_ends_def split: if_splits sum.splits)
  obtain n r where o: "selected (bo_regions opts) r"
    "(n = ''global'' \<and> global_region (op_config op) = Some r) \<or> (\<exists>info. (n, info) \<in> set (op_namespaces op) \<and> ni_region info = r)"
    "(\<exists>rest. c = helm_head st n @ rest) \<or> (\<exists>ctx verb. c = kubectl verb n ctx \<and>
       get_context (contexts st) (yaml st) r = Inr ctx \<and> \<not> op_dry_run op \<and>
       (verb = ''delete'' \<or> verb = ''apply'' \<and> bo_operation opts \<noteq> ''delete''))"
    by (rule operation_event [OF ph assms(2,3)])
  have c: "take 5 c = helm_head st n \<or> (\<exists>ctx verb. c = kubectl verb n ctx \<and>
       get_context (contexts st) (yaml st) r = Inr ctx \<and> \<not> bo_dry_run opts)"
    using o(3) helm_head_take n(4) by metis
  show ?thesis
    unfolding in_scope_def using n(1,2) o(2) [unfolded s] c [unfolded helm_head_def kubectl_def] by blast
qed

definition tiny_experiment :: exp_file where
  "tiny_experiment = \<lparr>e_name = ''tiny'', e_scalars = [(''dbtype'', PStr ''postgres''), (''benchmark'', PStr ''hot''),
     (''scalefactor'', PInt 1), (''time'', PInt 9), (''rate'', PInt 7), (''isolation'', PStr ''x'')],
     e_param_keys = Some [], e_param_values = Some [], e_replace = []\<rparr>"

definition tiny_opts :: run_opts where
  "tiny_opts = \<lparr>o_set = [''a=1''], o_prefix = [], o_dry_run = True, o_new = True, o_y = True, o_output = False,
     o_skip_create_load = False, o_sload = False, o_logs_per_sec = 0, o_interactive = False\<rparr>"

definition tiny_settings :: "string list" where
  "tiny_settings = [''dbtype=postgres'', ''benchmark=hot'', ''scalefactor=1'', ''time=9'', ''rate=7'', ''isolation=x'',
     ''tag=tiny-t'', ''a=1'']"

lemma tiny_items:
  "map (\<lambda>i. common_args tiny_opts i) (fst (benchmark_args tiny_experiment (Some []) (Some ''t''))) =
   [create_set_arg tiny_settings @ [''--dry-run'']]"
  by code_simp

lemma tiny_pending:
  "map (\<lambda>i. case get_or_insert (bi_metadata i) \<lparr>p_recs = [], p_file = None\<rparr> of (i, p) \<Rightarrow> dget (p_recs p ! i) ''status'')
     (fst (benchmark_args tiny_experiment (Some []) (Some ''t''))) = [Some (PStr PENDING)]"
  by code_simp

lemma tiny_create:
  "case rbind (prepare sample_site tiny_settings True) (\<lambda>op. operation_do ''create'' sample_site op []) of
     Inr [Inline (Exec c True Ret)] \<Rightarrow> True | _ \<Rightarrow> False"
  by code_simp

definition did_something :: "call_trace \<Rightarrow> bool" where
  "did_something w \<longleftrightarrow> (\<exists>ls \<in> set w. \<exists>l \<in> set ls. l \<noteq> [])"

lemma did_something_keeps: "conforms st api env \<Longrightarrow> keeps env dry did_something"
  unfolding keeps_def
proof (intro conjI allI impI)
  fix argv w
  assume "conforms st api env" and p: "did_something w"
  then consider ls where "snd (bench env argv w) = w @ [ls]" | "snd (bench env argv w) = w"
    unfolding conforms_def by blast
  then show "did_something (snd (bench env argv w))" by cases (use p in \<open>auto simp: did_something_def\<close>)
qed (simp add: conforms_def)

lemma conforms_call:
  assumes "conforms st api env" and "\<exists>ls r. main_ends st api argv ls r"
    and "\<And>ls r. main_ends st api argv ls r \<Longrightarrow> \<exists>l \<in> set ls. l \<noteq> []"
  shows "did_something (rs_world (snd (call env argv s)))"
proof -
  obtain ls where "main_ends st api argv ls (fst (bench env argv (rs_world s)))"
    "snd (bench env argv (rs_world s)) = rs_world s @ [ls]"
    using assms(1,2) unfolding conforms_def by blast
  with assms(3) have "did_something (snd (bench env argv (rs_world s)))" by (auto simp: did_something_def)
  then show ?thesis by (simp add: call_def split_beta)
qed

lemma load_phase_did_something:
  assumes "conforms st api env" and "plain_item item" and "\<forall>s \<in> set (o_set opt). plain s"
    and "\<not> o_skip_create_load opt" and "rs_counter s = 0"
    and "did_something (rs_world (snd (call env (''create'' # common_args opt item) s)))"
  shows "did_something (rs_world (snd (load_phase env opt item i n s)))"
proof -
  define loader where "loader = (if o_sload opt then ''sload'' else ''load'')"
  have o: "loader \<in> set OPERATIONS" by (simp add: OPERATIONS_def loader_def)
  obtain r1 s1 where c1: "call env (''create'' # common_args opt item) s = (r1, s1)" by fastforce
  obtain r2 s2 where c2: "call env (loader # common_args opt item) s1 = (r2, s2)" by fastforce
  have "did_something (rs_world s2)"
    using call_keeps [OF did_something_keeps [OF assms(1)] session_lines(1) [OF assms(2,3) o], of s1] assms(6)
    by (simp add: c1 c2)
  then show ?thesis
    using assms(4-6) unfolding load_phase_def loader_def [symmetric]
    by (auto simp: c1 c2 change_record_def split: sum.split)
qed

lemma try_body_did_something:
  assumes "conforms st api env" and "plain_item item" and "\<forall>s \<in> set (o_set opt). plain s"
    and "\<not> o_skip_create_load opt" and "\<not> o_interactive opt" and "rs_counter s = 0"
    and "did_something (rs_world (snd (call env (''create'' # common_args opt item) s)))"
  shows "did_something (rs_world (snd (try_body env opt item i n s)))"
proof -
  obtain o2 s2 where s2: "load_phase env opt item i n s = (o2, s2)" by fastforce
  have l: "did_something (rs_world s2)"
    using load_phase_did_something [OF assms(1-4,6,7), of i n] by (simp add: s2)
  have "''execute'' \<in> set OPERATIONS" by (simp add: OPERATIONS_def)
  from execute_keeps [OF did_something_keeps [OF assms(1)] session_lines(2) [OF assms(2,3) this] l, of i] l
  show ?thesis using assms(5) by (simp add: try_body_def confirm_phase_def s2 split: outcome.split)
qed

lemma tiny_create_call:
  assumes "main_ends sample_site sample_job_api (''create'' # create_set_arg tiny_settings @ [''--dry-run'']) ls r"
  shows "\<exists>l \<in> set ls. l \<noteq> []"
proof -
  have o: "''create'' \<in> set OPERATIONS" "\<forall>s \<in> set tiny_settings. plain s"
    by (simp_all add: OPERATIONS_def tiny_settings_def plain_def)
  have a: "''create'' # create_set_arg tiny_settings @ [''--dry-run''] = render ''create'' None tiny_settings True"
    by (simp add: render_def create_set_arg_def)
  from tiny_create obtain op c where p: "prepare sample_site tiny_settings True = Inr op"
    "operation_do ''create'' sample_site op [] = Inr [Inline (Exec c True Ret)]"
    by (auto simp: rbind_def split: sum.splits list.splits phase.splits prog.splits bool.splits)
  with assms obtain x where "phases_run [Inline (Exec c True Ret)] ls x"
    by (auto simp: main_ends_def a bench_cli_render [OF o] run_ends_def)
  then show ?thesis by (auto simp: runs_Exec)
qed

lemma tiny_create_ends:
  "\<exists>ls r. main_ends sample_site sample_job_api (''create'' # create_set_arg tiny_settings @ [''--dry-run'']) ls r"
proof -
  have o: "''create'' \<in> set OPERATIONS" "\<forall>s \<in> set tiny_settings. plain s"
    by (simp_all add: OPERATIONS_def tiny_settings_def plain_def)
  have a: "''create'' # create_set_arg tiny_settings @ [''--dry-run''] = render ''create'' None tiny_settings True"
    by (simp add: render_def create_set_arg_def)
  from tiny_create obtain op where p: "prepare sample_site tiny_settings True = Inr op"
    by (cases "prepare sample_site tiny_settings True") auto
  let ?o = "\<lparr>bo_operation = ''create'', bo_set = tiny_settings, bo_regions = [], bo_dry_run = True,
    bo_logs_only = False, bo_logs_per_sec = (case None of None \<Rightarrow> 0 | Some n \<Rightarrow> n)\<rparr>"
  have "\<exists>ls x. run_ends sample_site sample_job_api ?o ls x"
    by (rule run_ends_dry [of _ _ op]) (simp_all add: p nothing_to_follow_def)
  then show ?thesis unfolding a main_ends_def bench_cli_render [OF o] parsed.case by blast
qed

end
