(* ===== verification/Neonclone.thy ===== *)
theory Neonclone
  imports Py_Value
begin

text \<open>
  \<^verbatim>\<open>tools/neonclone.py\<close>: copying a local Neon directory and renumbering what must differ between
  the copies: ports and host names, the id of the page server, ids and directories of the
  safekeepers. A configuration file is the value \<^verbatim>\<open>toml.load\<close> gives for it, or the exception of
  loading it; \<^verbatim>\<open>toml.dump\<close> stores a value that loads again as it was. The functions pass the
  directory on, so what an exception leaves behind is part of the result.
\<close>

section \<open>TOML values\<close>

datatype toml =
    TStr string
  | TInt int
  | TBool bool
  | TFloat rat
  | TTable "(string \<times> toml) list"
  | TArray "toml list"

fun subscript :: "string \<Rightarrow> toml \<Rightarrow> toml res" where
  "subscript k (TTable t) = req (KeyError k) (dget t k)"
| "subscript k _ = Inl (TypeError ''indices must be integers'')"

fun assign :: "string \<Rightarrow> toml \<Rightarrow> toml \<Rightarrow> toml" where
  "assign k v (TTable t) = TTable (dset k v t)"
| "assign k v d = d"

text \<open>
  The changed document and the new value. A plain value for \<^verbatim>\<open>fn_or_val\<close> is a constant function
  here; the old value is read in any case.
\<close>

fun update_inplace :: "(toml \<Rightarrow> toml res) \<Rightarrow> string list \<Rightarrow> toml \<Rightarrow> (toml \<times> toml) res" where
  "update_inplace f [] d = Inl (IndexError ''list index out of range'')"
| "update_inplace f [k] d =
     rbind (subscript k d) (\<lambda>v. rbind (f v) (\<lambda>x. Inr (assign k x d, x)))"
| "update_inplace f (k # ks) d =
     rbind (subscript k d) (\<lambda>v. rbind (update_inplace f ks v) (\<lambda>(v', x). Inr (assign k v' d, x)))"

text \<open>\<^verbatim>\<open>lambda p: p + ordinal\<close>\<close>

fun bump :: "int \<Rightarrow> toml \<Rightarrow> toml res" where
  "bump n (TInt i) = Inr (TInt (i + n))"
| "bump n (TBool b) = Inr (TInt ((if b then 1 else 0) + n))"
| "bump n (TFloat q) = Inr (TFloat (round_double (q + round_double (of_int n))))"
| "bump n _ = Inl (TypeError ''unsupported operand type(s) for +'')"

definition change_addr :: "int \<Rightarrow> string option \<Rightarrow> toml \<Rightarrow> toml res" where
  "change_addr ordinal hostname v = (case v of
     TStr s \<Rightarrow> (case split '':'' s of
         [h, p] \<Rightarrow> (case int_of_str p of
             None \<Rightarrow> Inl (ValueError ''invalid literal for int()'')
           | Some i \<Rightarrow> Inr (TStr ((case hostname of None \<Rightarrow> h | Some n \<Rightarrow> if n = [] then h else n)
               @ '':'' @ show_int (i + ordinal))))
       | [_] \<Rightarrow> Inl (ValueError ''not enough values to unpack (expected 2, got 1)'')
       | _ \<Rightarrow> Inl (ValueError ''too many values to unpack (expected 2)''))
   | _ \<Rightarrow> Inl (AttributeError ''split''))"

section \<open>edit_configs\<close>

text \<open>\<open>entry\<close>: a directory with the names and contents of its files, or something else.\<close>

datatype entry = Directory "(string \<times> string) list" | Other

record neon_dir =
  pageserver_toml :: "toml res"
  config_toml :: "toml res"
  safekeepers :: "(string \<rightharpoonup> entry) option"

definition edit_pageserver :: "int \<Rightarrow> string option \<Rightarrow> toml \<Rightarrow> (toml \<times> toml \<times> toml \<times> toml) res" where
  "edit_pageserver ordinal hostname d =
     rbind (update_inplace (change_addr ordinal hostname) [''listen_http_addr''] d) (\<lambda>(d1, http).
     rbind (update_inplace (change_addr ordinal hostname) [''listen_pg_addr''] d1) (\<lambda>(d2, pg).
     rbind (update_inplace (bump ordinal) [''id''] d2) (\<lambda>(d3, i). Inr (d3, http, pg, i))))"

definition edit_safekeeper :: "int \<Rightarrow> toml \<Rightarrow> toml res" where
  "edit_safekeeper ordinal sk =
     rbind (update_inplace (bump ordinal) [''http_port''] sk) (\<lambda>(d, _).
     rbind (update_inplace (bump ordinal) [''pg_port''] d) (\<lambda>(d, _). Inr d))"

text \<open>
  \<^verbatim>\<open>for sk in config["safekeepers"]\<close>: over a table or a string it gives strings, which have no
  fields.
\<close>

definition items_of :: "toml \<Rightarrow> toml list res" where
  "items_of v = (case v of
     TArray l \<Rightarrow> Inr l
   | TTable t \<Rightarrow> Inr (map (\<lambda>(k, _). TStr k) t)
   | TStr s \<Rightarrow> Inr (map (\<lambda>c. TStr [c]) s)
   | _ \<Rightarrow> Inl (TypeError ''object is not iterable''))"

text \<open>The elements of an array are changed in place; nothing else has elements that can change.\<close>

definition put_items :: "toml list \<Rightarrow> toml \<Rightarrow> toml" where
  "put_items l v = (case v of TArray _ \<Rightarrow> TArray l | _ \<Rightarrow> v)"

definition edit_config :: "int \<Rightarrow> string option \<Rightarrow> toml \<Rightarrow> toml \<Rightarrow> toml \<Rightarrow> toml \<Rightarrow> toml res" where
  "edit_config ordinal hostname http pg i d =
     rbind (update_inplace (\<lambda>_. Inr http) [''pageserver'', ''listen_http_addr''] d) (\<lambda>(d, _).
     rbind (update_inplace (\<lambda>_. Inr pg) [''pageserver'', ''listen_pg_addr''] d) (\<lambda>(d, _).
     rbind (update_inplace (change_addr ordinal hostname) [''xactserver'', ''listen_pg_addr''] d) (\<lambda>(d, _).
     rbind (update_inplace (\<lambda>_. Inr i) [''pageserver'', ''id''] d) (\<lambda>(d, _).
     rbind (subscript ''safekeepers'' d) (\<lambda>sks.
     rbind (items_of sks) (\<lambda>l.
     rbind (rmap (edit_safekeeper ordinal) l) (\<lambda>l'.
       Inr (assign ''safekeepers'' (put_items l' sks) d))))))))"

definition edit_configs :: "int \<Rightarrow> string option \<Rightarrow> neon_dir \<Rightarrow> unit res \<times> neon_dir" where
  "edit_configs ordinal hostname n =
     (case rbind (pageserver_toml n) (edit_pageserver ordinal hostname) of
        Inl e \<Rightarrow> (Inl e, n)
      | Inr (d, http, pg, i) \<Rightarrow>
          (let n1 = n\<lparr>pageserver_toml := Inr d\<rparr>
           in case rbind (config_toml n1) (edit_config ordinal hostname http pg i) of
             Inl e \<Rightarrow> (Inl e, n1)
           | Inr c \<Rightarrow> (Inr (), n1\<lparr>config_toml := Inr c\<rparr>)))"

section \<open>edit_safekeeper_ids\<close>

text \<open>\<^verbatim>\<open>f"sk{id}"\<close> for the numbers an id can be.\<close>

fun sk_name :: "toml \<Rightarrow> string" where
  "sk_name (TInt i) = ''sk'' @ show_int i"
| "sk_name (TBool b) = (if b then ''skTrue'' else ''skFalse'')"
| "sk_name (TFloat q) = ''sk'' @ repr_float q"
| "sk_name _ = []"

definition no_directory :: "string \<Rightarrow> exn" where
  "no_directory name = CloneError (''Cannot find directory for safekeeper '' @ [CHR 39] @ name @ [CHR 39])"

text \<open>
  \<^verbatim>\<open>rename\<close> of a directory: onto nothing, itself or an empty directory it works, onto anything
  else it fails.
\<close>

definition rename_directory :: "string \<Rightarrow> string \<Rightarrow> (string \<rightharpoonup> entry) \<Rightarrow> (string \<rightharpoonup> entry) res" where
  "rename_directory old new es =
     (if new = old \<or> es new = None \<or> es new = Some (Directory []) then Inr ((es(old := None))(new := es old))
      else Inl (OSError new))"

fun unlink :: "string \<Rightarrow> entry option \<Rightarrow> entry option" where
  "unlink f (Some (Directory c)) = Some (Directory (AList.delete f c))"
| "unlink f e = e"

definition renumber_one :: "int \<Rightarrow> toml \<Rightarrow> (string \<rightharpoonup> entry) \<Rightarrow> (toml \<times> (string \<rightharpoonup> entry)) res" where
  "renumber_one shift sk es =
     rbind (subscript ''id'' sk) (\<lambda>old.
     rbind (bump shift old) (\<lambda>new.
       case es (sk_name old) of
         Some (Directory c) \<Rightarrow> rbind (rename_directory (sk_name old) (sk_name new) es) (\<lambda>es'.
           Inr (assign ''id'' new sk, es'(sk_name new := unlink ''safekeeper.id'' (es' (sk_name new)))))
       | _ \<Rightarrow> Inl (no_directory (sk_name old))))"

fun renumber :: "int \<Rightarrow> toml list \<Rightarrow> (string \<rightharpoonup> entry) \<Rightarrow> toml list res \<times> (string \<rightharpoonup> entry)" where
  "renumber shift [] es = (Inr [], es)"
| "renumber shift (sk # sks) es = (case renumber_one shift sk es of
     Inl e \<Rightarrow> (Inl e, es)
   | Inr (sk', es1) \<Rightarrow> (case renumber shift sks es1 of
       (Inl e, es2) \<Rightarrow> (Inl e, es2)
     | (Inr sks', es2) \<Rightarrow> (Inr (sk' # sks'), es2)))"

definition edit_safekeeper_ids :: "int \<Rightarrow> neon_dir \<Rightarrow> unit res \<times> neon_dir" where
  "edit_safekeeper_ids ordinal n = (case safekeepers n of
     None \<Rightarrow> (Inl (CloneError ''Safekeepers directory not found or not a directory''), n)
   | Some es \<Rightarrow>
       (case rbind (config_toml n) (\<lambda>c. rbind (subscript ''safekeepers'' c) (\<lambda>sks.
               rbind (items_of sks) (\<lambda>l. Inr (c, sks, l)))) of
          Inl e \<Rightarrow> (Inl e, n)
        | Inr (c, sks, l) \<Rightarrow> (case renumber (int (length l) * ordinal) l es of
            (Inl e, es') \<Rightarrow> (Inl e, n\<lparr>safekeepers := Some es'\<rparr>)
          | (Inr l', es') \<Rightarrow> (Inr (), n\<lparr>safekeepers := Some es',
              config_toml := Inr (assign ''safekeepers'' (put_items l' sks) c)\<rparr>))))"

section \<open>clone_neon\<close>

text \<open>The source, the destination and the \<^verbatim>\<open>.neon\<close> directory in each of them.\<close>

record clone_world =
  src_is_dir :: bool
  src_neon :: "neon_dir option"
  dst_is_dir :: bool
  dst_neon :: "neon_dir option"

definition deep_copy_neon :: "clone_world \<Rightarrow> neon_dir res" where
  "deep_copy_neon w =
     (if \<not> src_is_dir w then Inl (CloneError ''Source directory not found or not a directory'')
      else case src_neon w of
        None \<Rightarrow> Inl (CloneError ''The .neon directory is not found'')
      | Some n \<Rightarrow>
          if \<not> dst_is_dir w then Inl (CloneError ''Destination directory not found or not a directory'')
          else if dst_neon w \<noteq> None then Inl (OSError ''.neon'')
          else Inr n)"

definition clone_neon :: "int \<Rightarrow> string option \<Rightarrow> clone_world \<Rightarrow> unit res \<times> clone_world" where
  "clone_neon offset hostname w = (case deep_copy_neon w of
     Inl e \<Rightarrow> (Inl e, w)
   | Inr n \<Rightarrow> (case edit_configs offset hostname n of
       (Inl e, n1) \<Rightarrow> (Inl e, w\<lparr>dst_neon := Some n1\<rparr>)
     | (Inr _, n1) \<Rightarrow> (case edit_safekeeper_ids offset n1 of
         (r, n2) \<Rightarrow> (r, w\<lparr>dst_neon := Some n2\<rparr>))))"

section \<open>Documents as maps from paths\<close>

text \<open>The abstraction of a document: what is found under a path of keys.\<close>

fun lookup :: "string list \<Rightarrow> toml \<Rightarrow> toml option" where
  "lookup [] d = Some d"
| "lookup (k # ks) d = (case subscript k d of Inl e \<Rightarrow> None | Inr v \<Rightarrow> lookup ks v)"

lemma subscript_assign: "subscript k d = Inr v \<Longrightarrow> subscript k' (assign k x d) = (if k' = k then Inr x else subscript k' d)"
  by (cases d) auto

lemma update_inplace_Inr:
  "p \<noteq> [] \<Longrightarrow> update_inplace f p d = Inr (d', x) \<Longrightarrow> \<exists>v. lookup p d = Some v \<and> f v = Inr x"
proof (induction f p d arbitrary: d' rule: update_inplace.induct)
  case (3 f k k' ks d)
  then obtain v v' where "subscript k d = Inr v" "update_inplace f (k' # ks) v = Inr (v', x)"
    by (auto simp: rbind_eq_Inr)
  with 3 show ?case by simp
qed (auto simp: rbind_eq_Inr)

lemma update_inplace_total:
  "p \<noteq> [] \<Longrightarrow> lookup p d = Some v \<Longrightarrow> f v = Inr x \<Longrightarrow> \<exists>d'. update_inplace f p d = Inr (d', x)"
proof (induction f p d rule: update_inplace.induct)
  case (3 f k k' ks d)
  then obtain u where u: "subscript k d = Inr u" "lookup (k' # ks) u = Some v" by (auto split: sum.splits)
  from 3(1) [OF _ u(2) 3(4)] obtain u' where "update_inplace f (k' # ks) u = Inr (u', x)" by auto
  then show ?case using u(1) by simp
qed (auto split: sum.splits)

lemma update_inplace_error:
  "p \<noteq> [] \<Longrightarrow> lookup p d = Some v \<Longrightarrow> f v = Inl e \<Longrightarrow> update_inplace f p d = Inl e"
proof (induction f p d rule: update_inplace.induct)
  case (3 f k k' ks d)
  then obtain u where u: "subscript k d = Inr u" "lookup (k' # ks) u = Some v" by (auto split: sum.splits)
  from 3(1) [OF _ u(2) 3(4)] show ?case using u(1) by simp
qed (auto split: sum.splits)

text \<open>After the update the path holds the new value, and every path that is not on it what it held before.\<close>

lemma lookup_update:
  "update_inplace f p d = Inr (d', x) \<Longrightarrow> lookup (p @ q) d' = lookup q x"
proof (induction f p d arbitrary: d' rule: update_inplace.induct)
  case (2 f k d)
  then show ?case by (auto simp: rbind_eq_Inr subscript_assign)
next
  case (3 f k k' ks d)
  then obtain v v' where "subscript k d = Inr v" "update_inplace f (k' # ks) v = Inr (v', x)" "d' = assign k v' d"
    by (auto simp: rbind_eq_Inr)
  with 3 show ?case by (simp add: subscript_assign)
qed simp

lemma lookup_update_other:
  "update_inplace f p d = Inr (d', x) \<Longrightarrow> \<not> prefix p q \<Longrightarrow> \<not> prefix q p \<Longrightarrow> lookup q d' = lookup q d"
proof (induction f p d arbitrary: d' q rule: update_inplace.induct)
  case (2 f k d)
  then show ?case by (cases q) (auto simp: rbind_eq_Inr subscript_assign)
next
  case (3 f k k' ks d)
  then obtain v v' where v: "subscript k d = Inr v" "update_inplace f (k' # ks) v = Inr (v', x)" "d' = assign k v' d"
    by (auto simp: rbind_eq_Inr)
  show ?case
  proof (cases q)
    case Nil
    then show ?thesis using 3 by simp
  next
    case (Cons j q')
    then show ?thesis using 3(1) [OF v(2), of q'] 3(3,4) v by (auto simp: subscript_assign)
  qed
qed simp

text \<open>Tables stay tables, and no key appears or disappears.\<close>

lemma update_inplace_keys:
  "update_inplace f p d = Inr (d', x) \<Longrightarrow> strict_prefix q p \<Longrightarrow>
   (\<exists>t t'. lookup q d = Some (TTable t) \<and> lookup q d' = Some (TTable t') \<and> dkeys t' = dkeys t)"
proof (induction f p d arbitrary: d' q rule: update_inplace.induct)
  case (2 f k d)
  then obtain v where "subscript k d = Inr v" "d' = assign k x d" by (auto simp: rbind_eq_Inr)
  moreover have "q = []" using 2(2) by (cases q) (auto simp: strict_prefix_def)
  ultimately show ?case by (cases d) (auto simp: dset_keys dest: map_of_SomeD intro: rev_image_eqI)
next
  case (3 f k k' ks d)
  then obtain v v' where v: "subscript k d = Inr v" "update_inplace f (k' # ks) v = Inr (v', x)" "d' = assign k v' d"
    by (auto simp: rbind_eq_Inr)
  show ?case
  proof (cases q)
    case Nil
    then show ?thesis using v by (cases d) (auto simp: dset_keys dest: map_of_SomeD intro: rev_image_eqI)
  next
    case (Cons j q')
    then have "j = k" "strict_prefix q' (k' # ks)" using 3(3) by auto
    with 3(1) [OF v(2)] Cons v show ?thesis by (simp add: subscript_assign)
  qed
qed simp

section \<open>What edit_configs does\<close>

lemma lookup_assign_other: "subscript k d = Inr v \<Longrightarrow> j \<noteq> k \<Longrightarrow> lookup (j # q) (assign k x d) = lookup (j # q) d"
  by (simp add: subscript_assign)

lemma edit_pageserver_Inr:
  assumes "edit_pageserver ordinal hostname d = Inr (d', http, pg, i)"
  shows "(\<exists>v. lookup [''listen_http_addr''] d = Some v \<and> change_addr ordinal hostname v = Inr http) \<and>
    (\<exists>v. lookup [''listen_pg_addr''] d = Some v \<and> change_addr ordinal hostname v = Inr pg) \<and>
    (\<exists>v. lookup [''id''] d = Some v \<and> bump ordinal v = Inr i) \<and>
    lookup [''listen_http_addr''] d' = Some http \<and> lookup [''listen_pg_addr''] d' = Some pg \<and> lookup [''id''] d' = Some i"
proof -
  from assms obtain d1 d2 where
    u1: "update_inplace (change_addr ordinal hostname) [''listen_http_addr''] d = Inr (d1, http)" and
    u2: "update_inplace (change_addr ordinal hostname) [''listen_pg_addr''] d1 = Inr (d2, pg)" and
    u3: "update_inplace (bump ordinal) [''id''] d2 = Inr (d', i)"
    by (auto simp: edit_pageserver_def rbind_eq_Inr simp del: update_inplace.simps)
  note o1 = lookup_update_other [OF u1] and o2 = lookup_update_other [OF u2] and o3 = lookup_update_other [OF u3]
  note v1 = update_inplace_Inr [OF _ u1] and v2 = update_inplace_Inr [OF _ u2] and v3 = update_inplace_Inr [OF _ u3]
  have "lookup [''listen_pg_addr''] d1 = lookup [''listen_pg_addr''] d" "lookup [''id''] d2 = lookup [''id''] d"
    using o1 [of "[''listen_pg_addr'']"] o1 [of "[''id'']"] o2 [of "[''id'']"] by (simp_all del: lookup.simps)
  moreover have "lookup [''listen_http_addr''] d' = Some http"
    using lookup_update [OF u1, of "[]"] o2 [of "[''listen_http_addr'']"] o3 [of "[''listen_http_addr'']"]
    by (simp del: lookup.simps(2))
  moreover have "lookup [''listen_pg_addr''] d' = Some pg"
    using lookup_update [OF u2, of "[]"] o3 [of "[''listen_pg_addr'']"] by (simp del: lookup.simps(2))
  moreover have "lookup [''id''] d' = Some i"
    using lookup_update [OF u3, of "[]"] by (simp del: lookup.simps(2))
  ultimately show ?thesis using v1 v2 v3 by (simp del: lookup.simps)
qed

lemma edit_config_Inr:
  assumes "edit_config ordinal hostname http pg i c = Inr c'"
  shows "lookup [''pageserver'', ''listen_http_addr''] c' = Some http \<and>
    lookup [''pageserver'', ''listen_pg_addr''] c' = Some pg \<and> lookup [''pageserver'', ''id''] c' = Some i \<and>
    (\<exists>v x. lookup [''xactserver'', ''listen_pg_addr''] c = Some v \<and> change_addr ordinal hostname v = Inr x \<and>
      lookup [''xactserver'', ''listen_pg_addr''] c' = Some x)"
proof -
  from assms obtain d1 d2 d3 d4 x1 x2 x3 x4 sks l l' where
    u1: "update_inplace (\<lambda>_. Inr http) [''pageserver'', ''listen_http_addr''] c = Inr (d1, x1)" and
    u2: "update_inplace (\<lambda>_. Inr pg) [''pageserver'', ''listen_pg_addr''] d1 = Inr (d2, x2)" and
    u3: "update_inplace (change_addr ordinal hostname) [''xactserver'', ''listen_pg_addr''] d2 = Inr (d3, x3)" and
    u4: "update_inplace (\<lambda>_. Inr i) [''pageserver'', ''id''] d3 = Inr (d4, x4)" and
    s: "subscript ''safekeepers'' d4 = Inr sks" and c': "c' = assign ''safekeepers'' (put_items l' sks) d4"
    by (auto simp: edit_config_def rbind_eq_Inr simp del: update_inplace.simps)
  note o1 = lookup_update_other [OF u1] and o2 = lookup_update_other [OF u2]
    and o3 = lookup_update_other [OF u3] and o4 = lookup_update_other [OF u4]
  have x: "x1 = http" "x2 = pg" "x4 = i"
    using update_inplace_Inr [OF _ u1] update_inplace_Inr [OF _ u2] update_inplace_Inr [OF _ u4] by simp_all
  have f: "lookup (j # q) c' = lookup (j # q) d4" if "j \<noteq> ''safekeepers''" for j q
    unfolding c' using s that by (rule lookup_assign_other)
  have h: "lookup [''pageserver'', ''listen_http_addr''] d4 = Some http"
    using lookup_update [OF u1, of "[]"] x o2 [of "[''pageserver'', ''listen_http_addr'']"]
      o3 [of "[''pageserver'', ''listen_http_addr'']"] o4 [of "[''pageserver'', ''listen_http_addr'']"]
    by (simp del: lookup.simps(2))
  have p: "lookup [''pageserver'', ''listen_pg_addr''] d4 = Some pg"
    using lookup_update [OF u2, of "[]"] x o3 [of "[''pageserver'', ''listen_pg_addr'']"] o4 [of "[''pageserver'', ''listen_pg_addr'']"]
    by (simp del: lookup.simps(2))
  have i: "lookup [''pageserver'', ''id''] d4 = Some i"
    using lookup_update [OF u4, of "[]"] x by (simp del: lookup.simps(2))
  have "lookup [''xactserver'', ''listen_pg_addr''] d4 = Some x3"
    using lookup_update [OF u3, of "[]"] o4 [of "[''xactserver'', ''listen_pg_addr'']"] by (simp del: lookup.simps(2))
  moreover have "lookup [''xactserver'', ''listen_pg_addr''] d2 = lookup [''xactserver'', ''listen_pg_addr''] c"
    using o1 [of "[''xactserver'', ''listen_pg_addr'']"] o2 [of "[''xactserver'', ''listen_pg_addr'']"]
    by (simp del: lookup.simps(2))
  ultimately show ?thesis
    using h p i update_inplace_Inr [OF _ u3] by (simp add: f del: lookup.simps)
qed

section \<open>Renaming the safekeepers\<close>

abbreviation sk_dir :: "int \<Rightarrow> string" where
  "sk_dir i \<equiv> ''sk'' @ show_int i"

lemma sk_dir_inj: "sk_dir i = sk_dir j \<longleftrightarrow> i = j"
  using show_int_inj by auto

text \<open>The abstract specification: all directories are renamed at once.\<close>

definition renamed :: "int \<Rightarrow> int list \<Rightarrow> (string \<rightharpoonup> entry) \<Rightarrow> (string \<rightharpoonup> entry) \<Rightarrow> bool" where
  "renamed shift ids es es' \<longleftrightarrow>
     (\<forall>i \<in> set ids. es' (sk_dir (i + shift)) = unlink ''safekeeper.id'' (es (sk_dir i))) \<and>
     (\<forall>i \<in> set ids. es' (sk_dir i) = None) \<and>
     (\<forall>name. name \<notin> sk_dir ` set ids \<longrightarrow> name \<notin> (\<lambda>i. sk_dir (i + shift)) ` set ids \<longrightarrow> es' name = es name)"

definition movable :: "int \<Rightarrow> int list \<Rightarrow> (string \<rightharpoonup> entry) \<Rightarrow> bool" where
  "movable shift ids es \<longleftrightarrow> distinct ids \<and>
     (\<forall>i \<in> set ids. (\<exists>c. es (sk_dir i) = Some (Directory c)) \<and> i + shift \<notin> set ids \<and> es (sk_dir (i + shift)) = None)"

lemma renumber_one_step:
  assumes "subscript ''id'' sk = Inr (TInt i)" and "es (sk_dir i) = Some (Directory c)" and "es (sk_dir (i + shift)) = None"
  shows "renumber_one shift sk es = Inr (assign ''id'' (TInt (i + shift)) sk,
    es(sk_dir i := None, sk_dir (i + shift) := unlink ''safekeeper.id'' (es (sk_dir i))))"
proof -
  have "sk_dir (i + shift) \<noteq> sk_dir i" using assms(2,3) by (metis option.distinct(1))
  then show ?thesis using assms by (simp add: renumber_one_def rename_directory_def)
qed

lemma renumber_renamed:
  "list_all2 (\<lambda>sk i. subscript ''id'' sk = Inr (TInt i)) sks ids \<Longrightarrow> movable shift ids es \<Longrightarrow>
   \<exists>es'. renumber shift sks es = (Inr (map2 (\<lambda>sk i. assign ''id'' (TInt (i + shift)) sk) sks ids), es') \<and>
     renamed shift ids es es'"
proof (induction sks ids arbitrary: es rule: list_all2_induct)
  case Nil
  then show ?case by (simp add: renamed_def)
next
  case (Cons sk sks i ids)
  define es1 where "es1 = es(sk_dir i := None, sk_dir (i + shift) := unlink ''safekeeper.id'' (es (sk_dir i)))"
  obtain c where c: "es (sk_dir i) = Some (Directory c)" "es (sk_dir (i + shift)) = None"
    using Cons.prems by (auto simp: movable_def)
  have one: "renumber_one shift sk es = Inr (assign ''id'' (TInt (i + shift)) sk, es1)"
    unfolding es1_def by (rule renumber_one_step [OF Cons.hyps(1) c])
  have fresh: "es1 name = es name" if "name \<noteq> sk_dir i" "name \<noteq> sk_dir (i + shift)" for name
    using that by (simp add: es1_def)
  have apart: "j \<noteq> i \<and> j \<noteq> i + shift \<and> j + shift \<noteq> i \<and> j + shift \<noteq> i + shift" if "j \<in> set ids" for j
    using that Cons.prems by (auto simp: movable_def)
  have "movable shift ids es1"
    using Cons.prems apart unfolding movable_def by (auto simp: fresh sk_dir_inj)
  from Cons.IH [OF this] obtain es' where es': "renumber shift sks es1 =
      (Inr (map2 (\<lambda>sk i. assign ''id'' (TInt (i + shift)) sk) sks ids), es')" and r: "renamed shift ids es1 es'" by blast
  have i: "es' (sk_dir i) = None" "es' (sk_dir (i + shift)) = unlink ''safekeeper.id'' (es (sk_dir i))"
  proof -
    have n: "sk_dir i \<notin> sk_dir ` set ids" "sk_dir i \<notin> (\<lambda>i. sk_dir (i + shift)) ` set ids"
      "sk_dir (i + shift) \<notin> sk_dir ` set ids" "sk_dir (i + shift) \<notin> (\<lambda>i. sk_dir (i + shift)) ` set ids"
      by (auto simp: sk_dir_inj dest: apart)
    have "i \<noteq> i + shift" using Cons.prems by (auto simp: movable_def)
    then show "es' (sk_dir i) = None" "es' (sk_dir (i + shift)) = unlink ''safekeeper.id'' (es (sk_dir i))"
      using r n by (simp_all add: renamed_def es1_def sk_dir_inj)
  qed
  have "renamed shift (i # ids) es es'"
    using r i apart fresh unfolding renamed_def by (auto simp: sk_dir_inj)
  then show ?case by (simp add: one es')
qed

text \<open>A failure leaves the directories renamed that came before it.\<close>

lemma renumber_Inl:
  "renumber shift sks es = (Inl e, es') \<Longrightarrow>
   \<exists>k < length sks. (\<exists>sks'. renumber shift (take k sks) es = (Inr sks', es')) \<and> renumber_one shift (sks ! k) es' = Inl e"
proof (induction sks arbitrary: es)
  case (Cons sk sks)
  show ?case
  proof (cases "renumber_one shift sk es")
    case (Inl e1)
    with Cons.prems show ?thesis by (intro exI [of _ 0]) simp
  next
    case (Inr y)
    obtain sk' es1 where y: "y = (sk', es1)" by fastforce
    with Cons.prems Inr have "renumber shift sks es1 = (Inl e, es')" by (auto split: prod.splits sum.splits)
    from Cons.IH [OF this] obtain k sks' where "k < length sks" "renumber shift (take k sks) es1 = (Inr sks', es')"
      "renumber_one shift (sks ! k) es' = Inl e" by blast
    then show ?thesis using Inr y by (intro exI [of _ "Suc k"]) simp
  qed
qed simp

section \<open>Properties\<close>

definition sample_pageserver :: toml where
  "sample_pageserver = TTable [(''listen_http_addr'', TStr ''localhost:80''), (''listen_pg_addr'', TStr ''localhost:64''),
     (''id'', TInt 1)]"

definition sample_safekeeper :: "int \<Rightarrow> toml" where
  "sample_safekeeper i = TTable [(''id'', TInt i), (''http_port'', TInt 7676), (''pg_port'', TInt 5454)]"

definition sample_clone_config :: "int list \<Rightarrow> toml" where
  "sample_clone_config ids = TTable [(''pageserver'', sample_pageserver),
     (''xactserver'', TTable [(''listen_pg_addr'', TStr ''localhost:10'')]), (''safekeepers'', TArray (map sample_safekeeper ids))]"

definition sample_neon :: "int list \<Rightarrow> neon_dir" where
  "sample_neon ids = \<lparr>pageserver_toml = Inr sample_pageserver, config_toml = Inr (sample_clone_config ids),
     safekeepers = Some (map_of (map (\<lambda>i. (''sk'' @ show_int i, Directory [(''safekeeper.id'', [])])) ids))\<rparr>"

text \<open>C20 An update in a nested document refines an update of the map from paths to values: under the path stands
  the result of the function on the old value, every path not on it keeps its value, and the update
  fails exactly when the path is missing or the function fails on the value there.\<close>

theorem update_inplace_refines:
  assumes "p \<noteq> []"
  shows "(\<forall>d' x. update_inplace f p d = Inr (d', x) \<longrightarrow>
      (\<exists>v. lookup p d = Some v \<and> f v = Inr x) \<and> (\<forall>q. lookup (p @ q) d' = lookup q x) \<and>
      (\<forall>q. \<not> prefix p q \<longrightarrow> \<not> prefix q p \<longrightarrow> lookup q d' = lookup q d)) \<and>
    (isl (update_inplace f p d) \<longleftrightarrow> lookup p d = None \<or> (\<exists>v. lookup p d = Some v \<and> isl (f v)))"
proof -
  have "isl (update_inplace f p d) \<longleftrightarrow> lookup p d = None \<or> (\<exists>v. lookup p d = Some v \<and> isl (f v))"
  proof (cases "lookup p d")
    case None
    then show ?thesis using update_inplace_Inr [OF assms, of f d] by (cases "update_inplace f p d") auto
  next
    case (Some v)
    show ?thesis
      using update_inplace_total [OF assms Some, of f] update_inplace_error [OF assms Some, of f] Some by (cases "f v") auto
  qed
  then show ?thesis
    using update_inplace_Inr [OF assms] lookup_update lookup_update_other by blast
qed

lemma update_inplace_refines_witness:
  "\<exists>d' x. update_inplace (bump 2) [''pageserver'', ''id''] (sample_clone_config []) = Inr (d', x) \<and>
     lookup [''pageserver'', ''id''] d' = Some (TInt 3)"
proof -
  have n: "[''pageserver'', ''id''] \<noteq> []" by simp
  have l: "lookup [''pageserver'', ''id''] (sample_clone_config []) = Some (TInt 1)"
    by (simp add: sample_clone_config_def sample_pageserver_def)
  then have "\<not> isl (update_inplace (bump 2) [''pageserver'', ''id''] (sample_clone_config []))"
    using update_inplace_refines [OF n, of "bump 2" "sample_clone_config []"] by simp
  then obtain d' x where u: "update_inplace (bump 2) [''pageserver'', ''id''] (sample_clone_config []) = Inr (d', x)"
    by (cases "update_inplace (bump 2) [''pageserver'', ''id''] (sample_clone_config [])") auto
  from update_inplace_refines [OF n, THEN conjunct1, rule_format, OF u] l
  have "x = TInt 3" "lookup ([''pageserver'', ''id''] @ []) d' = lookup [] x" by (simp, blast)
  with u show ?thesis by auto
qed

text \<open>What a clone has in common with its source.\<close>

lemma clone_result:
  assumes "clone_neon offset hostname w = (Inr (), w')"
  shows "\<exists>n n' d d' c'. src_neon w = Some n \<and> dst_neon w = None \<and> dst_neon w' = Some n' \<and> src_neon w' = src_neon w \<and>
    pageserver_toml n = Inr d \<and> pageserver_toml n' = Inr d' \<and> config_toml n' = Inr c' \<and>
    (\<exists>old new. lookup [''listen_http_addr''] d = Some old \<and> change_addr offset hostname old = Inr new \<and>
       lookup [''listen_http_addr''] d' = Some new \<and> lookup [''pageserver'', ''listen_http_addr''] c' = Some new) \<and>
    (\<exists>old new. lookup [''listen_pg_addr''] d = Some old \<and> change_addr offset hostname old = Inr new \<and>
       lookup [''listen_pg_addr''] d' = Some new \<and> lookup [''pageserver'', ''listen_pg_addr''] c' = Some new) \<and>
    (\<exists>old new. lookup [''id''] d = Some old \<and> bump offset old = Inr new \<and>
       lookup [''id''] d' = Some new \<and> lookup [''pageserver'', ''id''] c' = Some new)"
proof -
  from assms obtain n n1 where n: "src_neon w = Some n" "dst_neon w = None" and
    e: "edit_configs offset hostname n = (Inr (), n1)" and
    "\<exists>n'. edit_safekeeper_ids offset n1 = (Inr (), n') \<and> w' = w\<lparr>dst_neon := Some n'\<rparr>"
    by (auto simp: clone_neon_def deep_copy_neon_def split: sum.splits prod.splits option.splits if_splits)
  then obtain n' where s: "edit_safekeeper_ids offset n1 = (Inr (), n')" and w': "w' = w\<lparr>dst_neon := Some n'\<rparr>" by blast
  from e obtain d d' c c' http pg i where pd: "pageserver_toml n = Inr d" and
    p: "edit_pageserver offset hostname d = Inr (d', http, pg, i)" and
    c: "edit_config offset hostname http pg i c = Inr c'" and
    n1: "pageserver_toml n1 = Inr d'" "config_toml n1 = Inr c'"
    by (auto simp: edit_configs_def Let_def rbind_eq_Inr split: sum.splits prod.splits)
  from s n1 obtain sks l where f: "subscript ''safekeepers'' c' = Inr sks" and
    n': "config_toml n' = Inr (assign ''safekeepers'' (put_items l sks) c')" "pageserver_toml n' = Inr d'"
    by (auto simp: edit_safekeeper_ids_def rbind_eq_Inr split: option.splits sum.splits prod.splits)
  have "lookup (''pageserver'' # q) (assign ''safekeepers'' (put_items l sks) c') = lookup (''pageserver'' # q) c'" for q
    using f by (rule lookup_assign_other) simp
  with n n' w' pd edit_pageserver_Inr [OF p] edit_config_Inr [OF c] show ?thesis
    by (simp del: lookup.simps)
qed

text \<open>C22 A successful clone agrees with itself: whatever the two configuration files of the source said, both
  files of the copy name the same addresses and the same id of the page server, the ones of the source's
  page server file shifted by the offset; the source is untouched.\<close>

theorem clone_consistent:
  assumes "clone_neon offset hostname w = (Inr (), w')"
  shows "\<exists>n n' d d' c'. src_neon w = Some n \<and> dst_neon w = None \<and> dst_neon w' = Some n' \<and> src_neon w' = src_neon w \<and>
    pageserver_toml n = Inr d \<and> pageserver_toml n' = Inr d' \<and> config_toml n' = Inr c' \<and>
    (\<exists>old new. lookup [''listen_http_addr''] d = Some old \<and> change_addr offset hostname old = Inr new \<and>
       lookup [''listen_http_addr''] d' = Some new \<and> lookup [''pageserver'', ''listen_http_addr''] c' = Some new) \<and>
    (\<exists>old new. lookup [''listen_pg_addr''] d = Some old \<and> change_addr offset hostname old = Inr new \<and>
       lookup [''listen_pg_addr''] d' = Some new \<and> lookup [''pageserver'', ''listen_pg_addr''] c' = Some new) \<and>
    (\<exists>old new. lookup [''id''] d = Some old \<and> bump offset old = Inr new \<and>
       lookup [''id''] d' = Some new \<and> lookup [''pageserver'', ''id''] c' = Some new)"
  using assms by (rule clone_result)

lemma clone_consistent_witness:
  "\<exists>w' n' d'. clone_neon 2 (Some ''neon-2'') \<lparr>src_is_dir = True, src_neon = Some (sample_neon [1]), dst_is_dir = True, dst_neon = None\<rparr>
       = (Inr (), w') \<and> dst_neon w' = Some n' \<and> pageserver_toml n' = Inr d' \<and>
     lookup [''listen_http_addr''] d' = Some (TStr ''neon-2:82'')"
proof -
  let ?w = "\<lparr>src_is_dir = True, src_neon = Some (sample_neon [1]), dst_is_dir = True, dst_neon = None\<rparr>"
  have "fst (clone_neon 2 (Some ''neon-2'') ?w) = Inr ()" by code_simp
  then obtain w' where w': "clone_neon 2 (Some ''neon-2'') ?w = (Inr (), w')" by (metis prod.collapse)
  have "change_addr 2 (Some ''neon-2'') (TStr ''localhost:80'') = Inr (TStr ''neon-2:82'')" by code_simp
  then show ?thesis using w' clone_consistent [OF w']
    by (auto simp: sample_neon_def sample_pageserver_def)
qed

lemma subscript_put_ids:
  "list_all2 (\<lambda>sk i. subscript ''id'' sk = Inr (TInt i)) sks ids \<Longrightarrow>
   map (subscript ''id'') (map2 (\<lambda>sk i. assign ''id'' (TInt (f i)) sk) sks ids) = map (\<lambda>i. Inr (TInt (f i))) ids"
  by (induction rule: list_all2_induct) (simp_all add: subscript_assign)

lemma movable_block:
  assumes "distinct ids" and "set ids \<subseteq> {a ..< a + int m}" and "k \<noteq> 0"
    and "\<forall>i \<in> set ids. (\<exists>c. es (sk_dir i) = Some (Directory c)) \<and> es (sk_dir (i + int m * k)) = None"
  shows "movable (int m * k) ids es"
proof -
  have "1 \<le> \<bar>k\<bar>" using assms(3) by linarith
  then have far: "int m \<le> \<bar>int m * k\<bar>" by (simp add: abs_mult mult_le_cancel_left1)
  have "i + int m * k \<notin> set ids" if "i \<in> set ids" for i
  proof
    assume "i + int m * k \<in> set ids"
    with that assms(2) have "i \<in> {a ..< a + int m}" "i + int m * k \<in> {a ..< a + int m}" by blast+
    with far show False by auto
  qed
  with assms show ?thesis by (simp add: movable_def)
qed

text \<open>C21 The safekeepers of a copy: with ids from a block of as many consecutive numbers as there are safekeepers
  and any offset but zero, the renames one after the other amount to renaming all directories at
  once, the ids in the configuration move with them, and no safekeeper keeps its identity file.\<close>

theorem safekeepers_renamed:
  assumes "safekeepers n = Some es" and "config_toml n = Inr c" and "subscript ''safekeepers'' c = Inr (TArray sks)"
    and "map (subscript ''id'') sks = map (\<lambda>i. Inr (TInt i)) ids" and "distinct ids"
    and "set ids \<subseteq> {a ..< a + int (length sks)}" and "offset \<noteq> 0"
    and "\<forall>i \<in> set ids. (\<exists>files. es (''sk'' @ show_int i) = Some (Directory files)) \<and>
      es (''sk'' @ show_int (i + int (length sks) * offset)) = None"
  shows "\<exists>n' es' c' sks'. edit_safekeeper_ids offset n = (Inr (), n') \<and> safekeepers n' = Some es' \<and>
    renamed (int (length sks) * offset) ids es es' \<and> pageserver_toml n' = pageserver_toml n \<and>
    config_toml n' = Inr c' \<and> subscript ''safekeepers'' c' = Inr (TArray sks') \<and>
    map (subscript ''id'') sks' = map (\<lambda>i. Inr (TInt (i + int (length sks) * offset))) ids"
proof -
  let ?shift = "int (length sks) * offset"
  have l: "list_all2 (\<lambda>sk i. subscript ''id'' sk = Inr (TInt i)) sks ids"
    using assms(4) by (simp add: list_all2_conv_all_nth list_eq_iff_nth_eq)
  obtain es' where r: "renumber ?shift sks es =
      (Inr (map2 (\<lambda>sk i. assign ''id'' (TInt (i + ?shift)) sk) sks ids), es')" "renamed ?shift ids es es'"
    using renumber_renamed [OF l movable_block [OF assms(5-8)]] by blast
  then show ?thesis
    using assms(1-3) subscript_put_ids [OF l, of "\<lambda>i. i + ?shift"]
    by (simp add: edit_safekeeper_ids_def items_of_def put_items_def subscript_assign)
qed

lemma safekeepers_renamed_witness:
  "\<exists>n' es'. edit_safekeeper_ids 1 (sample_neon [1, 2, 3]) = (Inr (), n') \<and> safekeepers n' = Some es' \<and>
     es' ''sk4'' = Some (Directory [])"
proof -
  let ?es = "map_of (map (\<lambda>i. (''sk'' @ show_int i, Directory [(''safekeeper.id'', [])])) [1, 2, 3])"
  have d: "?es ''sk1'' = Some (Directory [(''safekeeper.id'', [])])" by code_simp
  have "\<forall>i \<in> set [1, 2, 3]. (\<exists>files. ?es (''sk'' @ show_int i) = Some (Directory files)) \<and>
      ?es (''sk'' @ show_int (i + 3 * 1)) = None"
    by (simp add: sk_dir_inj)
  moreover have "map (subscript ''id'') (map sample_safekeeper [1, 2, 3]) = map (\<lambda>i. Inr (TInt i)) [1, 2, 3]"
    by (simp add: sample_safekeeper_def)
  ultimately obtain n' es' where e: "edit_safekeeper_ids 1 (sample_neon [1, 2, 3]) = (Inr (), n')" "safekeepers n' = Some es'"
    and r: "renamed 3 [1, 2, 3] ?es es'"
    using safekeepers_renamed [of "sample_neon [1, 2, 3]" ?es "sample_clone_config [1, 2, 3]" "map sample_safekeeper [1, 2, 3]" "[1, 2, 3]" 1 1]
    by (auto simp: sample_neon_def sample_clone_config_def)
  have s: "sk_dir 4 = ''sk4''" "sk_dir 1 = ''sk1''" by code_simp+
  have "es' (sk_dir (1 + 3)) = unlink ''safekeeper.id'' (?es (sk_dir 1))"
    using r unfolding renamed_def by simp
  with s d have "es' ''sk4'' = Some (Directory [])" by simp
  with e show ?thesis by blast
qed

text \<open>A renumbering that fails is left half done: the configuration still has the old ids, while the
  directories of the safekeepers before the failing one have their new names. Ids with a gap are enough for it.\<close>

theorem renumbering_half_done:
  assumes "edit_safekeeper_ids offset n = (Inl e, n')" and "safekeepers n = Some es" and "config_toml n = Inr c"
    and "subscript ''safekeepers'' c = Inr (TArray sks)"
  shows "config_toml n' = config_toml n \<and> pageserver_toml n' = pageserver_toml n \<and>
    (\<exists>k sks' es'. k < length sks \<and> safekeepers n' = Some es' \<and>
       renumber (int (length sks) * offset) (take k sks) es = (Inr sks', es') \<and>
       renumber_one (int (length sks) * offset) (sks ! k) es' = Inl e)"
proof -
  obtain es' where r: "renumber (int (length sks) * offset) sks es = (Inl e, es')" and n': "n' = n\<lparr>safekeepers := Some es'\<rparr>"
    using assms by (auto simp: edit_safekeeper_ids_def items_of_def split: sum.splits prod.splits)
  from renumber_Inl [OF r] n' show ?thesis by auto
qed

lemma renumbering_half_done_witness:
  "\<exists>n' es'. edit_safekeeper_ids 1 (sample_neon [1, 3]) = (Inl (OSError ''sk3''), n') \<and>
     config_toml n' = config_toml (sample_neon [1, 3]) \<and> safekeepers n' = Some es'"
proof -
  have f: "fst (edit_safekeeper_ids 1 (sample_neon [1, 3])) = Inl (OSError ''sk3'')" by code_simp
  then obtain n' where e: "edit_safekeeper_ids 1 (sample_neon [1, 3]) = (Inl (OSError ''sk3''), n')" by (metis prod.collapse)
  define es where "es = map_of (map (\<lambda>i. (''sk'' @ show_int i, Directory [(''safekeeper.id'', [])])) [1, 3])"
  have "safekeepers (sample_neon [1, 3]) = Some es" "config_toml (sample_neon [1, 3]) = Inr (sample_clone_config [1, 3])"
    "subscript ''safekeepers'' (sample_clone_config [1, 3]) = Inr (TArray (map sample_safekeeper [1, 3]))"
    by (simp_all add: sample_neon_def sample_clone_config_def es_def)
  from renumbering_half_done [OF e this] e show ?thesis by blast
qed

end
