(* ===== verification/Behaviour.thy ===== *)
theory Behaviour
  imports Process "HOL-Library.Multiset"
begin

text \<open>
  Functions with effects as the set of their complete runs: \<open>b es r\<close> holds when a run of \<open>b\<close>
  may have the events \<open>es\<close> and end with \<open>r\<close>, an exception or \<open>None\<close>. A function that need not end
  has no run for the ways in which it goes on for ever. The combinators are the ones of the code:
  one after the other, until the first exception, and \<^verbatim>\<open>list(executor.map(...))\<close> on a pool with
  one worker for each task.
\<close>

named_theorems safety \<open>what holds of all events of a composed behaviour\<close>
named_theorems ending_rules \<open>composed behaviours that have a run\<close>

type_synonym 'e behaviour = "'e list \<Rightarrow> exn option \<Rightarrow> bool"

section \<open>The combinators\<close>

definition silent :: "'e behaviour" where
  "silent es r \<longleftrightarrow> es = [] \<and> r = None"

definition raising :: "exn \<Rightarrow> 'e behaviour" where
  "raising x es r \<longleftrightarrow> es = [] \<and> r = Some x"

definition or_raise :: "'a res \<Rightarrow> ('a \<Rightarrow> 'e behaviour) \<Rightarrow> 'e behaviour" where
  "or_raise v k = (case v of Inl x \<Rightarrow> raising x | Inr a \<Rightarrow> k a)"

definition and_then :: "'e behaviour \<Rightarrow> 'e behaviour \<Rightarrow> 'e behaviour" where
  "and_then b c es r \<longleftrightarrow> (\<exists>x. r = Some x \<and> b es r) \<or>
     (\<exists>es1 es2. es = es1 @ es2 \<and> b es1 None \<and> c es2 r)"

fun in_order :: "'e behaviour list \<Rightarrow> 'e behaviour" where
  "in_order [] = silent"
| "in_order (b # bs) = and_then b (in_order bs)"

text \<open>
  The results are read in the order of the tasks and the first exception is raised; what is still
  queued then is cancelled, what is running is waited for.
\<close>

definition pool_map :: "'e behaviour list \<Rightarrow> (nat \<times> 'e) list \<Rightarrow> exn option \<Rightarrow> bool" where
  "pool_map bs l r \<longleftrightarrow> fst ` set l \<subseteq> {..< length bs} \<and> (case r of
     None \<Rightarrow> \<forall>i < length bs. (bs ! i) (own i l) None
   | Some x \<Rightarrow> \<exists>k < length bs. (\<forall>i < k. (bs ! i) (own i l) None) \<and> (bs ! k) (own k l) (Some x) \<and>
       (\<forall>i < length bs. k < i \<longrightarrow> own i l = [] \<or> (\<exists>y. (bs ! i) (own i l) y)))"

definition in_pool :: "'e behaviour list \<Rightarrow> 'e behaviour" where
  "in_pool bs es r \<longleftrightarrow> (if bs = [] then raising no_workers es r else (\<exists>l. es = map snd l \<and> pool_map bs l r))"

lemma or_raise_simps [simp]:
  "or_raise (Inl x) k = raising x"
  "or_raise (Inr a) k = k a"
  by (simp_all add: or_raise_def)

lemma and_thenE:
  assumes "and_then b c es r"
  obtains (first) x where "b es (Some x)" "r = Some x"
  | (both) es1 es2 where "es = es1 @ es2" "b es1 None" "c es2 r"
  using assms unfolding and_then_def by blast

lemma and_thenI:
  "b es1 None \<Longrightarrow> c es2 r \<Longrightarrow> and_then b c (es1 @ es2) r"
  "b es1 (Some x) \<Longrightarrow> and_then b c es1 (Some x)"
  unfolding and_then_def by blast+

lemma and_then_silent [simp]: "and_then silent b = b"
  by (intro ext) (auto simp: and_then_def silent_def)

lemma and_then_silent_right [simp]: "and_then b silent = b"
proof (intro ext)
  fix es r
  show "and_then b silent es r = b es r" by (cases r) (auto simp: and_then_def silent_def)
qed

lemma and_then_raising [simp]: "and_then (raising x) b = raising x"
  by (intro ext) (auto simp: and_then_def raising_def)

lemma and_then_assoc: "and_then (and_then a b) c = and_then a (and_then b c)"
proof (intro ext iffI)
  fix es r
  assume "and_then (and_then a b) c es r"
  then show "and_then a (and_then b c) es r"
    by (elim and_thenE) (auto intro: and_thenI)
next
  fix es r
  assume "and_then a (and_then b c) es r"
  then show "and_then (and_then a b) c es r"
    by (elim and_thenE) (auto intro: and_thenI simp flip: append_assoc)
qed

lemma in_order_append: "in_order (bs @ cs) = and_then (in_order bs) (in_order cs)"
  by (induction bs) (simp_all add: and_then_assoc)

text \<open>A normal ending of a sequence is a normal ending of each part, in order.\<close>

lemma in_order_None:
  "in_order bs es None \<longleftrightarrow> (\<exists>ess. length ess = length bs \<and> es = concat ess \<and> (\<forall>i < length bs. (bs ! i) (ess ! i) None))"
proof (induction bs arbitrary: es)
  case (Cons b bs)
  show ?case
  proof
    assume "in_order (b # bs) es None"
    then obtain es1 es2 where e: "es = es1 @ es2" "b es1 None" "in_order bs es2 None"
      by (auto elim: and_thenE)
    with Cons obtain ess where "length ess = length bs" "es2 = concat ess" "\<forall>i < length bs. (bs ! i) (ess ! i) None" by blast
    with e show "\<exists>ess. length ess = length (b # bs) \<and> es = concat ess \<and> (\<forall>i < length (b # bs). ((b # bs) ! i) (ess ! i) None)"
      by (intro exI [of _ "es1 # ess"]) (auto simp: less_Suc_eq_0_disj)
  next
    assume "\<exists>ess. length ess = length (b # bs) \<and> es = concat ess \<and> (\<forall>i < length (b # bs). ((b # bs) ! i) (ess ! i) None)"
    then obtain es1 ess where e: "length ess = length bs" "es = es1 @ concat ess"
      "\<forall>i < length (b # bs). ((b # bs) ! i) ((es1 # ess) ! i) None" by (auto simp: length_Suc_conv)
    then have "b es1 None" "\<forall>i < length bs. (bs ! i) (ess ! i) None" by fastforce+
    with Cons e show "in_order (b # bs) es None" by (auto intro: and_thenI)
  qed
qed (auto simp: silent_def)

text \<open>The events of a pool are those of its tasks, in the order of each task.\<close>

lemma own_eq_Nil: "fst ` set l \<subseteq> {..< n} \<Longrightarrow> n \<le> i \<Longrightarrow> own i l = []"
  by (force simp: own_def filter_empty_conv)

lemma own_append [simp]: "own i (k @ l) = own i k @ own i l"
  by (simp add: own_def)

lemma pool_map_task:
  "pool_map bs l r \<Longrightarrow> i < length bs \<Longrightarrow> own i l = [] \<or> (\<exists>x. (bs ! i) (own i l) x)"
  unfolding pool_map_def by (cases r) (auto, metis linorder_neqE_nat)

section \<open>Events\<close>

definition all_events :: "('e \<Rightarrow> bool) \<Rightarrow> 'e behaviour \<Rightarrow> bool" where
  "all_events P b \<longleftrightarrow> (\<forall>es r. b es r \<longrightarrow> (\<forall>e \<in> set es. P e))"

lemma all_eventsD: "all_events P b \<Longrightarrow> b es r \<Longrightarrow> e \<in> set es \<Longrightarrow> P e"
  by (auto simp: all_events_def)

lemma all_events_silent [safety]: "all_events P silent" "all_events P (raising x)"
  by (simp_all add: all_events_def silent_def raising_def)

lemma all_events_or_raise [safety]: "(\<And>a. v = Inr a \<Longrightarrow> all_events P (k a)) \<Longrightarrow> all_events P (or_raise v k)"
  by (cases v) (auto simp: safety)

lemma all_events_and_then [safety]: "all_events P b \<Longrightarrow> all_events P c \<Longrightarrow> all_events P (and_then b c)"
  unfolding all_events_def by (fastforce elim!: and_thenE)

lemma all_events_in_order [safety]: "(\<And>b. b \<in> set bs \<Longrightarrow> all_events P b) \<Longrightarrow> all_events P (in_order bs)"
  by (induction bs) (auto simp: safety)

lemma all_events_in_pool [safety]:
  assumes "\<And>b. b \<in> set bs \<Longrightarrow> all_events P b"
  shows "all_events P (in_pool bs)"
  unfolding all_events_def
proof (intro allI impI ballI)
  fix es r e
  assume p: "in_pool bs es r" and e: "e \<in> set es"
  then have "bs \<noteq> []" by (auto simp: in_pool_def raising_def)
  with p obtain l where l: "es = map snd l" "pool_map bs l r" unfolding in_pool_def by auto
  from e l(1) obtain i where i: "(i, e) \<in> set l" by auto
  then have "i < length bs" using l(2) unfolding pool_map_def by force
  with pool_map_task [OF l(2)] i obtain x where "(bs ! i) (own i l) x" by (fastforce simp: own_def filter_empty_conv)
  with assms [OF nth_mem [OF \<open>i < length bs\<close>]] i show "P e" by (auto simp: all_events_def own_mem)
qed

section \<open>Ending\<close>

text \<open>A kind of task whose runs all can be completed: the pools made of them can be left.\<close>

definition ends :: "'e behaviour \<Rightarrow> bool" where
  "ends b \<longleftrightarrow> (\<exists>es r. b es r)"

lemma ends_silent [ending_rules]: "ends silent" "ends (raising x)"
  by (simp_all add: ends_def silent_def raising_def)

lemma ends_or_raise [ending_rules]: "(\<And>a. v = Inr a \<Longrightarrow> ends (k a)) \<Longrightarrow> ends (or_raise v k)"
  by (cases v) (auto simp: ending_rules)

lemma ends_and_then [ending_rules]: "ends b \<Longrightarrow> ends c \<Longrightarrow> ends (and_then b c)"
proof -
  assume "ends b" "ends c"
  then obtain es x es' r where b: "b es x" and c: "c es' r" unfolding ends_def by blast
  show "ends (and_then b c)"
    using and_thenI(1) [of b es c es' r] and_thenI(2) [of b es _ c] b c
    unfolding ends_def by (cases x) blast+
qed

lemma ends_in_order [ending_rules]: "(\<And>b. b \<in> set bs \<Longrightarrow> ends b) \<Longrightarrow> ends (in_order bs)"
  by (induction bs) (auto intro: ending_rules)

lemma own_numbered: "own i (concat (map (\<lambda>k. map (Pair k) (f k)) [0 ..< n])) = (if i < n then f i else [])"
  by (induction n) (auto simp: own_def filter_map comp_def less_Suc_eq)

lemma ends_in_pool [ending_rules]:
  assumes "\<And>b. b \<in> set bs \<Longrightarrow> ends b"
  shows "ends (in_pool bs)"
proof (cases "bs = []")
  case True
  then show ?thesis by (simp add: ends_def in_pool_def raising_def)
next
  case False
  have "\<forall>i. \<exists>es x. i < length bs \<longrightarrow> (bs ! i) es x" using assms nth_mem unfolding ends_def by metis
  then obtain f g where fg: "\<And>i. i < length bs \<Longrightarrow> (bs ! i) (f i) (g i)" by metis
  define l where "l = concat (map (\<lambda>k. map (Pair k) (f k)) [0 ..< length bs])"
  have own: "own i l = f i" if "i < length bs" for i using that own_numbered [of i f "length bs"] by (simp add: l_def)
  have l: "fst ` set l \<subseteq> {..< length bs}" by (auto simp: l_def)
  have "\<exists>r. pool_map bs l r"
  proof (cases "\<forall>i < length bs. g i = None")
    case True
    then have "(bs ! i) (own i l) None" if "i < length bs" for i using fg [OF that] own [OF that] that by simp
    with l have "pool_map bs l None" by (simp add: pool_map_def)
    then show ?thesis ..
  next
    case False
    define k where "k = (LEAST i. i < length bs \<and> g i \<noteq> None)"
    from False have ex: "\<exists>i. i < length bs \<and> g i \<noteq> None" by blast
    have k: "k < length bs" "g k \<noteq> None" using LeastI_ex [OF ex] unfolding k_def by blast+
    have "g i = None" if "i < k" for i
      using not_less_Least [of i "\<lambda>i. i < length bs \<and> g i \<noteq> None"] that k(1) unfolding k_def [symmetric] by auto
    then have "(bs ! i) (own i l) None" if "i < k" for i
      using fg [of i] own [of i] k(1) that by (metis order.strict_trans)
    moreover obtain x where "g k = Some x" using k(2) by blast
    moreover have "(bs ! k) (own k l) (g k)" using fg k(1) by (simp add: own)
    moreover have "\<exists>y. (bs ! i) (own i l) y" if "i < length bs" for i using fg that own by metis
    ultimately have "pool_map bs l (Some x)" unfolding pool_map_def using l k(1) by auto
    then show ?thesis ..
  qed
  with False show ?thesis unfolding ends_def in_pool_def by auto
qed

lemma no_run_events: "all_events P (\<lambda>cs r. False)"
  by (simp add: all_events_def)

section \<open>Pools that end normally\<close>

lemma in_pool_None: "in_pool bs es None \<longleftrightarrow> bs \<noteq> [] \<and> (\<exists>l. es = map snd l \<and> fst ` set l \<subseteq> {..< length bs} \<and>
    (\<forall>i < length bs. (bs ! i) (own i l) None))"
  by (auto simp: in_pool_def raising_def pool_map_def)

lemma own_Cons: "own i (x # l) = (if fst x = i then snd x # own i l else own i l)"
  by (simp add: own_def)

lemma own_subset: "set (own i l) \<subseteq> set (map snd l)"
  by (auto simp: own_def)

text \<open>The events of a pool, without their order, are the events of its tasks.\<close>

lemma pool_mset: "fst ` set l \<subseteq> {..< n} \<Longrightarrow> mset (map snd l) = (\<Sum>i < n. mset (own i l))"
proof (induction l)
  case Nil
  then show ?case by (simp add: own_def)
next
  case (Cons x l)
  then have "fst x < n" by auto
  then have "(\<Sum>i < n. mset (own i (x # l))) = (\<Sum>i < n. (if fst x = i then {# snd x #} else {#}) + mset (own i l))"
    by (intro sum.cong) (auto simp: own_Cons)
  also have "\<dots> = {# snd x #} + mset (map snd l)"
    using Cons \<open>fst x < n\<close> by (simp add: sum.distrib)
  finally show ?case by simp
qed

lemma image_mset_sum: "image_mset f (\<Sum>i < (n :: nat). g i) = (\<Sum>i < n. image_mset f (g i))"
  by (induction n) simp_all

lemma in_pool_singles:
  assumes "in_pool (map b xs) es None" and "\<And>x cs. x \<in> set xs \<Longrightarrow> b x cs None \<Longrightarrow> \<exists>e. cs = [e] \<and> f e = g x"
  shows "image_mset f (mset es) = mset (map g xs)"
proof -
  from assms(1) obtain l where l: "es = map snd l" "fst ` set l \<subseteq> {..< length xs}"
    "\<forall>i < length xs. b (xs ! i) (own i l) None" by (auto simp: in_pool_None)
  have "image_mset f (mset es) = (\<Sum>i < length xs. image_mset f (mset (own i l)))"
    unfolding l(1) pool_mset [OF l(2)] by (rule image_mset_sum)
  also have "\<dots> = (\<Sum>i < length xs. {# g (xs ! i) #})"
  proof (rule sum.cong [OF refl])
    fix i
    assume "i \<in> {..< length xs}"
    then have "i < length xs" by simp
    from assms(2) [OF nth_mem [OF this]] l(3) this obtain e where "own i l = [e]" "f e = g (xs ! i)" by blast
    then show "image_mset f (mset (own i l)) = {# g (xs ! i) #}" by simp
  qed
  also have "\<dots> = mset (map g xs)"
    by (induction xs rule: rev_induct) (simp_all add: nth_append)
  finally show ?thesis .
qed

lemma in_pool_one: "b es r \<Longrightarrow> in_pool [b] es r"
proof -
  assume b: "b es r"
  have "fst ` set (map (Pair 0) es) \<subseteq> {..< length [b]}" by auto
  with b have "pool_map [b] (map (Pair 0) es) r" unfolding pool_map_def by (cases r) auto
  then show ?thesis unfolding in_pool_def by (auto intro!: exI [of _ "map (Pair 0) es"] simp: comp_def)
qed

lemma pool_task_None:
  assumes "in_pool (map b xs) es None" and "x \<in> set xs"
  shows "\<exists>cs. b x cs None \<and> set cs \<subseteq> set es"
proof -
  from assms(2) obtain i where i: "i < length xs" "xs ! i = x" by (auto simp: in_set_conv_nth)
  from assms(1) obtain l where l: "es = map snd l" "\<forall>i < length xs. b (xs ! i) (own i l) None" by (auto simp: in_pool_None)
  with i have "b x (own i l) None" by auto
  then show ?thesis using own_subset [of i l] unfolding l(1) by blast
qed

section \<open>Where a sequence fails\<close>

lemma in_order_Some:
  "in_order bs es (Some x) \<longleftrightarrow> (\<exists>k < length bs. \<exists>es1 es2. es = es1 @ es2 \<and> in_order (take k bs) es1 None \<and> (bs ! k) es2 (Some x))"
proof (induction bs arbitrary: es)
  case Nil
  then show ?case by (simp add: silent_def)
next
  case (Cons b bs)
  show ?case
  proof
    assume "in_order (b # bs) es (Some x)"
    then have "and_then b (in_order bs) es (Some x)" by simp
    then show "\<exists>k < length (b # bs). \<exists>es1 es2. es = es1 @ es2 \<and> in_order (take k (b # bs)) es1 None \<and> ((b # bs) ! k) es2 (Some x)"
    proof (cases rule: and_thenE)
      case (first y)
      then show ?thesis by (intro exI [of _ 0] conjI exI [of _ "[]"] exI [of _ es]) (simp_all add: silent_def)
    next
      case (both es1 es2)
      from Cons.IH [of es2] both(3) obtain k es3 es4 where k: "k < length bs" "es2 = es3 @ es4" "in_order (take k bs) es3 None"
        "(bs ! k) es4 (Some x)" by blast
      have "in_order (take (Suc k) (b # bs)) (es1 @ es3) None"
        using and_thenI(1) [where b = b and c = "in_order _", OF both(2) k(3)] by simp
      then show ?thesis using both(1) k by (intro exI [of _ "Suc k"] conjI exI [of _ "es1 @ es3"] exI [of _ es4]) simp_all
    qed
  next
    assume "\<exists>k < length (b # bs). \<exists>es1 es2. es = es1 @ es2 \<and> in_order (take k (b # bs)) es1 None \<and> ((b # bs) ! k) es2 (Some x)"
    then obtain k es1 es2 where k: "k < length (b # bs)" "es = es1 @ es2" "in_order (take k (b # bs)) es1 None"
      "((b # bs) ! k) es2 (Some x)" by blast
    show "in_order (b # bs) es (Some x)"
    proof (cases k)
      case 0
      then show ?thesis using k and_thenI(2) [of b es2 x] by (simp add: silent_def)
    next
      case (Suc j)
      with k(3) obtain u v where u: "es1 = u @ v" "b u None" "in_order (take j bs) v None" by (auto elim: and_thenE)
      with Cons.IH [of "v @ es2"] k Suc have "in_order bs (v @ es2) (Some x)" by (intro iffD2 [OF Cons.IH]) auto
      then show ?thesis using and_thenI(1) [of b u "in_order bs"] u k(2) by simp
    qed
  qed
qed

section \<open>Kinds of tasks\<close>

text \<open>
  What a caller relies on when it runs tasks of one kind: each of them can be completed, and each
  of its events is one that the task may do. Both carry over to pools and sequences of tasks.
\<close>

locale task_kind =
  fixes run :: "'p \<Rightarrow> 'e behaviour"
    and does :: "'p \<Rightarrow> 'e \<Rightarrow> bool"
  assumes run_ends: "ends (run p)"
    and run_does: "run p es r \<Longrightarrow> e \<in> set es \<Longrightarrow> does p e"
begin

lemma all_run: "all_events (does p) (run p)"
  by (auto simp: all_events_def dest: run_does)

lemma pool_ends: "ends (in_pool (map run ps))"
  by (auto intro!: ends_in_pool run_ends)

lemma sequence_ends: "ends (in_order (map run ps))"
  by (auto intro!: ends_in_order run_ends)

lemma pool_does: "all_events (\<lambda>e. \<exists>p \<in> set ps. does p e) (in_pool (map run ps))"
  by (rule all_events_in_pool) (auto simp: all_events_def dest: run_does)

lemma sequence_does: "all_events (\<lambda>e. \<exists>p \<in> set ps. does p e) (in_order (map run ps))"
  by (rule all_events_in_order) (auto simp: all_events_def dest: run_does)

end

end
