(* ===== verification/Deploy.thy ===== *)
theory Deploy
  imports Benchmark Behaviour Argparse
begin

text \<open>
  \<^verbatim>\<open>tools/deploy.py\<close>: the five stages that bring SunStorm onto the clusters. A stage is a
  behaviour: commands of helm and kubectl, the file with the addresses of the load balancers,
  and the requests that delete and create namespaces, in the order in which they happen. The
  answers of AWS, DNS and the clock are functions of the number of the question; the answers of
  the Kubernetes API are part of the events.
\<close>

section \<open>Events\<close>

text \<open>
  \<open>Delete_refused\<close> and \<open>Create_refused\<close> are API exceptions, the latter with what
  \<^verbatim>\<open>json.loads(e.body)["message"]\<close> gives; the \<open>failed\<close> replies are all other exceptions.
\<close>

datatype delete_reply = Deleted | Delete_refused int | Delete_failed exn

datatype create_reply = Created | Create_refused "string res" | Create_failed exn

datatype call =
    Ran "string list" "int option"
  | Wrote string "(string \<times> string list) list"
  | Deletes string string bool delete_reply
  | Creates string string bool create_reply

definition command :: "prog \<Rightarrow> call behaviour" where
  "command p cs r \<longleftrightarrow> (\<exists>es. cs = map (\<lambda>(c, rc). Ran c rc) es \<and> runs p es r)"

text \<open>\<^verbatim>\<open>context_flag\<close>: every exception of \<^verbatim>\<open>get_context\<close> gives no flag at all.\<close>

definition context_flag :: "site \<Rightarrow> string \<Rightarrow> string \<Rightarrow> string list" where
  "context_flag st region flag = (case get_context (contexts st) (yaml st) region of
     Inl e \<Rightarrow> []
   | Inr ctx \<Rightarrow> [flag, ctx])"

section \<open>try_with_timeout\<close>

definition timed_out :: "string \<Rightarrow> int \<Rightarrow> exn" where
  "timed_out name timeout =
     TimeoutError (''Timeout: '' @ name @ '' did not return within '' @ show_int timeout @ '' seconds.'')"

text \<open>
  \<open>fn k\<close> is the answer to question \<open>k\<close> and \<open>clock k\<close> the reading of the clock before it. The
  second component counts the questions; the clock need not reach the limit.
\<close>

partial_function (option) try_from ::
    "string \<Rightarrow> (nat \<Rightarrow> 'a option res) \<Rightarrow> (nat \<Rightarrow> rat) \<Rightarrow> int \<Rightarrow> nat \<Rightarrow> ('a res \<times> nat) option" where
  "try_from name fn clock timeout k = (case fn k of
     Inl e \<Rightarrow> Some (Inl e, Suc k)
   | Inr (Some x) \<Rightarrow> Some (Inr x, Suc k)
   | Inr None \<Rightarrow> if clock (Suc k) - clock 0 \<ge> of_int timeout
       then Some (Inl (timed_out name timeout), Suc k)
       else try_from name fn clock timeout (Suc k))"

definition try_with_timeout :: "string \<Rightarrow> (nat \<Rightarrow> 'a option res) \<Rightarrow> (nat \<Rightarrow> rat) \<Rightarrow> int \<Rightarrow> ('a res \<times> nat) option" where
  "try_with_timeout name fn clock timeout = try_from name fn clock timeout 0"

section \<open>The regions\<close>

definition region_names :: "main_config \<Rightarrow> string list res" where
  "region_names cfg = (case regions cfg of
     RAbsent \<Rightarrow> Inl (KeyError ''regions'')
   | RNull \<Rightarrow> Inr []
   | RDict d \<Rightarrow> Inr (dkeys d))"

text \<open>\<^verbatim>\<open>set(config["regions"] or []) | {config["global_region"]}\<close>, without duplicates.\<close>

definition region_set :: "main_config \<Rightarrow> (string \<times> string list) res" where
  "region_set cfg = rbind (region_names cfg) (\<lambda>rs.
     rbind (req (KeyError ''global_region'') (global_region cfg)) (\<lambda>g. Inr (g, remdups (g # rs))))"

text \<open>A loop over a set goes through its elements in some order.\<close>

definition in_any_order :: "'a list \<Rightarrow> ('a list \<Rightarrow> 'e behaviour) \<Rightarrow> 'e behaviour" where
  "in_any_order xs k es r \<longleftrightarrow> (\<exists>ys. distinct ys \<and> set ys = set xs \<and> k ys es r)"

section \<open>set_up_load_balancer_for_coredns\<close>

definition load_balancer :: "site \<Rightarrow> bool \<Rightarrow> string \<Rightarrow> prog" where
  "load_balancer st dry_run region =
     run_subprocess ([''kubectl'', ''apply'', ''-f'', base_path st @ ''/dns-lb.yaml''] @
       context_flag st region ''--context'') dry_run True Ret"

definition set_up_load_balancer :: "site \<Rightarrow> main_config \<Rightarrow> bool \<Rightarrow> call behaviour" where
  "set_up_load_balancer st cfg dry_run = or_raise (region_set cfg) (\<lambda>(g, rs).
     if length rs = 1 then silent
     else in_any_order rs (\<lambda>order. in_order (map (\<lambda>r. command (load_balancer st dry_run r)) order)))"

section \<open>install_dns_configmap\<close>

text \<open>
  The names of the load balancers of a region, the addresses of a name (\<open>None\<close> for any
  exception, which is swallowed), the clock of either wait, and the name of the temporary file.
\<close>

record dns_api =
  balancers :: "string \<Rightarrow> nat \<Rightarrow> string list res"
  resolve :: "string \<Rightarrow> string \<Rightarrow> nat \<Rightarrow> string list option"
  balancer_clock :: "string \<Rightarrow> nat \<Rightarrow> rat"
  resolve_clock :: "string \<Rightarrow> nat \<Rightarrow> rat"
  dns_file :: string

definition balancer_name :: "dns_api \<Rightarrow> string \<Rightarrow> (string res \<times> nat) option" where
  "balancer_name api region = try_with_timeout ''get_load_balancer_public_addresses''
     (\<lambda>k. rbind (balancers api region k) (\<lambda>l. Inr (case l of [] \<Rightarrow> None | d # _ \<Rightarrow> Some d)))
     (balancer_clock api region) 300"

definition region_addresses :: "dns_api \<Rightarrow> string \<Rightarrow> string list res option" where
  "region_addresses api region = (case balancer_name api region of
     None \<Rightarrow> None
   | Some (Inl e, _) \<Rightarrow> Some (Inl e)
   | Some (Inr d, _) \<Rightarrow> map_option fst (try_with_timeout ''get_load_balancer_ip_addresses''
       (\<lambda>k. Inr (resolve api region d k)) (resolve_clock api region) 300))"

fun collect_addresses :: "dns_api \<Rightarrow> string list \<Rightarrow> (string \<times> string list) list res option" where
  "collect_addresses api [] = Some (Inr [])"
| "collect_addresses api (r # rs) = (case region_addresses api r of
     None \<Rightarrow> None
   | Some (Inl e) \<Rightarrow> Some (Inl e)
   | Some (Inr a) \<Rightarrow> map_option (\<lambda>v. rbind v (\<lambda>l. Inr ((r, a) # l))) (collect_addresses api rs))"

definition dns_config :: "site \<Rightarrow> string \<Rightarrow> bool \<Rightarrow> string \<Rightarrow> string \<Rightarrow> prog" where
  "dns_config st g dry_run file region =
     run_subprocess ([''helm'', ''uninstall'', ''dns-'' @ region] @ context_flag st region ''--kube-context'') dry_run False
     (run_subprocess ([''kubectl'', ''delete'', ''configmap'', ''coredns'', ''--namespace'', ''kube-system''] @
        context_flag st region ''--context'') dry_run False
     (run_subprocess ([''helm'', ''install'', ''dns-'' @ region, ''-f'', file, ''--set'',
          ''region='' @ region @ '',global_region='' @ g, base_path st @ ''/helm-dns''] @
        context_flag st region ''--kube-context'') dry_run True Ret))"

definition writes :: "string \<Rightarrow> (string \<times> string list) list \<Rightarrow> call behaviour" where
  "writes file addresses cs r \<longleftrightarrow> cs = [Wrote file addresses] \<and> r = None"

definition install_dns :: "site \<Rightarrow> dns_api \<Rightarrow> main_config \<Rightarrow> bool \<Rightarrow> call behaviour" where
  "install_dns st api cfg dry_run = or_raise (req (KeyError ''global_region'') (global_region cfg)) (\<lambda>_.
     or_raise (region_set cfg) (\<lambda>(g, rs).
     if length rs = 1 then silent
     else in_any_order rs (\<lambda>order.
       case (if dry_run then Some (Inr []) else collect_addresses api order) of
         None \<Rightarrow> (\<lambda>cs r. False)
       | Some v \<Rightarrow> or_raise v (\<lambda>addresses. and_then (writes (dns_file api) addresses)
           (in_order (map (\<lambda>r. command (dns_config st g dry_run (dns_file api) r)) order))))))"

section \<open>create_namespaces\<close>

text \<open>\<open>load_config\<close>: what loading the kube configuration for a context gives.\<close>

definition kube_config :: "site \<Rightarrow> (string \<Rightarrow> unit res) \<Rightarrow> string \<Rightarrow> string res" where
  "kube_config st load_config region = rbind (get_context (contexts st) (yaml st) region) (\<lambda>ctx.
     rbind (load_config ctx) (\<lambda>_. Inr ctx))"

fun delete_once :: "string \<Rightarrow> string \<Rightarrow> bool \<Rightarrow> call behaviour" where
  "delete_once ctx n dry_run [Deletes c m d reply] r \<longleftrightarrow> c = ctx \<and> m = n \<and> d = dry_run \<and>
     r = (case reply of Delete_failed e \<Rightarrow> Some e | _ \<Rightarrow> None)"
| "delete_once ctx n dry_run _ r \<longleftrightarrow> False"

definition clean_up_namespace :: "site \<Rightarrow> (string \<Rightarrow> unit res) \<Rightarrow> bool \<Rightarrow> string \<times> namespace_info \<Rightarrow> call behaviour" where
  "clean_up_namespace st load_config dry_run = (\<lambda>(n, info).
     or_raise (kube_config st load_config (ni_region info)) (\<lambda>ctx. delete_once ctx n dry_run))"

text \<open>The loop: while the old namespace is being deleted, the request is repeated.\<close>

fun create_loop :: "string \<Rightarrow> string \<Rightarrow> bool \<Rightarrow> call behaviour" where
  "create_loop ctx n dry_run (Creates c m d reply # cs) r \<longleftrightarrow> c = ctx \<and> m = n \<and> d = dry_run \<and> (case reply of
     Created \<Rightarrow> cs = [] \<and> r = None
   | Create_failed e \<Rightarrow> cs = [] \<and> r = Some e
   | Create_refused (Inl e) \<Rightarrow> cs = [] \<and> r = Some e
   | Create_refused (Inr message) \<Rightarrow>
       if str_in ''object is being deleted'' message then create_loop ctx n dry_run cs r else cs = [] \<and> r = None)"
| "create_loop ctx n dry_run _ r \<longleftrightarrow> False"

definition create_namespace :: "site \<Rightarrow> (string \<Rightarrow> unit res) \<Rightarrow> bool \<Rightarrow> string \<times> namespace_info \<Rightarrow> call behaviour" where
  "create_namespace st load_config dry_run = (\<lambda>(n, info).
     or_raise (kube_config st load_config (ni_region info)) (\<lambda>ctx. create_loop ctx n dry_run))"

definition clean_up_neon :: "site \<Rightarrow> bool \<Rightarrow> string \<times> namespace_info \<Rightarrow> prog" where
  "clean_up_neon st dry_run = (\<lambda>(n, info).
     run_subprocess ([''helm'', ''uninstall'', ''neon-'' @ n, ''--namespace'', n] @
       context_flag st (ni_region info) ''--kube-context'') dry_run False Ret)"

definition create_namespaces :: "site \<Rightarrow> (string \<Rightarrow> unit res) \<Rightarrow> main_config \<Rightarrow> bool \<Rightarrow> call behaviour" where
  "create_namespaces st load_config cfg dry_run = or_raise (get_namespaces cfg) (\<lambda>nss. in_order
     [in_pool (map (\<lambda>x. command (clean_up_neon st dry_run x)) nss),
      in_pool (map (clean_up_namespace st load_config dry_run) nss),
      in_pool (map (create_namespace st load_config dry_run) nss)])"

section \<open>deploy_neon\<close>

text \<open>\<^verbatim>\<open>int(id or 0)\<close>; text with digit separators is outside.\<close>

definition int_or_zero :: "pval \<Rightarrow> int res" where
  "int_or_zero v = (if \<not> py_truth v then Inr 0 else case v of
     PInt i \<Rightarrow> Inr i
   | PBool b \<Rightarrow> Inr 1
   | PFloat q \<Rightarrow> Inr (if q < 0 then \<lceil>q\<rceil> else \<lfloor>q\<rfloor>)
   | PStr s \<Rightarrow> req (ValueError ''invalid literal for int()'') (int_of_str s)
   | PNone \<Rightarrow> Inl (TypeError ''int()''))"

definition ordered_names :: "namespaces \<Rightarrow> string list res" where
  "ordered_names nss = rbind (rmap (\<lambda>(n, info). rbind (int_or_zero (ni_id info)) (\<lambda>i. Inr (i, n))) nss)
     (\<lambda>l. Inr (map snd (sort_key fst l)))"

text \<open>\<^verbatim>\<open>list.index\<close>\<close>

fun index_of :: "'a \<Rightarrow> 'a list \<Rightarrow> nat res" where
  "index_of x [] = Inl (ValueError ''is not in list'')"
| "index_of x (y # ys) = (if x = y then Inr 0 else map_sum id Suc (index_of x ys))"

definition neon_sets :: "namespaces \<Rightarrow> string list \<Rightarrow> nat \<Rightarrow> string list" where
  "neon_sets nss ordered i =
     [''namespaces.'' @ n @ ''.'' @ k @ ''='' @ py_str v. (n, info) \<leftarrow> nss, (k, v) \<leftarrow> ns_items info] @
     [''ordered_namespaces={'' @ join '','' ordered @ ''}'', ''namespace_id='' @ show_nat i]"

definition install_neon :: "site \<Rightarrow> namespaces \<Rightarrow> string list \<Rightarrow> bool \<Rightarrow> string \<times> namespace_info \<Rightarrow> prog" where
  "install_neon st nss ordered dry_run = (\<lambda>(n, info). case index_of n ordered of
     Inl e \<Rightarrow> Fail e
   | Inr i \<Rightarrow> run_subprocess ([''helm'', ''install'', ''neon-'' @ n, ''--namespace'', n, ''--set'',
         join '','' (neon_sets nss ordered i), base_path st @ ''/helm-neon''] @
       context_flag st (ni_region info) ''--kube-context'') dry_run True Ret)"

definition deploy_neon :: "site \<Rightarrow> main_config \<Rightarrow> bool \<Rightarrow> bool \<Rightarrow> call behaviour" where
  "deploy_neon st cfg cleanup_only dry_run = or_raise (get_namespaces cfg) (\<lambda>nss.
     or_raise (ordered_names nss) (\<lambda>ordered. and_then
       (in_pool (map (\<lambda>x. command (clean_up_neon st dry_run x)) nss))
       (if cleanup_only then silent
        else in_pool (map (\<lambda>x. command (install_neon st nss ordered dry_run x)) nss))))"

section \<open>start_pushgateway\<close>

definition pushgateway :: "site \<Rightarrow> bool \<Rightarrow> string \<times> namespace_info \<Rightarrow> prog" where
  "pushgateway st dry_run = (\<lambda>(n, info).
     let cmd = (\<lambda>verb. [''kubectl'', verb, ''-f'', base_path st @ ''/pushgateway.yaml'', ''--namespace'', n] @
           context_flag st (ni_region info) ''--context'')
     in run_subprocess (cmd ''delete'') dry_run False (run_subprocess (cmd ''apply'') dry_run True Ret))"

definition start_pushgateway :: "site \<Rightarrow> main_config \<Rightarrow> bool \<Rightarrow> call behaviour" where
  "start_pushgateway st cfg dry_run = or_raise (get_namespaces cfg) (\<lambda>nss.
     in_order (map (\<lambda>x. command (pushgateway st dry_run x)) (filter (\<lambda>(n, _). n \<noteq> ''global'') nss)))"

section \<open>The script\<close>

definition STAGES :: "string list" where
  "STAGES = [''load-balancer'', ''dns'', ''namespace'', ''neon'', ''pushgateway'']"

record deploy_options =
  skip_before :: "string option"
  skip_after :: "string option"
  clean_up_only :: bool
  show_stages :: bool
  do_dry_run :: bool

definition deploy_parser :: parser where
  "deploy_parser = \<lparr>
     options = [help_option,
       \<lparr>option_names = [''--skip-before'', ''--from'', ''-f''], dest = ''skip_before'', action = Store, choices = STAGES\<rparr>,
       \<lparr>option_names = [''--skip-after'', ''--to'', ''-t''], dest = ''skip_after'', action = Store, choices = STAGES\<rparr>,
       \<lparr>option_names = [''--clean-up-neon''], dest = ''clean_up_neon'', action = Flag, choices = []\<rparr>,
       \<lparr>option_names = [''--stages''], dest = ''stages'', action = Flag, choices = []\<rparr>,
       \<lparr>option_names = [''--dry-run''], dest = ''dry_run'', action = Flag, choices = []\<rparr>],
     positionals = []\<rparr>"

definition text_option :: "arg_value option \<Rightarrow> string option" where
  "text_option v = (case v of Some (Text s) \<Rightarrow> Some s | _ \<Rightarrow> None)"

definition deploy_cli :: "string list \<Rightarrow> deploy_options parsed" where
  "deploy_cli argv = (case parse_args deploy_parser [] argv of
     Parsed ns \<Rightarrow> Parsed \<lparr>skip_before = text_option (dget ns ''skip_before''), skip_after = text_option (dget ns ''skip_after''),
       clean_up_only = (dget ns ''clean_up_neon'' = Some (Bool True)), show_stages = (dget ns ''stages'' = Some (Bool True)),
       do_dry_run = (dget ns ''dry_run'' = Some (Bool True))\<rparr>
   | Exits c \<Rightarrow> Exits c
   | Outside \<Rightarrow> Outside)"

definition unskipped_stages :: "deploy_options \<Rightarrow> string list res" where
  "unskipped_stages opts =
     rbind (case skip_before opts of None \<Rightarrow> Inr 0 | Some s \<Rightarrow> index_of s STAGES) (\<lambda>a.
     rbind (case skip_after opts of None \<Rightarrow> Inr (length STAGES - 1) | Some s \<Rightarrow> index_of s STAGES) (\<lambda>b.
       Inr (drop a (take (b + 1) STAGES))))"

definition run_stage :: "site \<Rightarrow> dns_api \<Rightarrow> (string \<Rightarrow> unit res) \<Rightarrow> main_config \<Rightarrow> deploy_options \<Rightarrow> nat \<Rightarrow> call behaviour" where
  "run_stage st api load_config cfg opts i =
     (if i = 0 then set_up_load_balancer st cfg (do_dry_run opts)
      else if i = 1 then install_dns st api cfg (do_dry_run opts)
      else if i = 2 then create_namespaces st load_config cfg (do_dry_run opts)
      else if i = 3 then deploy_neon st cfg (clean_up_only opts) (do_dry_run opts)
      else start_pushgateway st cfg (do_dry_run opts))"

definition deploy_run :: "site \<Rightarrow> dns_api \<Rightarrow> (string \<Rightarrow> unit res) \<Rightarrow> deploy_options \<Rightarrow> call behaviour" where
  "deploy_run st api load_config opts =
     (if show_stages opts then raising (SystemExit 0)
      else or_raise (unskipped_stages opts) (\<lambda>stages.
        or_raise (get_main_config (contexts st) (yaml st)) (\<lambda>cfg. in_order
          (map (run_stage st api load_config cfg opts) (filter (\<lambda>i. STAGES ! i \<in> set stages) [0 ..< length STAGES])))))"

definition deploy_main :: "site \<Rightarrow> dns_api \<Rightarrow> (string \<Rightarrow> unit res) \<Rightarrow> string list \<Rightarrow> call behaviour" where
  "deploy_main st api load_config argv = (case deploy_cli argv of
     Parsed opts \<Rightarrow> deploy_run st api load_config opts
   | Exits c \<Rightarrow> raising (SystemExit c)
   | Outside \<Rightarrow> (\<lambda>cs r. False))"

section \<open>The tasks\<close>

lemma command_Ret: "command Ret cs r \<longleftrightarrow> cs = [] \<and> r = None"
  by (simp add: command_def)

lemma command_Fail: "command (Fail e) = raising e"
  by (intro ext) (auto simp: command_def raising_def)

lemma command_Exec: "command (Exec c check k) cs r \<longleftrightarrow> (\<exists>rc cs'. cs = Ran c rc # cs' \<and> command (after c check k rc) cs' r)"
proof
  assume "command (Exec c check k) cs r"
  then show "\<exists>rc cs'. cs = Ran c rc # cs' \<and> command (after c check k rc) cs' r"
    unfolding command_def runs_Exec by fastforce
next
  assume "\<exists>rc cs'. cs = Ran c rc # cs' \<and> command (after c check k rc) cs' r"
  then obtain rc es where "cs = map (\<lambda>(c, rc). Ran c rc) ((c, rc) # es)" "runs (after c check k rc) es r"
    unfolding command_def by auto
  then show "command (Exec c check k) cs r"
    unfolding command_def runs_Exec by blast
qed

definition command_does :: "prog \<Rightarrow> call \<Rightarrow> bool" where
  "command_does p e \<longleftrightarrow> (\<exists>c rc. e = Ran c rc \<and> c \<in> set (commands p))"

interpretation cmd: task_kind command command_does
proof
  fix p :: prog
  show "ends (command p)" using runs_exists [of p] unfolding ends_def command_def by blast
next
  fix p cs r e
  assume "command p cs r" "e \<in> set cs"
  then obtain es c rc where "runs p es r" "(c, rc) \<in> set es" "e = Ran c rc" unfolding command_def by auto
  moreover from this obtain n where "map fst es = take n (commands p)" using runs_prefix by blast
  then have "fst ` set es \<subseteq> set (commands p)" by (metis set_map set_take_subset)
  ultimately show "command_does p e" unfolding command_does_def by force
qed

definition in_namespace :: "site \<Rightarrow> (string \<Rightarrow> unit res) \<Rightarrow> string \<times> namespace_info \<Rightarrow> string \<Rightarrow> string \<Rightarrow> bool" where
  "in_namespace st load_config x ctx n \<longleftrightarrow> n = fst x \<and>
     get_context (contexts st) (yaml st) (ni_region (snd x)) = Inr ctx \<and> load_config ctx = Inr ()"

lemma kube_config_Inr: "kube_config st load_config r = Inr ctx \<longleftrightarrow>
    get_context (contexts st) (yaml st) r = Inr ctx \<and> load_config ctx = Inr ()"
  by (auto simp: kube_config_def rbind_eq_Inr)

lemma delete_once_iff: "delete_once ctx n dry cs r \<longleftrightarrow>
    (\<exists>reply. cs = [Deletes ctx n dry reply] \<and> r = (case reply of Delete_failed e \<Rightarrow> Some e | _ \<Rightarrow> None))"
  by (induction ctx n dry cs r rule: delete_once.induct) auto

interpretation del: task_kind "clean_up_namespace st load_config dry"
  "\<lambda>x e. \<exists>ctx n reply. e = Deletes ctx n dry reply \<and> in_namespace st load_config x ctx n" for st load_config dry
proof
  fix x :: "string \<times> namespace_info"
  have "ends (delete_once ctx n dry)" for ctx n
    unfolding ends_def delete_once_iff by blast
  then show "ends (clean_up_namespace st load_config dry x)"
    by (cases x) (auto simp: clean_up_namespace_def intro!: ends_or_raise)
next
  fix x cs r e
  assume "clean_up_namespace st load_config dry x cs r" "e \<in> set cs"
  then show "\<exists>ctx n reply. e = Deletes ctx n dry reply \<and> in_namespace st load_config x ctx n"
    by (cases x) (auto simp: clean_up_namespace_def or_raise_def raising_def delete_once_iff in_namespace_def
        kube_config_Inr split: sum.splits)
qed

text \<open>The loop in closed form: repeated while the message says so, ended by any other reply.\<close>

fun being_deleted :: "create_reply \<Rightarrow> bool" where
  "being_deleted (Create_refused (Inr message)) \<longleftrightarrow> str_in ''object is being deleted'' message"
| "being_deleted _ \<longleftrightarrow> False"

fun create_error :: "create_reply \<Rightarrow> exn option" where
  "create_error (Create_failed e) = Some e"
| "create_error (Create_refused (Inl e)) = Some e"
| "create_error _ = None"

lemma create_loopD: "create_loop ctx n dry cs r \<Longrightarrow>
    \<exists>waits reply. cs = map (Creates ctx n dry) (waits @ [reply]) \<and> (\<forall>w \<in> set waits. being_deleted w) \<and>
       \<not> being_deleted reply \<and> r = create_error reply"
proof (induction ctx n dry cs r rule: create_loop.induct)
  case (1 ctx n dry c m d reply cs r)
  then have e: "c = ctx" "m = n" "d = dry" by simp_all
  show ?case
  proof (cases "being_deleted reply")
    case True
    then obtain message where m: "reply = Create_refused (Inr message)" "str_in ''object is being deleted'' message"
      by (cases reply rule: being_deleted.cases) auto
    with "1.prems" have "create_loop ctx n dry cs r" by simp
    from "1.IH" [OF m(1) refl m(2) this] obtain waits final where "cs = map (Creates ctx n dry) (waits @ [final])"
      "\<forall>w \<in> set waits. being_deleted w" "\<not> being_deleted final" "r = create_error final" by (elim exE conjE)
    with e True show ?thesis by (intro exI [of _ "reply # waits"] exI [of _ final]) simp
  next
    case False
    then have "cs = [] \<and> r = create_error reply"
      using "1.prems" by (cases reply rule: being_deleted.cases) auto
    with e False show ?thesis by (intro exI [of _ "[]"] exI [of _ reply]) simp
  qed
qed auto

lemma create_loopI: "\<forall>w \<in> set waits. being_deleted w \<Longrightarrow> \<not> being_deleted reply \<Longrightarrow>
    create_loop ctx n dry (map (Creates ctx n dry) (waits @ [reply])) (create_error reply)"
proof (induction waits)
  case Nil
  then show ?case by (cases reply rule: being_deleted.cases) auto
next
  case (Cons w waits)
  then show ?case by (cases w rule: being_deleted.cases) auto
qed

lemma create_loop_iff: "create_loop ctx n dry cs r \<longleftrightarrow>
    (\<exists>waits reply. cs = map (Creates ctx n dry) (waits @ [reply]) \<and> (\<forall>w \<in> set waits. being_deleted w) \<and>
       \<not> being_deleted reply \<and> r = create_error reply)"
  using create_loopD create_loopI by blast

interpretation cre: task_kind "create_namespace st load_config dry"
  "\<lambda>x e. \<exists>ctx n reply. e = Creates ctx n dry reply \<and> in_namespace st load_config x ctx n" for st load_config dry
proof
  fix x :: "string \<times> namespace_info"
  have "create_loop ctx n dry [Creates ctx n dry Created] None" for ctx n by simp
  then have "ends (create_loop ctx n dry)" for ctx n unfolding ends_def by blast
  then show "ends (create_namespace st load_config dry x)"
    by (cases x) (auto simp: create_namespace_def intro!: ends_or_raise)
next
  fix x cs r e
  assume "create_namespace st load_config dry x cs r" "e \<in> set cs"
  then show "\<exists>ctx n reply. e = Creates ctx n dry reply \<and> in_namespace st load_config x ctx n"
    by (cases x) (auto simp: create_namespace_def or_raise_def raising_def create_loop_iff in_namespace_def
        kube_config_Inr split: sum.splits)
qed

section \<open>Waiting with a timeout\<close>

definition answer :: "string \<Rightarrow> (nat \<Rightarrow> 'a option res) \<Rightarrow> (nat \<Rightarrow> rat) \<Rightarrow> int \<Rightarrow> nat \<Rightarrow> 'a res option" where
  "answer name fn clock timeout k = (case fn k of
     Inl e \<Rightarrow> Some (Inl e)
   | Inr (Some x) \<Rightarrow> Some (Inr x)
   | Inr None \<Rightarrow> if clock (Suc k) - clock 0 \<ge> of_int timeout then Some (Inl (timed_out name timeout)) else None)"

lemma answer_None: "answer name fn clock timeout k = None \<longleftrightarrow> fn k = Inr None \<and> clock (Suc k) - clock 0 < of_int timeout"
  by (auto simp: answer_def split: sum.splits option.splits)

lemma try_from_step: "try_from name fn clock timeout k = (case answer name fn clock timeout k of
    Some v \<Rightarrow> Some (v, Suc k) | None \<Rightarrow> try_from name fn clock timeout (Suc k))"
  by (subst try_from.simps) (simp add: answer_def split: sum.splits option.splits)

lemma try_from_found:
  "\<forall>j < d. answer name fn clock timeout (k + j) = None \<Longrightarrow> answer name fn clock timeout (k + d) = Some v \<Longrightarrow>
   try_from name fn clock timeout k = Some (v, Suc (k + d))"
proof (induction d arbitrary: k)
  case 0
  then show ?case by (subst try_from_step) simp
next
  case (Suc d)
  have "\<forall>j < d. answer name fn clock timeout (Suc k + j) = None" using Suc.prems(1) by (metis Suc_less_eq add_Suc_shift)
  with Suc.IH [of "Suc k"] Suc.prems show ?case by (subst try_from_step) fastforce
qed

lemma try_from_Some:
  assumes "try_from name fn clock timeout k = Some y"
  shows "\<exists>j \<ge> k. answer name fn clock timeout j \<noteq> None"
proof (rule try_from.raw_induct [where P = "\<lambda>name fn clock timeout k y. \<exists>j \<ge> k. answer name fn clock timeout j \<noteq> None", OF _ assms])
  fix loop and name fn and clock :: "nat \<Rightarrow> rat" and timeout k y
  assume IH: "\<And>name fn clock timeout k y. loop name fn clock timeout k = Some y \<Longrightarrow> \<exists>j \<ge> k. answer name fn clock timeout j \<noteq> None"
    and step: "(case fn k of
      Inl e \<Rightarrow> Some (Inl e, Suc k)
    | Inr None \<Rightarrow> if of_int timeout \<le> clock (Suc k) - clock 0 then Some (Inl (timed_out name timeout), Suc k)
        else loop name fn clock timeout (Suc k)
    | Inr (Some x) \<Rightarrow> Some (Inr x, Suc k)) = Some y"
  show "\<exists>j \<ge> k. answer name fn clock timeout j \<noteq> None"
  proof (cases "answer name fn clock timeout k")
    case None
    with step have "loop name fn clock timeout (Suc k) = Some y" by (simp add: answer_None)
    from IH [OF this] show ?thesis by (meson Suc_leD)
  next
    case (Some v)
    then show ?thesis by blast
  qed
qed

text \<open>The first answer, counted from 0.\<close>

lemma try_with_timeout_iff:
  "try_with_timeout name fn clock timeout = Some (v, n) \<longleftrightarrow>
    (\<exists>m. n = Suc m \<and> (\<forall>j < m. answer name fn clock timeout j = None) \<and> answer name fn clock timeout m = Some v)"
proof
  assume t: "try_with_timeout name fn clock timeout = Some (v, n)"
  then have ex: "\<exists>j. answer name fn clock timeout j \<noteq> None"
    using try_from_Some [of name fn clock timeout 0] by (auto simp: try_with_timeout_def)
  define m where "m = (LEAST j. answer name fn clock timeout j \<noteq> None)"
  have "\<forall>j < m. answer name fn clock timeout j = None" unfolding m_def using not_less_Least by blast
  moreover obtain w where "answer name fn clock timeout m = Some w" using LeastI_ex [OF ex] unfolding m_def by blast
  ultimately show "\<exists>m. n = Suc m \<and> (\<forall>j < m. answer name fn clock timeout j = None) \<and> answer name fn clock timeout m = Some v"
    using try_from_found [of m name fn clock timeout 0] t by (auto simp: try_with_timeout_def)
next
  assume "\<exists>m. n = Suc m \<and> (\<forall>j < m. answer name fn clock timeout j = None) \<and> answer name fn clock timeout m = Some v"
  then show "try_with_timeout name fn clock timeout = Some (v, n)"
    using try_from_found [of _ name fn clock timeout 0 v] by (auto simp: try_with_timeout_def)
qed

lemma try_with_timeout_None:
  "try_with_timeout name fn clock timeout = None \<longleftrightarrow> (\<forall>j. answer name fn clock timeout j = None)"
proof
  assume n: "try_with_timeout name fn clock timeout = None"
  show "\<forall>j. answer name fn clock timeout j = None"
  proof (rule ccontr)
    assume "\<not> ?thesis"
    then have ex: "\<exists>j. answer name fn clock timeout j \<noteq> None" by blast
    define m where "m = (LEAST j. answer name fn clock timeout j \<noteq> None)"
    obtain w where "answer name fn clock timeout m = Some w" using LeastI_ex [OF ex] unfolding m_def by blast
    moreover have "\<forall>j < m. answer name fn clock timeout j = None" unfolding m_def using not_less_Least by blast
    ultimately show False using try_from_found [of m name fn clock timeout 0 w] n by (simp add: try_with_timeout_def)
  qed
next
  assume n: "\<forall>j. answer name fn clock timeout j = None"
  show "try_with_timeout name fn clock timeout = None"
  proof (cases "try_with_timeout name fn clock timeout")
    case (Some y)
    then show ?thesis using n try_from_Some [of name fn clock timeout 0 y] by (simp add: try_with_timeout_def)
  qed
qed

section \<open>Commands and their contexts\<close>

text \<open>A command with the context of a region, or without one when the region has none.\<close>

definition in_context :: "site \<Rightarrow> string \<Rightarrow> string \<Rightarrow> string list \<Rightarrow> string list" where
  "in_context st region flag c = c @ (case get_context (contexts st) (yaml st) region of Inl e \<Rightarrow> [] | Inr ctx \<Rightarrow> [flag, ctx])"

text \<open>The commands for a region, \<open>g\<close> being the global one, and those for a namespace in a region.\<close>

definition for_region :: "site \<Rightarrow> string \<Rightarrow> string \<Rightarrow> string list \<Rightarrow> bool" where
  "for_region st g region c \<longleftrightarrow>
     c = in_context st region ''--context'' [''kubectl'', ''apply'', ''-f'', base_path st @ ''/dns-lb.yaml''] \<or>
     c = in_context st region ''--kube-context'' [''helm'', ''uninstall'', ''dns-'' @ region] \<or>
     c = in_context st region ''--context'' [''kubectl'', ''delete'', ''configmap'', ''coredns'', ''--namespace'', ''kube-system''] \<or>
     (\<exists>file. c = in_context st region ''--kube-context'' [''helm'', ''install'', ''dns-'' @ region, ''-f'', file, ''--set'',
        ''region='' @ region @ '',global_region='' @ g, base_path st @ ''/helm-dns''])"

definition for_namespace :: "site \<Rightarrow> string \<Rightarrow> string \<Rightarrow> string list \<Rightarrow> bool" where
  "for_namespace st n region c \<longleftrightarrow>
     c = in_context st region ''--kube-context'' [''helm'', ''uninstall'', ''neon-'' @ n, ''--namespace'', n] \<or>
     (\<exists>sets. c = in_context st region ''--kube-context'' [''helm'', ''install'', ''neon-'' @ n, ''--namespace'', n, ''--set'', sets,
        base_path st @ ''/helm-neon'']) \<or>
     (\<exists>verb \<in> {''delete'', ''apply''}. c = in_context st region ''--context''
        [''kubectl'', verb, ''-f'', base_path st @ ''/pushgateway.yaml'', ''--namespace'', n])"

lemma commands_run_subprocess [simp]: "commands (run_subprocess c dry check k) = (if dry then [] else [c]) @ commands k"
  by (simp add: run_subprocess_def)

lemma run_subprocess_dry [simp]: "run_subprocess c True check k = k"
  by (simp add: run_subprocess_def)

lemma in_context_flag: "in_context st region flag c = c @ context_flag st region flag"
  by (simp add: in_context_def context_flag_def)

lemma load_balancer_aims: "c \<in> set (commands (load_balancer st dry region)) \<Longrightarrow> \<not> dry \<and> for_region st g region c"
  by (simp add: load_balancer_def for_region_def in_context_flag split: if_splits)

lemma dns_config_aims:
  assumes "c \<in> set (commands (dns_config st g dry file region))"
  shows "\<not> dry \<and> for_region st g region c"
proof (cases dry)
  case False
  from assms False consider
      "c = in_context st region ''--kube-context'' [''helm'', ''uninstall'', ''dns-'' @ region]"
    | "c = in_context st region ''--context'' [''kubectl'', ''delete'', ''configmap'', ''coredns'', ''--namespace'', ''kube-system'']"
    | "c = in_context st region ''--kube-context'' [''helm'', ''install'', ''dns-'' @ region, ''-f'', file, ''--set'',
        ''region='' @ region @ '',global_region='' @ g, base_path st @ ''/helm-dns'']"
    unfolding dns_config_def in_context_flag by fastforce
  then have "for_region st g region c" unfolding for_region_def by cases blast+
  with False show ?thesis by blast
qed (use assms in \<open>simp add: dns_config_def\<close>)

lemma clean_up_neon_aims: "c \<in> set (commands (clean_up_neon st dry (n, info))) \<Longrightarrow> \<not> dry \<and> for_namespace st n (ni_region info) c"
  by (simp add: clean_up_neon_def for_namespace_def in_context_flag split: if_splits)

lemma install_neon_aims:
  assumes "c \<in> set (commands (install_neon st nss ordered dry (n, info)))"
  shows "\<not> dry \<and> for_namespace st n (ni_region info) c"
proof (cases "index_of n ordered")
  case (Inr i)
  with assms have "\<not> dry" "c = in_context st (ni_region info) ''--kube-context'' [''helm'', ''install'', ''neon-'' @ n, ''--namespace'', n, ''--set'',
      join '','' (neon_sets nss ordered i), base_path st @ ''/helm-neon'']"
    by (simp_all add: install_neon_def in_context_flag split: if_splits)
  then show ?thesis unfolding for_namespace_def by blast
qed (use assms in \<open>simp add: install_neon_def\<close>)

lemma pushgateway_aims:
  assumes "c \<in> set (commands (pushgateway st dry (n, info)))"
  shows "\<not> dry \<and> for_namespace st n (ni_region info) c"
proof -
  from assms obtain verb where "\<not> dry" "verb \<in> {''delete'', ''apply''}"
    "c = in_context st (ni_region info) ''--context'' [''kubectl'', verb, ''-f'', base_path st @ ''/pushgateway.yaml'', ''--namespace'', n]"
    by (auto simp: pushgateway_def Let_def in_context_flag split: if_splits)
  then show ?thesis unfolding for_namespace_def by blast
qed

end
