(* ===== verification/Deploy_Stages.thy ===== *)
theory Deploy_Stages
  imports Deploy
begin

text \<open>
  What the stages of \<^verbatim>\<open>tools/deploy.py\<close> guarantee: where every command and request is aimed,
  which stages run, the order of deleting and creating namespaces, the numbers the namespaces are
  given, and the waiting loops.
\<close>

section \<open>What the stages do\<close>

definition of_config :: "main_config \<Rightarrow> string \<Rightarrow> string \<Rightarrow> bool" where
  "of_config cfg n r \<longleftrightarrow> (\<exists>nss info. get_namespaces cfg = Inr nss \<and> (n, info) \<in> set nss \<and> ni_region info = r)"

definition in_regions :: "main_config \<Rightarrow> string \<Rightarrow> bool" where
  "in_regions cfg r \<longleftrightarrow> global_region cfg = Some r \<or> r \<in> set (dkeys (regions_of cfg))"

fun allowed :: "site \<Rightarrow> main_config \<Rightarrow> bool \<Rightarrow> call \<Rightarrow> bool" where
  "allowed st cfg dry (Ran c rc) \<longleftrightarrow> \<not> dry \<and>
     ((\<exists>g r. global_region cfg = Some g \<and> in_regions cfg r \<and> for_region st g r c) \<or>
      (\<exists>n r. of_config cfg n r \<and> for_namespace st n r c))"
| "allowed st cfg dry (Wrote f a) \<longleftrightarrow> dry \<longrightarrow> a = []"
| "allowed st cfg dry (Deletes ctx n d reply) \<longleftrightarrow> d = dry \<and>
     (\<exists>r. of_config cfg n r \<and> get_context (contexts st) (yaml st) r = Inr ctx)"
| "allowed st cfg dry (Creates ctx n d reply) \<longleftrightarrow> d = dry \<and>
     (\<exists>r. of_config cfg n r \<and> get_context (contexts st) (yaml st) r = Inr ctx)"

lemma region_set_in: "region_set cfg = Inr (g, rs) \<Longrightarrow> r \<in> set rs \<Longrightarrow> global_region cfg = Some g \<and> in_regions cfg r"
  by (auto simp: region_set_def rbind_eq_Inr region_names_def in_regions_def regions_of_def
      split: regions_field.splits if_splits)

lemma namespace_in: "get_namespaces cfg = Inr nss \<Longrightarrow> x \<in> set nss \<Longrightarrow> in_regions cfg (ni_region (snd x))"
  using namespaces_wf [of cfg nss] unfolding in_regions_def by (cases x) auto

lemma command_allowed:
  assumes "\<And>c. c \<in> set (commands p) \<Longrightarrow> allowed st cfg dry (Ran c None)"
  shows "all_events (allowed st cfg dry) (command p)"
  unfolding all_events_def
proof (intro allI impI ballI)
  fix cs x e
  assume "command p cs x" "e \<in> set cs"
  then obtain c rc where "e = Ran c rc" "c \<in> set (commands p)" using cmd.run_does unfolding command_does_def by blast
  with assms show "allowed st cfg dry e" by auto
qed

lemma in_any_order_all [safety]:
  "(\<And>ys. set ys = set xs \<Longrightarrow> all_events P (k ys)) \<Longrightarrow> all_events P (in_any_order xs k)"
  unfolding all_events_def in_any_order_def by blast

named_theorems task_allowed \<open>the tasks of the stages do what is allowed\<close>

lemma region_task_allowed [task_allowed]:
  assumes "region_set cfg = Inr (g, rs)" and "r \<in> set rs"
  shows "all_events (allowed st cfg dry) (command (load_balancer st dry r))"
    and "all_events (allowed st cfg dry) (command (dns_config st g dry f r))"
proof -
  show "all_events (allowed st cfg dry) (command (load_balancer st dry r))"
    by (rule command_allowed) (use load_balancer_aims [of _ st dry r g] region_set_in [OF assms] in \<open>fastforce\<close>)
  show "all_events (allowed st cfg dry) (command (dns_config st g dry f r))"
    by (rule command_allowed) (use dns_config_aims [of _ st g dry f r] region_set_in [OF assms] in \<open>fastforce\<close>)
qed

lemma in_namespace_of_config:
  assumes "get_namespaces cfg = Inr nss" and "x \<in> set nss" and "in_namespace st load_config x ctx n"
  shows "\<exists>r. of_config cfg n r \<and> get_context (contexts st) (yaml st) r = Inr ctx"
  using assms unfolding in_namespace_def of_config_def by (cases x) auto

lemma namespace_of: "get_namespaces cfg = Inr nss \<Longrightarrow> x \<in> set nss \<Longrightarrow> of_config cfg (fst x) (ni_region (snd x))"
  unfolding of_config_def by (cases x) auto

lemma namespace_task_allowed [task_allowed]:
  assumes "get_namespaces cfg = Inr nss" and "x \<in> set nss"
  shows "all_events (allowed st cfg dry) (command (clean_up_neon st dry x))"
    and "all_events (allowed st cfg dry) (command (install_neon st nss ordered dry x))"
    and "all_events (allowed st cfg dry) (command (pushgateway st dry x))"
    and "all_events (allowed st cfg dry) (clean_up_namespace st load_config dry x)"
    and "all_events (allowed st cfg dry) (create_namespace st load_config dry x)"
proof -
  show "all_events (allowed st cfg dry) (command (clean_up_neon st dry x))"
    by (rule command_allowed) (use clean_up_neon_aims [of _ st dry "fst x" "snd x"] namespace_of [OF assms] in \<open>cases x, fastforce\<close>)
  show "all_events (allowed st cfg dry) (command (install_neon st nss ordered dry x))"
    by (rule command_allowed) (use install_neon_aims [of _ st nss ordered dry "fst x" "snd x"] namespace_of [OF assms] in \<open>cases x, fastforce\<close>)
  show "all_events (allowed st cfg dry) (command (pushgateway st dry x))"
    by (rule command_allowed) (use pushgateway_aims [of _ st dry "fst x" "snd x"] namespace_of [OF assms] in \<open>cases x, fastforce\<close>)
  show "all_events (allowed st cfg dry) (clean_up_namespace st load_config dry x)"
    unfolding all_events_def
    by (auto dest!: del.run_does in_namespace_of_config [OF assms])
  show "all_events (allowed st cfg dry) (create_namespace st load_config dry x)"
    unfolding all_events_def
    by (auto dest!: cre.run_does in_namespace_of_config [OF assms])
qed

lemma load_balancer_stage: "all_events (allowed st cfg dry) (set_up_load_balancer st cfg dry)"
  unfolding set_up_load_balancer_def by (auto intro!: safety task_allowed)

lemma writes_allowed: "dry \<longrightarrow> a = [] \<Longrightarrow> all_events (allowed st cfg dry) (writes f a)"
  by (auto simp: all_events_def writes_def)

lemma dns_stage: "all_events (allowed st cfg dry) (install_dns st api cfg dry)"
proof (cases "region_set cfg")
  case (Inr p)
  obtain g rs where p: "p = (g, rs)" by force
  have t: "all_events (allowed st cfg dry) (command (dns_config st g dry f r))"
    if "set order = set rs" "r \<in> set order" for f order r
    using region_task_allowed(2) [OF Inr [unfolded p]] that by simp
  have "all_events (allowed st cfg dry) (case (if dry then Some (Inr []) else collect_addresses api order) of
         None \<Rightarrow> (\<lambda>cs r. False)
       | Some v \<Rightarrow> or_raise v (\<lambda>addresses. and_then (writes (dns_file api) addresses)
           (in_order (map (\<lambda>r. command (dns_config st g dry (dns_file api) r)) order))))"
    if "set order = set rs" for order
    using t [OF that] by (cases dry) (auto intro!: safety writes_allowed no_run_events split: option.split)
  then show ?thesis
    unfolding install_dns_def Inr p by (auto intro!: safety)
qed (auto simp: install_dns_def intro!: safety)

lemma namespace_stage: "all_events (allowed st cfg dry) (create_namespaces st load_config cfg dry)"
  unfolding create_namespaces_def by (auto intro!: safety task_allowed)

lemma neon_stage: "all_events (allowed st cfg dry) (deploy_neon st cfg cleanup dry)"
  unfolding deploy_neon_def by (auto intro!: safety task_allowed)

lemma pushgateway_stage: "all_events (allowed st cfg dry) (start_pushgateway st cfg dry)"
  unfolding start_pushgateway_def by (auto intro!: safety task_allowed)

lemmas stages = load_balancer_stage dns_stage namespace_stage neon_stage pushgateway_stage

lemma deploy_run_allowed:
  assumes "deploy_run st api load_config opts cs r" and "e \<in> set cs"
  shows "\<exists>cfg. get_main_config (contexts st) (yaml st) = Inr cfg \<and> allowed st cfg (do_dry_run opts) e"
proof (cases "show_stages opts \<or> isl (unskipped_stages opts)")
  case True
  then show ?thesis using assms by (auto simp: deploy_run_def raising_def or_raise_def split: if_splits sum.splits)
next
  case False
  then obtain l where l: "unskipped_stages opts = Inr l" "\<not> show_stages opts" by (cases "unskipped_stages opts") auto
  show ?thesis
  proof (cases "get_main_config (contexts st) (yaml st)")
    case (Inl x)
    then show ?thesis using assms l by (simp add: deploy_run_def raising_def)
  next
    case (Inr cfg)
    have "all_events (allowed st cfg (do_dry_run opts)) (run_stage st api load_config cfg opts i)" for i
      by (simp add: run_stage_def stages)
    then have "all_events (allowed st cfg (do_dry_run opts)) (deploy_run st api load_config opts)"
      using l Inr by (auto simp: deploy_run_def intro!: safety)
    from all_eventsD [OF this assms] Inr show ?thesis by blast
  qed
qed

section \<open>The numbers of the namespaces\<close>

lemma index_of_mem: "x \<in> set xs \<Longrightarrow> index_of x xs = Inr (length (takeWhile (\<lambda>y. y \<noteq> x) xs))"
  by (induction xs) auto

lemma nth_index: "x \<in> set xs \<Longrightarrow> xs ! length (takeWhile (\<lambda>y. y \<noteq> x) xs) = x"
  by (induction xs) auto

definition id_number :: "namespaces \<Rightarrow> string \<Rightarrow> int" where
  "id_number nss n = (case dget nss n of
     None \<Rightarrow> 0
   | Some info \<Rightarrow> (case int_or_zero (ni_id info) of Inl e \<Rightarrow> 0 | Inr i \<Rightarrow> i))"

lemma ordered_names_perm:
  assumes "ordered_names nss = Inr ordered" and "wf_dict nss"
  shows "mset ordered = mset (dkeys nss) \<and> distinct ordered \<and> sorted (map (id_number nss) ordered)"
proof -
  from assms(1) obtain l where l: "rmap (\<lambda>(n, info). rbind (int_or_zero (ni_id info)) (\<lambda>i. Inr (i, n))) nss = Inr l"
    "ordered = map snd (sort_key fst l)" by (auto simp: ordered_names_def rbind_eq_Inr)
  from l(1) have r: "list_all2 (\<lambda>(n, info) x. \<exists>i. int_or_zero (ni_id info) = Inr i \<and> x = (i, n)) nss l"
    unfolding rmap_Inr_iff by (auto elim!: list_all2_mono simp: rbind_eq_Inr)
  then have s: "map snd l = dkeys nss"
    by (induction rule: list_all2_induct) auto
  have m: "mset ordered = mset (dkeys nss)"
    unfolding l(2) by (simp flip: s)
  then have d: "distinct ordered" using assms(2) by (metis mset_eq_imp_distinct_iff wf_dict_def)
  have "id_number nss n = i" if x: "(i, n) \<in> set l" for i n
  proof -
    from r x obtain info where "(n, info) \<in> set nss" "int_or_zero (ni_id info) = Inr i"
      by (fastforce simp: in_set_conv_nth list_all2_conv_all_nth)
    moreover from this assms(2) have "dget nss n = Some info" by (simp add: wf_dict_def)
    ultimately show ?thesis by (simp add: id_number_def)
  qed
  then have "map (id_number nss) ordered = map fst (sort_key fst l)"
    unfolding l(2) by simp
  with m d show ?thesis by simp
qed

definition uninstall_command :: "site \<Rightarrow> string \<times> namespace_info \<Rightarrow> string list" where
  "uninstall_command st = (\<lambda>(n, info). [''helm'', ''uninstall'', ''neon-'' @ n, ''--namespace'', n] @
     context_flag st (ni_region info) ''--kube-context'')"

definition install_command :: "site \<Rightarrow> namespaces \<Rightarrow> string list \<Rightarrow> string \<times> namespace_info \<Rightarrow> string list" where
  "install_command st nss ordered = (\<lambda>(n, info). [''helm'', ''install'', ''neon-'' @ n, ''--namespace'', n, ''--set'',
     join '','' (neon_sets nss ordered (length (takeWhile (\<lambda>m. m \<noteq> n) ordered))), base_path st @ ''/helm-neon''] @
     context_flag st (ni_region info) ''--kube-context'')"

lemma command_single:
  "command (Exec c True Ret) cs None \<longleftrightarrow> cs = [Ran c (Some 0)]"
  "command (Exec c False Ret) cs None \<longleftrightarrow> (\<exists>n. cs = [Ran c (Some n)])"
  by (auto simp: command_Exec command_Ret command_Fail raising_def after_def split: option.splits if_splits)

fun called :: "call \<Rightarrow> string list" where
  "called (Ran c rc) = c"
| "called _ = []"

text \<open>C24 When Neon is deployed without an error, every namespace has been uninstalled once before any is
  installed, and then every namespace has been installed successfully exactly once. The number it is
  given is its place in the list of all namespaces that it is given too, and this list is ordered by the ids.\<close>

theorem deploy_neon_installs:
  assumes "deploy_neon st cfg False False cs None"
  shows "\<exists>nss ordered us ks. get_namespaces cfg = Inr nss \<and> cs = us @ ks \<and>
    mset ordered = mset (dkeys nss) \<and> distinct ordered \<and> sorted (map (id_number nss) ordered) \<and>
    (\<forall>n \<in> set ordered. ordered ! length (takeWhile (\<lambda>m. m \<noteq> n) ordered) = n) \<and>
    mset (map called us) = mset (map (uninstall_command st) nss) \<and>
    mset ks = mset (map (\<lambda>x. Ran (install_command st nss ordered x) (Some 0)) nss)"
proof -
  obtain nss where nss: "get_namespaces cfg = Inr nss"
    using assms by (cases "get_namespaces cfg") (auto simp: deploy_neon_def raising_def)
  obtain ordered where ordered: "ordered_names nss = Inr ordered"
    using assms nss by (cases "ordered_names nss") (auto simp: deploy_neon_def raising_def)
  from assms obtain us ks where cs: "cs = us @ ks"
    "in_pool (map (\<lambda>x. command (clean_up_neon st False x)) nss) us None"
    "in_pool (map (\<lambda>x. command (install_neon st nss ordered False x)) nss) ks None"
    by (auto simp: deploy_neon_def nss ordered elim!: and_thenE)
  note perm = ordered_names_perm [OF ordered] namespaces_wf [OF nss]
  then have "set ordered = set (dkeys nss)" using mset_eq_setD by blast
  then have mem: "fst x \<in> set ordered" if "x \<in> set nss" for x using that by simp
  have "image_mset called (mset us) = mset (map (uninstall_command st) nss)"
    by (rule in_pool_singles [OF cs(2)])
      (auto simp: clean_up_neon_def uninstall_command_def run_subprocess_def command_single)
  moreover have "image_mset (\<lambda>e. e) (mset ks) = mset (map (\<lambda>x. Ran (install_command st nss ordered x) (Some 0)) nss)"
  proof (rule in_pool_singles [OF cs(3)])
    fix x cs
    assume x: "x \<in> set nss" "command (install_neon st nss ordered False x) cs None"
    obtain n info where n: "x = (n, info)" by force
    with mem [OF x(1)] have "install_neon st nss ordered False x = Exec (install_command st nss ordered x) True Ret"
      by (simp add: install_neon_def install_command_def run_subprocess_def index_of_mem)
    with x(2) show "\<exists>e. cs = [e] \<and> e = Ran (install_command st nss ordered x) (Some 0)" by (simp add: command_single)
  qed
  moreover have "\<forall>n \<in> set ordered. ordered ! length (takeWhile (\<lambda>m. m \<noteq> n) ordered) = n"
    by (intro ballI) (rule nth_index)
  ultimately show ?thesis
    using nss cs(1) perm by - (rule exI [of _ nss], rule exI [of _ ordered], rule exI [of _ us], rule exI [of _ ks], simp)
qed

text \<open>A site whose configuration lists no regions: one namespace, the global one.\<close>

definition global_site :: site where
  "global_site = sample_site\<lparr>yaml := sample_config\<lparr>regions := RNull, global_region_context := Some ''k''\<rparr>\<rparr>"

definition global_info :: namespace_info where
  "global_info = \<lparr>ni_region = ''us'', ni_id = PInt 0, ni_target = PNone, ni_warmup = PInt 0, ni_instances = PInt 1\<rparr>"

lemma global_site_facts:
  "get_main_config (contexts global_site) (yaml global_site) = Inr (yaml global_site)"
  "get_namespaces (yaml global_site) = Inr [(''global'', global_info)]"
  "ordered_names [(''global'', global_info)] = Inr [''global'']"
  "get_context (contexts global_site) (yaml global_site) ''us'' = Inr ''k''"
  "context_flag global_site ''us'' flag = [flag, ''k'']"
  by (simp_all add: global_site_def sample_site_def sample_config_def get_main_config_def fill_regions_def Let_def
      get_namespaces_def regions_of_def opt_get_def global_info_def ordered_names_def int_or_zero_def get_context_def
      context_flag_def)

lemma deploy_neon_installs_witness:
  "\<exists>us ks. deploy_neon global_site (yaml global_site) False False (us @ ks) None \<and> length ks = 1 \<and>
     mset (map called us) = {# [''helm'', ''uninstall'', ''neon-global'', ''--namespace'', ''global'', ''--kube-context'', ''k''] #}"
proof -
  let ?x = "(''global'', global_info)"
  have u: "in_pool [command (clean_up_neon global_site False ?x)] [Ran (uninstall_command global_site ?x) (Some 1)] None"
    by (rule in_pool_one) (simp add: clean_up_neon_def uninstall_command_def run_subprocess_def command_single)
  have k: "in_pool [command (install_neon global_site [?x] [''global''] False ?x)]
      [Ran (install_command global_site [?x] [''global''] ?x) (Some 0)] None"
    by (rule in_pool_one) (simp add: install_neon_def install_command_def run_subprocess_def command_single)
  have d: "deploy_neon global_site (yaml global_site) False False
      ([Ran (uninstall_command global_site ?x) (Some 1)] @ [Ran (install_command global_site [?x] [''global''] ?x) (Some 0)]) None"
    unfolding deploy_neon_def using and_thenI(1) [where b = "in_pool _" and c = "in_pool _", OF u k]
    by (simp add: global_site_facts)
  define cs where "cs = [Ran (uninstall_command global_site ?x) (Some 1)] @ [Ran (install_command global_site [?x] [''global''] ?x) (Some 0)]"
  from deploy_neon_installs [OF d [folded cs_def]] obtain nss us ks ordered where
    n: "get_namespaces (yaml global_site) = Inr nss" and e: "cs = us @ ks"
    and us: "mset (map called us) = mset (map (uninstall_command global_site) nss)"
    and ks: "mset ks = mset (map (\<lambda>x. Ran (install_command global_site nss ordered x) (Some 0)) nss)"
    by (elim exE conjE)
  have nss: "nss = [?x]" using n by (simp add: global_site_facts)
  have "uninstall_command global_site ?x = [''helm'', ''uninstall'', ''neon-global'', ''--namespace'', ''global'', ''--kube-context'', ''k'']"
    by (simp add: uninstall_command_def global_site_facts global_info_def)
  moreover have "length ks = 1" using mset_eq_length [OF ks] by (simp add: nss)
  moreover have "deploy_neon global_site (yaml global_site) False False (us @ ks) None" using d unfolding cs_def [symmetric] e .
  ultimately show ?thesis using us unfolding nss by - (rule exI [of _ us], rule exI [of _ ks], simp)
qed

lemma clean_up_namespace_None:
  assumes "clean_up_namespace st load_config dry (n, info) cs None"
  shows "\<exists>ctx reply. get_context (contexts st) (yaml st) (ni_region info) = Inr ctx \<and> Deletes ctx n dry reply \<in> set cs"
  using assms by (auto simp: clean_up_namespace_def or_raise_def raising_def delete_once_iff kube_config_Inr split: sum.splits)

lemma create_namespace_None:
  assumes "create_namespace st load_config dry (n, info) cs None"
  shows "\<exists>ctx reply. get_context (contexts st) (yaml st) (ni_region info) = Inr ctx \<and> Creates ctx n dry reply \<in> set cs \<and>
    \<not> being_deleted reply \<and> create_error reply = None"
  using assms by (auto simp: create_namespace_def or_raise_def raising_def create_loop_iff kube_config_Inr split: sum.splits)

text \<open>C25 Creating the namespaces happens in three parts, in this order, whatever fails: uninstalling Neon,
  asking for the deletion of every namespace, and creating them. Nothing is created before every namespace of the
  configuration was asked to be deleted, and after a normal end every namespace got a last reply to its
  creation that was not a request to wait; that reply may still be a refusal.\<close>

theorem namespaces_recreated:
  assumes "create_namespaces st load_config cfg dry cs r"
  shows "\<exists>us ds ks. cs = us @ ds @ ks \<and> (\<forall>e \<in> set us. \<exists>c rc. e = Ran c rc) \<and>
    (\<forall>e \<in> set ds. \<exists>ctx n reply. e = Deletes ctx n dry reply) \<and> (\<forall>e \<in> set ks. \<exists>ctx n reply. e = Creates ctx n dry reply) \<and>
    (ks \<noteq> [] \<or> r = None \<longrightarrow> (\<exists>nss. get_namespaces cfg = Inr nss \<and>
       (\<forall>(n, info) \<in> set nss. \<exists>ctx reply. get_context (contexts st) (yaml st) (ni_region info) = Inr ctx \<and>
          Deletes ctx n dry reply \<in> set ds \<and>
          (r = None \<longrightarrow> (\<exists>reply. Creates ctx n dry reply \<in> set ks \<and> \<not> being_deleted reply \<and> create_error reply = None)))))"
proof (cases "get_namespaces cfg")
  case (Inl e)
  with assms show ?thesis by (auto simp: create_namespaces_def raising_def)
next
  case (Inr nss)
  let ?u = "in_pool (map (\<lambda>x. command (clean_up_neon st dry x)) nss)"
  let ?d = "in_pool (map (clean_up_namespace st load_config dry) nss)"
  let ?k = "in_pool (map (create_namespace st load_config dry) nss)"
  have us: "\<forall>e \<in> set es. \<exists>c rc. e = Ran c rc" if "?u es x" for es x
    using all_eventsD [OF all_events_in_pool [of "map (\<lambda>x. command (clean_up_neon st dry x)) nss" "\<lambda>e. \<exists>c rc. e = Ran c rc"] that]
    by (fastforce simp: all_events_def command_does_def dest: cmd.run_does)
  have ds: "\<forall>e \<in> set es. \<exists>ctx n reply. e = Deletes ctx n dry reply" if "?d es x" for es x
    using all_eventsD [OF del.pool_does that] by blast
  have ks: "\<forall>e \<in> set es. \<exists>ctx n reply. e = Creates ctx n dry reply" if "?k es x" for es x
    using all_eventsD [OF cre.pool_does that] by blast
  have deleted: "\<exists>ctx reply. get_context (contexts st) (yaml st) (ni_region info) = Inr ctx \<and> Deletes ctx n dry reply \<in> set es"
    if "?d es None" and "(n, info) \<in> set nss" for es n info
  proof -
    from pool_task_None [OF that] obtain cs where "clean_up_namespace st load_config dry (n, info) cs None" "set cs \<subseteq> set es"
      by blast
    then show ?thesis using clean_up_namespace_None by blast
  qed
  have created: "\<exists>ctx reply. get_context (contexts st) (yaml st) (ni_region info) = Inr ctx \<and> Creates ctx n dry reply \<in> set es \<and>
      \<not> being_deleted reply \<and> create_error reply = None"
    if "?k es None" and "(n, info) \<in> set nss" for es n info
  proof -
    from pool_task_None [OF that] obtain cs where "create_namespace st load_config dry (n, info) cs None" "set cs \<subseteq> set es"
      by blast
    then show ?thesis using create_namespace_None by blast
  qed
  from assms Inr have "and_then ?u (and_then ?d ?k) cs r" by (simp add: create_namespaces_def)
  then show ?thesis
  proof (cases rule: and_thenE)
    case (first x)
    then show ?thesis using us [OF first(1)]
      by - (rule exI [of _ cs], rule exI [of _ "[]"], rule exI [of _ "[]"], simp add: first(2))
  next
    case (both c1 c2)
    from both(3) show ?thesis
    proof (cases rule: and_thenE)
      case (first x)
      then show ?thesis using us [OF both(2)] ds [OF first(1)] both(1)
        by - (rule exI [of _ c1], rule exI [of _ c2], rule exI [of _ "[]"], simp add: first(2))
    next
      case k: (both c3 c4)
      have "\<exists>ctx reply. get_context (contexts st) (yaml st) (ni_region info) = Inr ctx \<and> Deletes ctx n dry reply \<in> set c3 \<and>
          (r = None \<longrightarrow> (\<exists>reply. Creates ctx n dry reply \<in> set c4 \<and> \<not> being_deleted reply \<and> create_error reply = None))"
        if "(n, info) \<in> set nss" for n info
      proof -
        from deleted [OF k(2) that] obtain ctx reply where
          "get_context (contexts st) (yaml st) (ni_region info) = Inr ctx" "Deletes ctx n dry reply \<in> set c3" by blast
        moreover from this have "\<exists>reply. Creates ctx n dry reply \<in> set c4 \<and> \<not> being_deleted reply \<and> create_error reply = None"
          if "r = None"
          using created [OF k(3) [unfolded that] \<open>(n, info) \<in> set nss\<close>] by auto
        ultimately show ?thesis by blast
      qed
      then have "\<forall>(n, info) \<in> set nss. \<exists>ctx reply. get_context (contexts st) (yaml st) (ni_region info) = Inr ctx \<and>
          Deletes ctx n dry reply \<in> set c3 \<and>
          (r = None \<longrightarrow> (\<exists>reply. Creates ctx n dry reply \<in> set c4 \<and> \<not> being_deleted reply \<and> create_error reply = None))"
        by blast
      then show ?thesis
        using us [OF both(2)] ds [OF k(2)] ks [OF k(3)] both(1) k(1) Inr
        by - (rule exI [of _ c1], rule exI [of _ c3], rule exI [of _ c4], simp)
    qed
  qed
qed

text \<open>No load balancer and no address is ever found.\<close>

definition silent_dns :: dns_api where
  "silent_dns = \<lparr>balancers = \<lambda>r k. Inr [], resolve = \<lambda>r d k. None, balancer_clock = \<lambda>r k. 0,
     resolve_clock = \<lambda>r k. 0, dns_file = ''f''\<rparr>"

lemma namespaces_recreated_witness:
  "\<exists>us ds ks reply. create_namespaces global_site (\<lambda>c. Inr ()) (yaml global_site) False (us @ ds @ ks) None \<and>
     Creates ''k'' ''global'' False reply \<in> set ks \<and> \<not> being_deleted reply \<and> create_error reply = None"
proof -
  let ?x = "(''global'', global_info)"
  let ?l = "(\<lambda>c. Inr ()) :: string \<Rightarrow> unit res"
  let ?wait = "Create_refused (Inr ''object is being deleted'')"
  have config: "kube_config global_site ?l (ni_region global_info) = Inr ''k''"
    by (simp add: kube_config_def global_site_facts global_info_def)
  have u: "in_pool [command (clean_up_neon global_site False ?x)] [Ran (uninstall_command global_site ?x) (Some 1)] None"
    by (rule in_pool_one) (simp add: clean_up_neon_def uninstall_command_def run_subprocess_def command_single)
  have d: "in_pool [clean_up_namespace global_site ?l False ?x] [Deletes ''k'' ''global'' False Deleted] None"
    by (rule in_pool_one) (simp add: clean_up_namespace_def config)
  have k: "in_pool [create_namespace global_site ?l False ?x]
      [Creates ''k'' ''global'' False ?wait, Creates ''k'' ''global'' False Created] None"
    by (rule in_pool_one) (simp add: create_namespace_def config str_in_def)
  define cs where "cs = [Ran (uninstall_command global_site ?x) (Some 1)] @ [Deletes ''k'' ''global'' False Deleted] @
      [Creates ''k'' ''global'' False ?wait, Creates ''k'' ''global'' False Created]"
  have c: "create_namespaces global_site ?l (yaml global_site) False cs None"
    unfolding create_namespaces_def global_site_facts cs_def
    using and_thenI(1) [where b = "in_pool _" and c = "and_then (in_pool _) (in_pool _)", OF u
        and_thenI(1) [where b = "in_pool _" and c = "in_pool _", OF d k]] by simp
  from namespaces_recreated [OF c] obtain us ds ks nss where e: "cs = us @ ds @ ks" and
    n: "get_namespaces (yaml global_site) = Inr nss" and
    all: "\<forall>(n, info) \<in> set nss. \<exists>ctx reply. get_context (contexts global_site) (yaml global_site) (ni_region info) = Inr ctx \<and>
          Deletes ctx n False reply \<in> set ds \<and>
          (None = None \<longrightarrow> (\<exists>reply. Creates ctx n False reply \<in> set ks \<and> \<not> being_deleted reply \<and> create_error reply = None))"
    by (elim exE conjE) (simp, blast)
  have "?x \<in> set nss" using n by (auto simp: global_site_facts)
  from bspec [OF all this] have "\<exists>ctx. get_context (contexts global_site) (yaml global_site) (ni_region global_info) = Inr ctx \<and>
      (\<exists>reply. Creates ctx ''global'' False reply \<in> set ks \<and> \<not> being_deleted reply \<and> create_error reply = None)"
    unfolding prod.case by blast
  then show ?thesis using c unfolding e by (simp add: global_site_facts global_info_def) blast
qed

text \<open>C23 Whatever stages run, whatever the answers, and however the tasks interleave: every command is one of those for a
  region of the configuration, in the context of that region, or one of those for a namespace of the configuration, with
  this namespace and in the context of its own region (without a context flag when the region has no known context); every
  namespace that is deleted or created is one of the configuration, in the context of its region; and a dry run runs no
  command, writes a file without addresses only, and marks every request as a dry run.\<close>

theorem deploy_scope:
  assumes "deploy_main st api load_config argv cs r" and "e \<in> set cs"
  shows "\<exists>opts cfg. deploy_cli argv = Parsed opts \<and> get_main_config (contexts st) (yaml st) = Inr cfg \<and>
    (case e of
       Ran c rc \<Rightarrow> \<not> do_dry_run opts \<and>
         ((\<exists>g region. global_region cfg = Some g \<and> (region = g \<or> region \<in> set (dkeys (regions_of cfg))) \<and> for_region st g region c) \<or>
          (\<exists>nss n info. get_namespaces cfg = Inr nss \<and> (n, info) \<in> set nss \<and> for_namespace st n (ni_region info) c))
     | Wrote f addresses \<Rightarrow> addresses = [] \<or> \<not> do_dry_run opts
     | Deletes ctx n d reply \<Rightarrow> d = do_dry_run opts \<and> (\<exists>nss info. get_namespaces cfg = Inr nss \<and> (n, info) \<in> set nss \<and>
         get_context (contexts st) (yaml st) (ni_region info) = Inr ctx)
     | Creates ctx n d reply \<Rightarrow> d = do_dry_run opts \<and> (\<exists>nss info. get_namespaces cfg = Inr nss \<and> (n, info) \<in> set nss \<and>
         get_context (contexts st) (yaml st) (ni_region info) = Inr ctx))"
proof -
  from assms obtain opts where o: "deploy_cli argv = Parsed opts" "deploy_run st api load_config opts cs r"
    by (auto simp: deploy_main_def raising_def split: parsed.splits)
  from deploy_run_allowed [OF o(2) assms(2)] obtain cfg where
    cfg: "get_main_config (contexts st) (yaml st) = Inr cfg" "allowed st cfg (do_dry_run opts) e" by blast
  have "case e of
       Ran c rc \<Rightarrow> \<not> do_dry_run opts \<and>
         ((\<exists>g region. global_region cfg = Some g \<and> (region = g \<or> region \<in> set (dkeys (regions_of cfg))) \<and> for_region st g region c) \<or>
          (\<exists>nss n info. get_namespaces cfg = Inr nss \<and> (n, info) \<in> set nss \<and> for_namespace st n (ni_region info) c))
     | Wrote f addresses \<Rightarrow> addresses = [] \<or> \<not> do_dry_run opts
     | Deletes ctx n d reply \<Rightarrow> d = do_dry_run opts \<and> (\<exists>nss info. get_namespaces cfg = Inr nss \<and> (n, info) \<in> set nss \<and>
         get_context (contexts st) (yaml st) (ni_region info) = Inr ctx)
     | Creates ctx n d reply \<Rightarrow> d = do_dry_run opts \<and> (\<exists>nss info. get_namespaces cfg = Inr nss \<and> (n, info) \<in> set nss \<and>
         get_context (contexts st) (yaml st) (ni_region info) = Inr ctx)"
  proof (cases e)
    case (Ran c rc)
    have dry: "\<not> do_dry_run opts" using cfg(2) by (simp add: Ran)
    from cfg(2) consider g r where "global_region cfg = Some g" "in_regions cfg r" "for_region st g r c"
      | n r where "of_config cfg n r" "for_namespace st n r c" by (auto simp: Ran)
    then have "(\<exists>g region. global_region cfg = Some g \<and> (region = g \<or> region \<in> set (dkeys (regions_of cfg))) \<and> for_region st g region c) \<or>
          (\<exists>nss n info. get_namespaces cfg = Inr nss \<and> (n, info) \<in> set nss \<and> for_namespace st n (ni_region info) c)"
    proof cases
      case 1
      then have "r = g \<or> r \<in> set (dkeys (regions_of cfg))" unfolding in_regions_def by auto
      with 1 show ?thesis by blast
    next
      case 2
      then show ?thesis unfolding of_config_def by blast
    qed
    with dry show ?thesis unfolding Ran call.case by blast
  qed (use cfg(2) in \<open>auto simp: of_config_def\<close>)
  with o(1) cfg(1) show ?thesis by blast
qed

lemma deploy_scope_witness:
  "\<exists>cs r cmd. deploy_main sample_site silent_dns (\<lambda>c. Inr ()) [''--from'', ''pushgateway''] (Ran cmd None # cs) r \<and>
     (\<exists>n region. n \<in> {''global'', ''us'', ''eu''} \<and> for_namespace sample_site n region cmd) \<and>
     (\<exists>rest. cmd = [''kubectl'', ''delete''] @ rest)"
proof -
  define opts where "opts = \<lparr>skip_before = Some ''pushgateway'', skip_after = None, clean_up_only = False, show_stages = False, do_dry_run = False\<rparr>"
  have o: "deploy_cli [''--from'', ''pushgateway''] = Parsed opts" unfolding opts_def by code_simp
  have u: "unskipped_stages opts = Inr [''pushgateway'']" by (simp add: opts_def unskipped_stages_def STAGES_def)
  obtain mc where mc: "get_main_config (contexts sample_site) (yaml sample_site) = Inr mc" "get_namespaces mc = Inr sample_namespaces"
    by (simp add: sample_site_def sample_config_def get_main_config_def fill_regions_def find_context_def str_in_def
        get_namespaces_def regions_of_def region_namespace_def sample_region_def fill_context_def sample_namespaces_def opt_get_def)
  have n: "filter (\<lambda>i. STAGES ! i = ''pushgateway'') [0 ..< length STAGES] = [4]"
    by (simp add: STAGES_def upt_rec)
  obtain cmd k where c: "command (pushgateway sample_site False (''us'', \<lparr>ni_region = ''us'', ni_id = PInt 1, ni_target = PNone, ni_warmup = PInt 0, ni_instances = PInt 1\<rparr>)) = command (Exec cmd False k)"
    and cmd_eq: "cmd = [''kubectl'', ''delete'', ''-f'', base_path sample_site @ ''/pushgateway.yaml'', ''--namespace'', ''us''] @ context_flag sample_site ''us'' ''--context''"
    by (simp add: pushgateway_def Let_def run_subprocess_def)
  have r: "command (Exec cmd False k) [Ran cmd None] (Some (OSError (program cmd)))"
    by (simp add: command_Exec after_def command_Fail raising_def)
  have "start_pushgateway sample_site mc False [Ran cmd None] (Some (OSError (program cmd)))"
    using and_thenI(2) [where b = "command _", OF r] by (simp add: start_pushgateway_def mc(2) sample_namespaces_def c)
  then have m: "deploy_main sample_site silent_dns (\<lambda>c. Inr ()) [''--from'', ''pushgateway''] [Ran cmd None] (Some (OSError (program cmd)))"
    by (simp add: deploy_main_def o deploy_run_def u mc(1) n run_stage_def) (simp add: opts_def)
  have cmd: "\<exists>rest. cmd = [''kubectl'', ''delete''] @ rest" and no: "\<not> for_region sample_site g region cmd" for g region
    using cmd_eq by (auto simp: for_region_def in_context_def)
  from deploy_scope [OF m, of "Ran cmd None"] mc no obtain n info where "(n, info) \<in> set sample_namespaces" "for_namespace sample_site n (ni_region info) cmd"
    by auto
  then have "\<exists>n region. n \<in> {''global'', ''us'', ''eu''} \<and> for_namespace sample_site n region cmd" by (auto simp: sample_namespaces_def)
  with m cmd show ?thesis by blast
qed

lemma nth_in_slice:
  assumes "distinct xs" and "i < length xs"
  shows "xs ! i \<in> set (drop a (take c xs)) \<longleftrightarrow> a \<le> i \<and> i < c"
proof
  assume "xs ! i \<in> set (drop a (take c xs))"
  then obtain j where j: "j < length (drop a (take c xs))" "drop a (take c xs) ! j = xs ! i"
    by (metis in_set_conv_nth)
  from j(1) have "a + j < min (length xs) c" by auto
  then have "a \<le> length (take c xs)" "a + j < length xs" "a + j < c" by auto
  with j(2) have "xs ! (a + j) = xs ! i" by (simp del: length_take)
  with assms \<open>a + j < length xs\<close> have "a + j = i" by (simp add: nth_eq_iff_index_eq)
  with \<open>a + j < c\<close> show "a \<le> i \<and> i < c" by simp
next
  assume "a \<le> i \<and> i < c"
  with assms(2) have "i - a < length (drop a (take c xs))" "drop a (take c xs) ! (i - a) = xs ! i" by (auto intro: diff_less_mono)
  then show "xs ! i \<in> set (drop a (take c xs))" by (metis nth_mem)
qed

lemma filter_upt: "b < n \<Longrightarrow> filter (\<lambda>i. a \<le> i \<and> i \<le> b) [0 ..< n] = [a ..< Suc b]"
proof (rule sorted_distinct_set_unique)
  show "b < n \<Longrightarrow> set (filter (\<lambda>i. a \<le> i \<and> i \<le> b) [0 ..< n]) = set [a ..< Suc b]" by auto
qed (simp_all add: sorted_wrt_filter del: upt_Suc)

text \<open>The stages that run are those from \<^verbatim>\<open>--from\<close> to \<^verbatim>\<open>--to\<close>, both included, one after the other; no stage
  runs when the first comes after the last. A failing deployment ran the stages before the failing one to a normal end
  and nothing after it.\<close>

theorem stages_selected:
  assumes "\<not> show_stages opts" and "get_main_config (contexts st) (yaml st) = Inr cfg" and "a < 5" and "b < 5"
    and "skip_before opts = Some (STAGES ! a) \<or> skip_before opts = None \<and> a = 0"
    and "skip_after opts = Some (STAGES ! b) \<or> skip_after opts = None \<and> b = 4"
  shows "deploy_run st api load_config opts = in_order (map (run_stage st api load_config cfg opts) [a ..< Suc b]) \<and>
    (\<forall>cs x. deploy_run st api load_config opts cs (Some x) \<longrightarrow> (\<exists>k cs1 cs2. a \<le> k \<and> k \<le> b \<and> cs = cs1 @ cs2 \<and>
       in_order (map (run_stage st api load_config cfg opts) [a ..< k]) cs1 None \<and>
       run_stage st api load_config cfg opts k cs2 (Some x)))"
proof -
  have index: "index_of (STAGES ! i) STAGES = Inr i" if "i < 5" for i
  proof -
    have "\<forall>i \<in> {..< 5}. index_of (STAGES ! i) STAGES = Inr i" by code_simp
    with that show ?thesis by simp
  qed
  have len: "length STAGES = 5" and distinct: "distinct STAGES" by (simp_all add: STAGES_def)
  have "STAGES ! i \<in> set (drop a (take (b + 1) STAGES)) \<longleftrightarrow> a \<le> i \<and> i \<le> b" if "i < length STAGES" for i
    using nth_in_slice [OF distinct that, of a "b + 1"] by (simp add: less_Suc_eq_le)
  then have "filter (\<lambda>i. STAGES ! i \<in> set (drop a (take (b + 1) STAGES))) [0 ..< length STAGES] =
      filter (\<lambda>i. a \<le> i \<and> i \<le> b) [0 ..< length STAGES]"
    by (intro filter_cong) auto
  also have "\<dots> = [a ..< Suc b]" using filter_upt [of b 5 a] assms(4) by (simp add: len)
  finally have f: "filter (\<lambda>i. STAGES ! i \<in> set (drop a (take (b + 1) STAGES))) [0 ..< length STAGES] = [a ..< Suc b]" .
  have "unskipped_stages opts = Inr (drop a (take (b + 1) STAGES))"
    using assms(3-6) index [of a] index [of b] by (auto simp: unskipped_stages_def STAGES_def)
  then have e: "deploy_run st api load_config opts = in_order (map (run_stage st api load_config cfg opts) [a ..< Suc b])"
    unfolding deploy_run_def using assms(1,2) f by simp
  have "\<exists>k cs1 cs2. a \<le> k \<and> k \<le> b \<and> cs = cs1 @ cs2 \<and> in_order (map (run_stage st api load_config cfg opts) [a ..< k]) cs1 None \<and>
       run_stage st api load_config cfg opts k cs2 (Some x)"
    if "deploy_run st api load_config opts cs (Some x)" for cs x
  proof -
    from that obtain i cs1 cs2 where i: "i < length [a ..< Suc b]" "cs = cs1 @ cs2"
      "in_order (take i (map (run_stage st api load_config cfg opts) [a ..< Suc b])) cs1 None"
      "(map (run_stage st api load_config cfg opts) [a ..< Suc b] ! i) cs2 (Some x)"
      unfolding e in_order_Some by auto
    then have "take i [a ..< Suc b] = [a ..< a + i]" by (simp add: take_upt del: upt_Suc)
    with i show ?thesis
      by (intro exI [of _ "a + i"] exI [of _ cs1] exI [of _ cs2]) (simp add: take_map del: upt_Suc)
  qed
  with e show ?thesis by blast
qed

lemma stages_selected_witness:
  "deploy_run global_site silent_dns (\<lambda>c. Inr ()) \<lparr>skip_before = Some ''neon'', skip_after = Some ''dns'', clean_up_only = False,
     show_stages = False, do_dry_run = False\<rparr> = silent"
  using stages_selected [of "\<lparr>skip_before = Some ''neon'', skip_after = Some ''dns'', clean_up_only = False,
     show_stages = False, do_dry_run = False\<rparr>" global_site _ 3 1 silent_dns "\<lambda>c. Inr ()", OF _ global_site_facts(1)]
  by (simp add: STAGES_def)

text \<open>Waiting with a timeout returns the first answer, or its exception; it gives up exactly when there was none so
  far and the clock has reached the limit after a question. It always asks once, and it goes on for
  ever exactly when there is never an answer and the clock never reaches the limit.\<close>

theorem timeout_exact:
  "(try_with_timeout name fn clock timeout = Some (v, n) \<longleftrightarrow>
     (\<exists>m. n = Suc m \<and> (\<forall>j < m. fn j = Inr None \<and> clock (Suc j) - clock 0 < of_int timeout) \<and>
       (fn m = map_sum id Some v \<or>
        fn m = Inr None \<and> of_int timeout \<le> clock (Suc m) - clock 0 \<and> v = Inl (timed_out name timeout)))) \<and>
   (try_with_timeout name fn clock timeout = None \<longleftrightarrow> (\<forall>j. fn j = Inr None \<and> clock (Suc j) - clock 0 < of_int timeout))"
proof -
  have "answer name fn clock timeout m = Some v \<longleftrightarrow> fn m = map_sum id Some v \<or>
        fn m = Inr None \<and> of_int timeout \<le> clock (Suc m) - clock 0 \<and> v = Inl (timed_out name timeout)" for m
    by (cases v) (auto simp: answer_def split: sum.splits option.splits)
  then show ?thesis by (simp add: try_with_timeout_iff try_with_timeout_None answer_None)
qed

lemma timeout_exact_witness:
  "try_with_timeout ''fn'' (\<lambda>k. if k < 2 then Inr None else Inr (Some ''ip'')) of_nat 300 = Some (Inr ''ip'', 3) \<and>
   try_with_timeout ''fn'' (\<lambda>k. Inr None) (\<lambda>k. 200 * of_nat k) 300 = Some (Inl (timed_out ''fn'' 300) :: string res, 2)"
proof
  show "try_with_timeout ''fn'' (\<lambda>k. if k < 2 then Inr None else Inr (Some ''ip'')) of_nat 300 = Some (Inr ''ip'', 3)"
    unfolding timeout_exact [THEN conjunct1] by (intro exI [of _ 2]) auto
  show "try_with_timeout ''fn'' (\<lambda>k. Inr None) (\<lambda>k. 200 * of_nat k) 300 = Some (Inl (timed_out ''fn'' 300) :: string res, 2)"
    unfolding timeout_exact [THEN conjunct1] by (intro exI [of _ 1]) auto
qed

text \<open>The runs of creating a namespace: any number of refusals because the old one is still being deleted, with the
  same request repeated after each, and then one other reply. A refusal for another reason is
  swallowed; only another kind of exception, or a body that cannot be read, fails.\<close>

theorem creation_repeated:
  assumes "get_context (contexts st) (yaml st) (ni_region info) = Inr ctx" and "load_config ctx = Inr ()"
  shows "create_namespace st load_config dry (n, info) cs r \<longleftrightarrow>
    (\<exists>waits reply. cs = map (\<lambda>m. Creates ctx n dry (Create_refused (Inr m))) waits @ [Creates ctx n dry reply] \<and>
       list_all (str_in ''object is being deleted'') waits \<and>
       (case reply of
          Created \<Rightarrow> r = None
        | Create_failed e \<Rightarrow> r = Some e
        | Create_refused (Inl e) \<Rightarrow> r = Some e
        | Create_refused (Inr m) \<Rightarrow> r = None \<and> \<not> str_in ''object is being deleted'' m))"
proof -
  have reply: "\<not> being_deleted reply \<and> r = create_error reply \<longleftrightarrow> (case reply of
          Created \<Rightarrow> r = None
        | Create_failed e \<Rightarrow> r = Some e
        | Create_refused (Inl e) \<Rightarrow> r = Some e
        | Create_refused (Inr m) \<Rightarrow> r = None \<and> \<not> str_in ''object is being deleted'' m)" for reply
    by (auto split: create_reply.splits sum.splits)
  have waits: "(\<forall>w \<in> set ws. being_deleted w) \<longleftrightarrow> (\<exists>ms. ws = map (Create_refused \<circ> Inr) ms \<and> list_all (str_in ''object is being deleted'') ms)" for ws
  proof (induction ws)
    case (Cons w ws)
    have "being_deleted w \<longleftrightarrow> (\<exists>m. w = Create_refused (Inr m) \<and> str_in ''object is being deleted'' m)"
      by (cases w rule: being_deleted.cases) auto
    with Cons show ?case by (fastforce simp: Cons_eq_map_conv)
  qed simp
  have "create_namespace st load_config dry (n, info) cs r \<longleftrightarrow> create_loop ctx n dry cs r"
    using assms by (simp add: create_namespace_def kube_config_def)
  also have "\<dots> \<longleftrightarrow> (\<exists>ms reply. cs = map (Creates ctx n dry) (map (Create_refused \<circ> Inr) ms @ [reply]) \<and>
      list_all (str_in ''object is being deleted'') ms \<and> \<not> being_deleted reply \<and> r = create_error reply)"
    unfolding create_loop_iff using waits by metis
  finally show ?thesis by (simp add: reply comp_def)
qed

lemma creation_repeated_witness:
  "create_namespace global_site (\<lambda>c. Inr ()) False (''global'', global_info)
     [Creates ''k'' ''global'' False (Create_refused (Inr ''object is being deleted'')),
      Creates ''k'' ''global'' False (Create_refused (Inr ''forbidden''))] None"
proof -
  have ctx: "get_context (contexts global_site) (yaml global_site) (ni_region global_info) = Inr ''k''"
    by (simp add: global_site_facts global_info_def)
  show ?thesis
    unfolding creation_repeated [of global_site global_info "''k''" "\<lambda>c. Inr ()", OF ctx refl]
    by (rule exI [of _ "[''object is being deleted'']"], rule exI [of _ "Create_refused (Inr ''forbidden'')"]) (simp add: str_in_def)
qed

text \<open>The first two stages read the regions with a subscript; a configuration without the key, which
  the other stages accept, ends in a bare \<open>KeyError\<close>.\<close>

theorem deploy_needs_regions:
  assumes "get_main_config (contexts st) (yaml st) = Inr cfg" and "regions (yaml st) = RAbsent" and "global_region (yaml st) = Some g"
  shows "set_up_load_balancer st cfg dry = raising (KeyError ''regions'') \<and>
    install_dns st api cfg dry = raising (KeyError ''regions'') \<and> (\<exists>info. get_namespaces cfg = Inr [(''global'', info)])"
  using assms by (auto simp: get_main_config_def Let_def fill_regions_def rbind_eq_Inr set_up_load_balancer_def install_dns_def
      region_set_def region_names_def get_namespaces_def regions_of_def split: option.splits)

end
