(* ===== verification/Neonctl.thy ===== *)
theory Neonctl
  imports Neonclone Argparse
begin

text \<open>
  \<^verbatim>\<open>tools/neonctl.py\<close>: creating, starting, stopping and destroying a local cluster of several
  regions. The state is the data directory with one place per region; the binaries
  \<^verbatim>\<open>neon_local\<close> and \<^verbatim>\<open>xactserver\<close>, \<^verbatim>\<open>os.kill\<close> and the host's files are parameters. Commands pass
  the state on together with a result, so that an exception leaves what was done before it.
\<close>

section \<open>Steps that may fail\<close>

type_synonym 's cmd = "'s \<Rightarrow> unit res \<times> 's"

definition skip :: "'s cmd" where
  "skip s = (Inr (), s)"

definition stop_with :: "exn \<Rightarrow> 's cmd" where
  "stop_with e s = (Inl e, s)"

definition then_do :: "'s cmd \<Rightarrow> 's cmd \<Rightarrow> 's cmd" where
  "then_do a b s = (case a s of (Inl e, t) \<Rightarrow> (Inl e, t) | (Inr _, t) \<Rightarrow> b t)"

fun do_all :: "'s cmd list \<Rightarrow> 's cmd" where
  "do_all [] = skip"
| "do_all (a # as) = then_do a (do_all as)"

definition with_value :: "'a res \<Rightarrow> ('a \<Rightarrow> 's cmd) \<Rightarrow> 's cmd" where
  "with_value v k = (case v of Inl e \<Rightarrow> stop_with e | Inr a \<Rightarrow> k a)"

section \<open>The cluster\<close>

text \<open>
  The data directory holds files and one directory per region, by name; names have no slash.
  A failing removal is taken to remove nothing.
\<close>

text \<open>A region: its \<^verbatim>\<open>.neon\<close> directory, and the text of \<^verbatim>\<open>xactserver.pid\<close>.\<close>

record region =
  neon :: "neon_dir option"
  pid_file :: "string option"

datatype place = Region region | Plain_file

datatype ctl_call =
    Neon_call string "string list"
  | Xact_call string "string list"
  | Kill_call int

record cluster =
  data_dir_exists :: bool
  places :: "(string, place) dict"
  calls :: "ctl_call list"

text \<open>
  The host. \<open>neon_bin\<close> and \<open>xact_bin\<close> are the programs: the return code and what the run makes of the
  region's directory, or the pid; \<open>None\<close> when the program cannot be started.
\<close>

datatype kill_reply = Killed | No_such_process | Kill_failed exn

record host =
  is_file :: "string \<Rightarrow> bool"
  abspath :: "string \<Rightarrow> string"
  neon_dir_env :: "string option"
  xact_dir_env :: "string option"
  neon_bin :: "string list \<Rightarrow> region \<Rightarrow> (int \<times> region) option"
  xact_bin :: "string list \<Rightarrow> region \<Rightarrow> int option"
  kill :: "int \<Rightarrow> kill_reply"
  remove_error :: "string \<Rightarrow> exn option"

record ctl_args =
  dry :: bool
  no_xactserver :: bool
  neon_dir_arg :: "string option"
  xact_dir_arg :: "string option"

record create_args = ctl_args +
  num_regions :: int
  pg_version :: string
  region_prefix :: string
  keep_neon :: bool
  pageserver_config :: "string list"
  tenant_config :: "string list"

record start_args = ctl_args +
  start_version :: string
  valgrind :: bool

definition join_path :: "string \<Rightarrow> string \<Rightarrow> string" where
  "join_path a b = (if take 1 b = ''/'' then b else if a = [] \<or> last a = CHR ''/'' then a @ b else a @ ''/'' @ b)"

text \<open>\<^verbatim>\<open>given or os.environ.get(..., ".")\<close>\<close>

definition chosen_dir :: "string option \<Rightarrow> string option \<Rightarrow> string" where
  "chosen_dir given env = (case given of
     Some (c # d) \<Rightarrow> c # d
   | _ \<Rightarrow> (case env of None \<Rightarrow> ''.'' | Some e \<Rightarrow> e))"

definition find_binary :: "host \<Rightarrow> string \<Rightarrow> string \<Rightarrow> string res" where
  "find_binary h dir name = req (SystemExit 1)
     (find (is_file h) (map (\<lambda>b. abspath h (join_path dir b)) [name, ''target/debug/'' @ name, ''target/release/'' @ name]))"

definition get_neon :: "host \<Rightarrow> 'a ctl_args_scheme \<Rightarrow> string res" where
  "get_neon h args = find_binary h (chosen_dir (neon_dir_arg args) (neon_dir_env h)) ''neon_local''"

definition get_xactserver :: "host \<Rightarrow> 'a ctl_args_scheme \<Rightarrow> string res" where
  "get_xactserver h args = find_binary h (chosen_dir (xact_dir_arg args) (xact_dir_env h)) ''xactserver''"

section \<open>Running the binaries\<close>

definition neon_run :: "host \<Rightarrow> bool \<Rightarrow> string \<Rightarrow> string list \<Rightarrow> bool \<Rightarrow> cluster cmd" where
  "neon_run h dry_run r cmd check s =
     (if dry_run then (Inr (), s)
      else case dget (places s) r of
        Some (Region d) \<Rightarrow> (case neon_bin h cmd d of
          None \<Rightarrow> (Inl (OSError ''neon_local''), s)
        | Some (rc, d') \<Rightarrow>
            (if check \<and> rc \<noteq> 0 then Inl (CalledProcessError cmd) else Inr (),
             s\<lparr>places := dset r (Region d') (places s), calls := calls s @ [Neon_call r cmd]\<rparr>))
      | _ \<Rightarrow> (Inl (OSError r), s))"

text \<open>The pid file is opened for writing before the server is started, and filled after it.\<close>

definition xact_run :: "host \<Rightarrow> bool \<Rightarrow> string \<Rightarrow> string list \<Rightarrow> cluster cmd" where
  "xact_run h dry_run r cmd s =
     (if dry_run then (Inr (), s)
      else case dget (places s) r of
        Some (Region d) \<Rightarrow> (let d0 = d\<lparr>pid_file := Some []\<rparr> in case xact_bin h cmd d0 of
          None \<Rightarrow> (Inl (OSError ''xactserver''), s\<lparr>places := dset r (Region d0) (places s)\<rparr>)
        | Some pid \<Rightarrow> (Inr (), s\<lparr>places := dset r (Region (d0\<lparr>pid_file := Some (show_int pid)\<rparr>)) (places s),
            calls := calls s @ [Xact_call r cmd]\<rparr>))
      | _ \<Rightarrow> (Inl (OSError r), s))"

definition xact_stop :: "host \<Rightarrow> bool \<Rightarrow> string \<Rightarrow> cluster cmd" where
  "xact_stop h dry_run r s =
     (if dry_run then (Inr (), s)
      else case dget (places s) r of
        Some (Region d) \<Rightarrow> (case pid_file d of
          None \<Rightarrow> (Inr (), s)
        | Some text \<Rightarrow> (case int_of_str text of
            None \<Rightarrow> (Inl (ValueError ''invalid literal for int()''), s)
          | Some pid \<Rightarrow> (case kill h pid of Kill_failed e \<Rightarrow> Inl e | _ \<Rightarrow> Inr (),
              s\<lparr>calls := calls s @ [Kill_call pid]\<rparr>)))
      | _ \<Rightarrow> (Inr (), s))"

section \<open>All regions\<close>

definition region_list :: "cluster \<Rightarrow> string list" where
  "region_list s = sort (map fst (filter (\<lambda>(n, p). p \<noteq> Plain_file) (places s)))"

definition get_regions :: "cluster \<Rightarrow> string list res" where
  "get_regions s = (if data_dir_exists s then Inr (region_list s) else Inl (OSError ''data_dir''))"

definition valgrind_args :: "string \<Rightarrow> string list" where
  "valgrind_args supp = [''valgrind'', ''--leak-check=no'', ''--error-markers=VALGRINDERROR-BEGIN,VALGRINDERROR-END'',
     ''--suppressions='' @ supp, ''--trace-children=yes'', ''--time-stamp=yes'']"

definition endpoint_start :: "string \<Rightarrow> start_args \<Rightarrow> string \<Rightarrow> string list" where
  "endpoint_start supp args r = [''endpoint'', ''start'', r, ''--pg-version'', start_version args] @
     (if valgrind args then [''--valgrind'', join '' '' (valgrind_args supp)] else [])"

definition xact_nodes :: "nat \<Rightarrow> string" where
  "xact_nodes n = join '','' (map (\<lambda>i. ''http://localhost:'' @ show_nat (23000 + i)) [0 ..< n])"

definition xact_args :: "nat \<Rightarrow> nat \<Rightarrow> string list" where
  "xact_args n i = [''--node-id'', show_nat i, ''--listen-pg'', ''127.0.0.1:'' @ show_nat (10000 + i),
     ''--connect-pg'', ''postgresql://cloud_admin@localhost:'' @ show_nat (55432 + 2 * i) @ ''/postgres'',
     ''--nodes'', xact_nodes n, ''--listen-http'', ''127.0.0.1:'' @ show_nat (8080 + i),
     ''--listen-peer'', ''0.0.0.0:'' @ show_nat (23000 + i)]"

definition start_all_regions :: "host \<Rightarrow> string \<Rightarrow> start_args \<Rightarrow> cluster cmd" where
  "start_all_regions h supp args s = with_value (get_regions s) (\<lambda>rs.
     with_value (get_neon h args) (\<lambda>_. then_do
       (do_all (map (\<lambda>r. then_do (neon_run h (dry args) r [''start''] True)
          (neon_run h (dry args) r (endpoint_start supp args r) True)) rs))
       (with_value (get_xactserver h args) (\<lambda>_.
          do_all (map (\<lambda>(i, r). xact_run h (dry args \<or> no_xactserver args) r (xact_args (length rs) i)) (enumerate 0 rs)))))) s"

definition stop_all_regions :: "host \<Rightarrow> 'a ctl_args_scheme \<Rightarrow> cluster cmd" where
  "stop_all_regions h args s = with_value (get_regions s) (\<lambda>rs. then_do
     (if no_xactserver args then skip
      else with_value (get_xactserver h args) (\<lambda>_.
        do_all (map (xact_stop h (dry args \<or> no_xactserver args)) rs)))
     (with_value (get_neon h args) (\<lambda>_.
        do_all (map (\<lambda>r. neon_run h (dry args) r [''stop''] False) rs)))) s"

section \<open>The commands\<close>

definition make_dir :: "bool \<Rightarrow> string \<Rightarrow> cluster cmd" where
  "make_dir dry_run r s = (if dry_run then (Inr (), s) else case dget (places s) r of
     None \<Rightarrow> (Inr (), s\<lparr>data_dir_exists := True, places := dset r (Region \<lparr>neon = None, pid_file = None\<rparr>) (places s)\<rparr>)
   | Some (Region d) \<Rightarrow> (Inr (), s)
   | Some Plain_file \<Rightarrow> (Inl (OSError r), s))"

text \<open>\<^verbatim>\<open>clone_neon\<close> from one region to another.\<close>

definition clone_region :: "bool \<Rightarrow> string \<Rightarrow> string \<Rightarrow> nat \<Rightarrow> cluster cmd" where
  "clone_region dry_run g r i s = (if dry_run then (Inr (), s)
     else case dget (places s) r of
       Some (Region d) \<Rightarrow> (let w = \<lparr>src_is_dir = (\<exists>e. dget (places s) g = Some (Region e)),
              src_neon = (case dget (places s) g of Some (Region e) \<Rightarrow> neon e | _ \<Rightarrow> None),
              dst_is_dir = True, dst_neon = neon d\<rparr>
          in case clone_neon (int i) None w of
            (v, w') \<Rightarrow> (v, s\<lparr>places := dset r (Region (d\<lparr>neon := dst_neon w'\<rparr>)) (places s)\<rparr>))
     | _ \<Rightarrow> (Inl (CloneError ''Destination directory not found or not a directory''), s))"

definition names_of_regions :: "string \<Rightarrow> int \<Rightarrow> string list" where
  "names_of_regions pre n = map (\<lambda>i. pre @ show_nat i) [0 ..< nat (n + 1)]"

definition init_commands :: "create_args \<Rightarrow> string list list" where
  "init_commands args =
     [[''init'', ''--pg-version'', pg_version args],
      ''start'' # concat (map (\<lambda>c. [''--pageserver-config-override'', c]) (pageserver_config args)),
      [''tenant'', ''create'', ''--set-default'', ''--pg-version'', pg_version args] @
        concat (map (\<lambda>c. [''-c'', c]) (tenant_config args))]"

definition branch_command :: "nat \<Rightarrow> string \<Rightarrow> string list" where
  "branch_command i r = [''timeline'', ''branch'', ''--branch-name'', r, ''--region-id'', show_nat i]"

definition endpoint_create :: "create_args \<Rightarrow> nat \<Rightarrow> string \<Rightarrow> string list" where
  "endpoint_create args i r = [''endpoint'', ''create'', r, ''--branch-name'', r, ''--pg-port'', show_nat (55432 + 2 * i),
     ''--http-port'', show_nat (55432 + 2 * i + 1), ''--pg-version'', pg_version args]"

definition create_command :: "host \<Rightarrow> create_args \<Rightarrow> cluster cmd" where
  "create_command h args = with_value (get_neon h args) (\<lambda>_.
     case names_of_regions (region_prefix args) (num_regions args) of
       [] \<Rightarrow> stop_with (IndexError ''list index out of range'')
     | g # rs \<Rightarrow> do_all (
         [make_dir (dry args) g] @
         map (\<lambda>c. neon_run h (dry args) g c True) (init_commands args) @
         map (\<lambda>(i, r). neon_run h (dry args) g (branch_command i r) True) (enumerate 1 rs) @
         [if keep_neon args then skip else neon_run h (dry args) g [''stop''] True] @
         map (\<lambda>(i, r). then_do (make_dir (dry args) r) (clone_region (dry args) g r i)) (enumerate 1 rs) @
         map (\<lambda>(i, r). neon_run h (dry args) r (endpoint_create args i r) True) (enumerate 1 rs)))"

definition remove_region :: "host \<Rightarrow> bool \<Rightarrow> string \<Rightarrow> cluster cmd" where
  "remove_region h dry_run r s = (if dry_run then (Inr (), s) else case remove_error h r of
     Some e \<Rightarrow> (Inl e, s)
   | None \<Rightarrow> (Inr (), s\<lparr>places := filter (\<lambda>(n, p). n \<noteq> r) (places s)\<rparr>))"

text \<open>The regions to remove are listed after stopping.\<close>

definition destroy_command :: "host \<Rightarrow> 'a ctl_args_scheme \<Rightarrow> cluster cmd" where
  "destroy_command h args = then_do (stop_all_regions h args)
     (\<lambda>s. with_value (get_regions s) (\<lambda>rs. do_all (map (remove_region h (dry args)) rs)) s)"

section \<open>The command line\<close>

definition store_option :: "string list \<Rightarrow> string \<Rightarrow> string list \<Rightarrow> option_spec" where
  "store_option names d cs = \<lparr>option_names = names, dest = d, action = Store, choices = cs\<rparr>"

definition flag_option :: "string \<Rightarrow> string \<Rightarrow> option_spec" where
  "flag_option n d = \<lparr>option_names = [n], dest = d, action = Flag, choices = []\<rparr>"

definition main_parser :: parser where
  "main_parser = \<lparr>options = [help_option, store_option [''--neon-dir''] ''neon_dir'' [], store_option [''--pg-dir''] ''pg_dir'' [],
     store_option [''--xactserver-dir''] ''xactserver_dir'' []], positionals = []\<rparr>"

definition sub_parser :: "option_spec list \<Rightarrow> parser" where
  "sub_parser opts = \<lparr>options = [help_option, flag_option ''--dry-run'' ''dry_run'', flag_option ''--no-xactserver'' ''no_xactserver''] @ opts,
     positionals = [(''data_dir'', [])]\<rparr>"

definition version_option :: option_spec where
  "version_option = store_option [''--pg-version''] ''pg_version'' [''14'', ''15'']"

definition create_parser :: parser where
  "create_parser = sub_parser
     [\<lparr>option_names = [''--num-regions'', ''-r''], dest = ''num_regions'', action = Number, choices = []\<rparr>, version_option,
      store_option [''--region-prefix'', ''-p''] ''region_prefix'' [], flag_option ''--keep-neon'' ''keep_neon'',
      \<lparr>option_names = [''--pageserver-config''], dest = ''pageserver_config'', action = Append, choices = []\<rparr>,
      \<lparr>option_names = [''--tenant-config''], dest = ''tenant_config'', action = Append, choices = []\<rparr>]"

definition subcommands :: "(string \<times> parser \<times> args) list" where
  "subcommands =
     [(''create'', create_parser, [(''num_regions'', Num 3), (''pg_version'', Text ''14''), (''region_prefix'', Text ''r''),
         (''pageserver_config'', Texts []), (''tenant_config'', Texts [])]),
      (''start'', sub_parser [version_option, flag_option ''--valgrind'' ''valgrind''], [(''pg_version'', Text ''14'')]),
      (''stop'', sub_parser [], []),
      (''destroy'', sub_parser [], [])]"

definition text_of :: "args \<Rightarrow> string \<Rightarrow> string option" where
  "text_of ns d = (case dget ns d of Some (Text s) \<Rightarrow> Some s | _ \<Rightarrow> None)"

definition list_of :: "args \<Rightarrow> string \<Rightarrow> string list" where
  "list_of ns d = (case dget ns d of Some (Texts l) \<Rightarrow> l | _ \<Rightarrow> [])"

definition flag_of :: "args \<Rightarrow> string \<Rightarrow> bool" where
  "flag_of ns d \<longleftrightarrow> dget ns d = Some (Bool True)"

definition ctl_args_of :: "args \<Rightarrow> ctl_args" where
  "ctl_args_of ns = \<lparr>dry = flag_of ns ''dry_run'', no_xactserver = flag_of ns ''no_xactserver'',
     neon_dir_arg = text_of ns ''neon_dir'', xact_dir_arg = text_of ns ''xactserver_dir''\<rparr>"

definition create_args_of :: "args \<Rightarrow> create_args" where
  "create_args_of ns = ctl_args.extend (ctl_args_of ns) (create_args.fields
     (case dget ns ''num_regions'' of Some (Num i) \<Rightarrow> i | _ \<Rightarrow> 0) (the (text_of ns ''pg_version''))
     (the (text_of ns ''region_prefix'')) (flag_of ns ''keep_neon'') (list_of ns ''pageserver_config'') (list_of ns ''tenant_config''))"

definition start_args_of :: "args \<Rightarrow> start_args" where
  "start_args_of ns = ctl_args.extend (ctl_args_of ns) (start_args.fields (the (text_of ns ''pg_version'')) (flag_of ns ''valgrind''))"

definition neonctl_run :: "host \<Rightarrow> string \<Rightarrow> string \<Rightarrow> args \<Rightarrow> cluster cmd" where
  "neonctl_run h supp c ns =
     (if c = ''create'' then create_command h (create_args_of ns)
      else if c = ''start'' then start_all_regions h supp (start_args_of ns)
      else if c = ''stop'' then stop_all_regions h (ctl_args_of ns)
      else destroy_command h (ctl_args_of ns))"

text \<open>The data directory the command line names, and the command on it.\<close>

definition neonctl_main :: "host \<Rightarrow> string \<Rightarrow> string list \<Rightarrow> (string \<times> cluster cmd) parsed" where
  "neonctl_main h supp argv = (case parse_command main_parser subcommands argv of
     Parsed (c, ns) \<Rightarrow> Parsed (the (text_of ns ''data_dir''), neonctl_run h supp c ns)
   | Exits e \<Rightarrow> Exits e
   | Outside \<Rightarrow> Outside)"

section \<open>Running commands\<close>

lemma skip_result [simp]: "skip s = (Inr (), s)"
  by (simp add: skip_def)

lemma stop_with_result [simp]: "stop_with e s = (Inl e, s)"
  by (simp add: stop_with_def)

lemma with_value_simps [simp]: "with_value (Inl e) k = stop_with e" "with_value (Inr a) k = k a"
  by (simp_all add: with_value_def)

lemma then_do_Inr: "then_do a b s = (Inr (), t) \<longleftrightarrow> (\<exists>u. a s = (Inr (), u) \<and> b u = (Inr (), t))"
  by (auto simp: then_do_def split: prod.splits sum.splits)

lemma with_value_Inr: "with_value v k s = (Inr (), t) \<longleftrightarrow> (\<exists>a. v = Inr a \<and> k a s = (Inr (), t))"
  by (cases v) auto

lemma do_all_append: "do_all (as @ bs) = then_do (do_all as) (do_all bs)"
  by (induction as) (auto simp: fun_eq_iff then_do_def skip_def split: prod.splits sum.splits)

lemma do_all_single [simp]: "do_all [a] = a"
  by (auto simp: fun_eq_iff then_do_def skip_def split: prod.splits sum.splits)

text \<open>What every step keeps, whether it fails or not, the whole command keeps.\<close>

definition keeps_it :: "('s \<Rightarrow> bool) \<Rightarrow> 's cmd \<Rightarrow> bool" where
  "keeps_it P c \<longleftrightarrow> (\<forall>s. P s \<longrightarrow> P (snd (c s)))"

lemma keeps_itD: "keeps_it P c \<Longrightarrow> P s \<Longrightarrow> c s = (r, t) \<Longrightarrow> P t"
  by (metis keeps_it_def snd_conv)

named_theorems keeping \<open>what a composed command keeps\<close>

lemma keeps_it_simple [keeping]: "keeps_it P skip" "keeps_it P (stop_with e)"
  by (simp_all add: keeps_it_def)

lemma keeps_it_then_do [keeping]: "keeps_it P a \<Longrightarrow> keeps_it P b \<Longrightarrow> keeps_it P (then_do a b)"
  unfolding keeps_it_def then_do_def by (auto split: prod.splits sum.splits)

lemma keeps_it_with_value [keeping]: "(\<And>a. v = Inr a \<Longrightarrow> keeps_it P (k a)) \<Longrightarrow> keeps_it P (with_value v k)"
  by (cases v) (auto intro: keeping)

lemma keeps_it_do_all [keeping]: "(\<And>c. c \<in> set cs \<Longrightarrow> keeps_it P c) \<Longrightarrow> keeps_it P (do_all cs)"
  by (induction cs) (auto intro: keeping)

section \<open>The order of the regions\<close>

lemma append_le: "(pre @ xs \<le> pre @ ys) \<longleftrightarrow> (xs \<le> (ys :: string))"
  by (induction pre) simp_all

lemma show_digit: "i < 10 \<Longrightarrow> show_nat i = [digit_char i]"
  by (simp add: show_nat.simps)

lemma digit_char_less: "i < j \<Longrightarrow> j < 10 \<Longrightarrow> digit_char i < digit_char j"
  by (simp add: digit_char_def less_char_def)

lemma names_sorted: "n \<le> 9 \<Longrightarrow> sorted (names_of_regions pre n)"
proof -
  assume n: "n \<le> 9"
  have "pre @ show_nat i \<le> pre @ show_nat j" if "i \<le> j" "j < nat (n + 1)" for i j
  proof (cases "i = j")
    case False
    then have "i < j" "j < 10" using that n by simp_all
    then have "digit_char i \<le> digit_char j" using digit_char_less by (simp add: less_imp_le)
    with \<open>i < j\<close> \<open>j < 10\<close> digit_char_less [of i j] show ?thesis by (simp add: append_le show_digit)
  qed simp
  then show ?thesis by (simp add: names_of_regions_def sorted_iff_nth_mono)
qed

lemma names_unsorted: "10 \<le> n \<Longrightarrow> \<not> sorted (names_of_regions pre n)"
proof
  assume n: "10 \<le> n" and "sorted (names_of_regions pre n)"
  then have "names_of_regions pre n ! 9 \<le> names_of_regions pre n ! 10"
    by (intro sorted_nth_mono) (simp_all add: names_of_regions_def)
  moreover have "names_of_regions pre n ! 9 = pre @ ''9''" "names_of_regions pre n ! 10 = pre @ ''10''"
  proof -
    have "9 < nat (n + 1)" "10 < nat (n + 1)" using n by simp_all
    then show "names_of_regions pre n ! 9 = pre @ ''9''" "names_of_regions pre n ! 10 = pre @ ''10''"
      by (simp_all add: names_of_regions_def nth_upt str_simps del: upt_Suc)
  qed
  ultimately show False by (simp add: append_le less_eq_char_def)
qed

lemma names_order: "sort (names_of_regions pre n) = names_of_regions pre n \<longleftrightarrow> n \<le> 9"
proof (cases "n \<le> 9")
  case True
  then show ?thesis by (simp add: names_sorted sorted_sort_id)
next
  case False
  then have "\<not> sorted (names_of_regions pre n)" by (intro names_unsorted) simp
  then have "sort (names_of_regions pre n) \<noteq> names_of_regions pre n" using sorted_sort by metis
  with False show ?thesis by simp
qed

section \<open>What a successful command did\<close>

text \<open>
  The effect of one step that succeeded outside a dry run: the calls it appended, and that it only
  touched the places named.
\<close>

definition extends :: "cluster \<Rightarrow> ctl_call list \<Rightarrow> string set \<Rightarrow> cluster \<Rightarrow> bool" where
  "extends s cs rs t \<longleftrightarrow> calls t = calls s @ cs \<and> dkeys (places t) = dkeys (places s) \<and>
     (\<forall>r. r \<notin> rs \<longrightarrow> dget (places t) r = dget (places s) r) \<and>
     (\<forall>r. dget (places t) r = Some Plain_file \<longleftrightarrow> dget (places s) r = Some Plain_file) \<and>
     data_dir_exists t = data_dir_exists s"

lemma extends_refl: "extends s [] rs s"
  by (simp add: extends_def)

lemma extends_trans: "extends s cs rs t \<Longrightarrow> extends t ds qs u \<Longrightarrow> extends s (cs @ ds) (rs \<union> qs) u"
  by (simp add: extends_def)

lemma dset_present: "dget d k = Some w \<Longrightarrow> dkeys (dset k v d) = dkeys d"
  by (simp add: dset_keys map_of_SomeD rev_image_eqI) (metis fst_conv image_eqI map_of_SomeD)

lemma neon_run_Inr:
  assumes "neon_run h False r cmd check s = (Inr (), t)"
  shows "extends s [Neon_call r cmd] {r} t \<and> (\<exists>d rc d'. dget (places s) r = Some (Region d) \<and>
    neon_bin h cmd d = Some (rc, d') \<and> (check \<longrightarrow> rc = 0) \<and> dget (places t) r = Some (Region d'))"
proof -
  from assms obtain d rc d' where d: "dget (places s) r = Some (Region d)" "neon_bin h cmd d = Some (rc, d')"
    "check \<longrightarrow> rc = 0" "t = s\<lparr>places := dset r (Region d') (places s), calls := calls s @ [Neon_call r cmd]\<rparr>"
    by (auto simp: neon_run_def split: option.splits place.splits prod.splits if_splits)
  then show ?thesis by (simp add: extends_def dset_present [OF d(1)] dict_simps)
qed

lemma xact_run_Inr:
  assumes "xact_run h False r cmd s = (Inr (), t)"
  shows "extends s [Xact_call r cmd] {r} t"
proof -
  from assms obtain d d' where d: "dget (places s) r = Some (Region d)"
    "t = s\<lparr>places := dset r (Region d') (places s), calls := calls s @ [Xact_call r cmd]\<rparr>"
    by (auto simp: xact_run_def Let_def split: option.splits place.splits if_splits)
  then show ?thesis by (simp add: extends_def dset_present [OF d(1)] dict_simps)
qed

text \<open>A sequence of steps that each append their calls.\<close>

lemma do_all_extends:
  assumes "do_all (map f xs) s = (Inr (), t)"
    and "\<And>x s t. x \<in> set xs \<Longrightarrow> f x s = (Inr (), t) \<Longrightarrow> extends s (cs x) (rs x) t"
  shows "extends s (concat (map cs xs)) (\<Union>x \<in> set xs. rs x) t"
  using assms
proof (induction xs arbitrary: s)
  case Nil
  then show ?case by (simp add: extends_refl)
next
  case (Cons x xs)
  then obtain u where u: "f x s = (Inr (), u)" "do_all (map f xs) u = (Inr (), t)" by (auto simp: then_do_Inr)
  have "extends u (concat (map cs xs)) (\<Union>x \<in> set xs. rs x) t"
    by (rule Cons.IH [OF u(2)]) (use Cons.prems(2) in auto)
  with extends_trans [OF Cons.prems(2) [OF _ u(1)] this] show ?case by simp
qed

lemma starts_one:
  assumes "then_do (neon_run h False r [''start''] True) (neon_run h False r (endpoint_start supp args r) True) s = (Inr (), t)"
  shows "extends s [Neon_call r [''start''], Neon_call r (endpoint_start supp args r)] {r} t"
proof -
  from assms obtain v where "extends s [Neon_call r [''start'']] {r} v" "extends v [Neon_call r (endpoint_start supp args r)] {r} t"
    by (auto simp: then_do_Inr dest!: neon_run_Inr)
  from extends_trans [OF this] show ?thesis by simp
qed

lemma start_calls:
  assumes "start_all_regions h supp args s = (Inr (), t)" and "\<not> dry args"
  shows "calls t = calls s @ concat (map (\<lambda>r. [Neon_call r [''start''], Neon_call r (endpoint_start supp args r)]) (region_list s)) @
    (if no_xactserver args then [] else
      map (\<lambda>(i, r). Xact_call r (xact_args (length (region_list s)) i)) (enumerate 0 (region_list s)))"
proof -
  let ?rs = "region_list s"
  from assms obtain u where
    n: "do_all (map (\<lambda>r. then_do (neon_run h False r [''start''] True) (neon_run h False r (endpoint_start supp args r) True)) ?rs) s = (Inr (), u)" and
    x: "do_all (map (\<lambda>(i, r). xact_run h (no_xactserver args) r (xact_args (length ?rs) i)) (enumerate 0 ?rs)) u = (Inr (), t)"
    by (auto simp: start_all_regions_def get_regions_def with_value_Inr then_do_Inr split: if_splits)
  have "extends s (concat (map (\<lambda>r. [Neon_call r [''start''], Neon_call r (endpoint_start supp args r)]) ?rs)) (\<Union>r \<in> set ?rs. {r}) u"
    by (rule do_all_extends [OF n starts_one])
  then have cu: "calls u = calls s @ concat (map (\<lambda>r. [Neon_call r [''start''], Neon_call r (endpoint_start supp args r)]) ?rs)"
    by (simp add: extends_def)
  show ?thesis
  proof (cases "no_xactserver args")
    case True
    have "keeps_it (\<lambda>s. s = u) (do_all (map (\<lambda>(i, r). xact_run h True r (xact_args (length ?rs) i)) (enumerate 0 ?rs)))"
      by (rule keeps_it_do_all) (auto simp: keeps_it_def xact_run_def)
    from keeps_itD [OF this refl] x True have "t = u" by simp
    with cu True show ?thesis by simp
  next
    case False
    have "extends u (concat (map (\<lambda>(i, r). [Xact_call r (xact_args (length ?rs) i)]) (enumerate 0 ?rs))) (\<Union>x \<in> set (enumerate 0 ?rs). {snd x}) t"
      by (rule do_all_extends [OF x [unfolded False [THEN eq_False [THEN iffD2]]]]) (auto dest: xact_run_Inr)
    moreover have "concat (map (\<lambda>(i, r). [Xact_call r (xact_args (length ?rs) i)]) l) =
        map (\<lambda>(i, r). Xact_call r (xact_args (length ?rs) i)) l" for l :: "(nat \<times> string) list"
      by (induction l) auto
    ultimately show ?thesis using cu False by (simp add: extends_def)
  qed
qed

section \<open>What create leaves behind\<close>

definition neon_of :: "cluster \<Rightarrow> string \<Rightarrow> neon_dir option" where
  "neon_of s r = (case dget (places s) r of Some (Region d) \<Rightarrow> neon d | _ \<Rightarrow> None)"

definition cloned :: "nat \<Rightarrow> neon_dir option \<Rightarrow> neon_dir option \<Rightarrow> bool" where
  "cloned i src copy \<longleftrightarrow> (\<exists>w w'. clone_neon (int i) None w = (Inr (), w') \<and> src_neon w = src \<and> dst_neon w' = copy)"

lemma dget_append: "dget (d @ e) k = (case dget d k of None \<Rightarrow> dget e k | Some v \<Rightarrow> Some v)"
  by (induction d) auto

lemma not_key: "dget d k = None \<longleftrightarrow> k \<notin> fst ` set d"
  by (rule map_of_eq_None_iff)

lemma dset_last: "k \<notin> fst ` set d \<Longrightarrow> dset k x (dset k y d) = d @ [(k, x)]"
  by (induction d) auto

lemma clone_step:
  assumes "then_do (make_dir False r) (clone_region False g r i) s = (Inr (), t)" and "dget (places s) r = None" and "g \<noteq> r"
  shows "\<exists>d. places t = places s @ [(r, Region d)] \<and> calls t = calls s \<and> cloned i (neon_of s g) (neon d)"
proof -
  let ?e = "\<lparr>neon = None, pid_file = None\<rparr> :: region"
  let ?u = "s\<lparr>data_dir_exists := True, places := dset r (Region ?e) (places s)\<rparr>"
  have "make_dir False r s = (Inr (), ?u)" using assms(2) by (simp add: make_dir_def)
  with assms(1) have c: "clone_region False g r i ?u = (Inr (), t)" by (simp add: then_do_def)
  have r: "dget (places ?u) r = Some (Region ?e)" by (simp add: dict_simps)
  have g: "neon_of s g = (case dget (places ?u) g of Some (Region e) \<Rightarrow> neon e | _ \<Rightarrow> None)"
    using assms(3) by (simp add: neon_of_def dict_simps)
  define w where "w = \<lparr>src_is_dir = (\<exists>e. dget (places ?u) g = Some (Region e)), src_neon = neon_of s g,
    dst_is_dir = True, dst_neon = None\<rparr>"
  obtain v w' where w': "clone_neon (int i) None w = (v, w')" by force
  from c r have vt: "v = Inr () \<and> t = ?u\<lparr>places := dset r (Region (?e\<lparr>neon := dst_neon w'\<rparr>)) (places ?u)\<rparr>"
    using w' unfolding w_def g by (simp add: clone_region_def Let_def split: prod.splits)
  moreover have "dset r x (dset r y (places s)) = places s @ [(r, x)]" for x y
    using assms(2) by (intro dset_last) (simp only: not_key not_False_eq_True)
  moreover have "cloned i (neon_of s g) (dst_neon w')"
    unfolding cloned_def using w' vt by (intro exI [of _ w] exI [of _ w']) (simp add: w_def)
  ultimately show ?thesis
    by (intro exI [of _ "?e\<lparr>neon := dst_neon w'\<rparr>"]) simp
qed

lemma clone_loop:
  assumes "do_all (map (\<lambda>(i, r). then_do (make_dir False r) (clone_region False g r i)) irs) s = (Inr (), t)"
    and "distinct (map snd irs)" and "\<And>r. r \<in> snd ` set irs \<Longrightarrow> dget (places s) r = None" and "g \<notin> snd ` set irs"
  shows "\<exists>ds. length ds = length irs \<and> places t = places s @ zip (map snd irs) (map Region ds) \<and> calls t = calls s \<and>
    (\<forall>k < length irs. cloned (fst (irs ! k)) (neon_of s g) (neon (ds ! k)))"
  using assms
proof (induction irs arbitrary: s)
  case Nil
  then show ?case by simp
next
  case (Cons x irs)
  obtain i r where x: "x = (i, r)" by force
  from Cons.prems(1) obtain u where
    u: "then_do (make_dir False r) (clone_region False g r i) s = (Inr (), u)"
      "do_all (map (\<lambda>(i, r). then_do (make_dir False r) (clone_region False g r i)) irs) u = (Inr (), t)"
    by (auto simp: x then_do_Inr)
  have "dget (places s) r = None" "g \<noteq> r" using Cons.prems(3,4) by (auto simp: x)
  from clone_step [OF u(1) this] obtain d where d: "places u = places s @ [(r, Region d)]" "calls u = calls s"
    "cloned i (neon_of s g) (neon d)" by blast
  have fresh: "dget (places u) q = None" if "q \<in> snd ` set irs" for q
    using Cons.prems(2,3) that by (auto simp: d(1) dget_append x)
  have same: "neon_of u g = neon_of s g"
    using \<open>g \<noteq> r\<close> by (auto simp: neon_of_def d(1) dget_append split: option.splits)
  from Cons.IH [OF u(2) _ fresh] Cons.prems(2,4) obtain ds where ds: "length ds = length irs"
    "places t = places u @ zip (map snd irs) (map Region ds)" "calls t = calls u"
    "\<forall>k < length irs. cloned (fst (irs ! k)) (neon_of u g) (neon (ds ! k))" by (auto simp: x)
  show ?case
    using ds d same by (intro exI [of _ "d # ds"]) (auto simp: x nth_Cons split: nat.splits)
qed

text \<open>The calls of \<^verbatim>\<open>create\<close>, the places it makes, and the copies as they were before the endpoints.\<close>

lemma create_result:
  assumes "create_command h args s = (Inr (), t)" and "\<not> dry args" and "places s = []" and "0 \<le> num_regions args"
    and "names_of_regions (region_prefix args) (num_regions args) = g # rs"
  shows "\<exists>s1 ds e. length ds = length rs \<and> places s1 = (g, Region e) # zip rs (map Region ds) \<and>
     (\<forall>k < length rs. cloned (Suc k) (neon e) (neon (ds ! k))) \<and>
     do_all (map (\<lambda>(i, r). neon_run h False r (endpoint_create args i r) True) (enumerate 1 rs)) s1 = (Inr (), t) \<and>
     extends s1 (map (\<lambda>(i, r). Neon_call r (endpoint_create args i r)) (enumerate 1 rs)) (set rs) t"
proof -
  have dist: "distinct (g # rs)" unfolding assms(5) [symmetric]
    by (simp add: names_of_regions_def distinct_map inj_on_def) (metis show_int_inj show_int_def of_nat_less_0_iff nat_int int_int_eq)
  from assms obtain s1 s2 s3 s4 s5 where
    a: "make_dir False g s = (Inr (), s1)" and
    b: "do_all (map (\<lambda>c. neon_run h False g c True) (init_commands args)) s1 = (Inr (), s2)" and
    c: "do_all (map (\<lambda>(i, r). neon_run h False g (branch_command i r) True) (enumerate 1 rs)) s2 = (Inr (), s3)" and
    d: "(if keep_neon args then skip else neon_run h (dry args) g [''stop''] True) s3 = (Inr (), s4)" and
    e: "do_all (map (\<lambda>(i, r). then_do (make_dir False r) (clone_region False g r i)) (enumerate 1 rs)) s4 = (Inr (), s5)" and
    f: "do_all (map (\<lambda>(i, r). neon_run h False r (endpoint_create args i r) True) (enumerate 1 rs)) s5 = (Inr (), t)"
    by (auto simp: create_command_def with_value_Inr do_all_append then_do_Inr)
  have p1: "dkeys (places s1) = [g]" "dget (places s1) g \<noteq> Some Plain_file"
    using a assms(3) by (auto simp: make_dir_def)
  have "extends s1 (concat (map (\<lambda>c. [Neon_call g c]) (init_commands args))) (\<Union>c \<in> set (init_commands args). {g}) s2"
    by (rule do_all_extends [OF b]) (use neon_run_Inr in blast)
  then have p2: "dkeys (places s2) = [g]" "dget (places s2) g \<noteq> Some Plain_file" using p1 by (simp_all add: extends_def)
  have "extends s2 (concat (map (\<lambda>x. [Neon_call g (branch_command (fst x) (snd x))]) (enumerate 1 rs))) (\<Union>x \<in> set (enumerate 1 rs). {g}) s3"
    by (rule do_all_extends [OF c]) (auto dest: neon_run_Inr)
  then have p3: "dkeys (places s3) = [g]" "dget (places s3) g \<noteq> Some Plain_file" using p2 by (simp_all add: extends_def)
  have p4: "dkeys (places s4) = [g]" "dget (places s4) g \<noteq> Some Plain_file"
    using d p3 assms(2) by (auto split: if_splits dest!: neon_run_Inr simp: extends_def)
  then obtain eg where s4: "places s4 = [(g, Region eg)]"
    by (cases "places s4") (auto, metis place.exhaust)
  have snds: "map snd (enumerate 1 rs) = rs" by simp
  then have set_snds: "snd ` set (enumerate 1 rs) = set rs" by (metis set_map)
  have "distinct (map snd (enumerate 1 rs))" "g \<notin> snd ` set (enumerate 1 rs)" unfolding snds set_snds using dist by simp_all
  moreover have "dget (places s4) r = None" if "r \<in> snd ` set (enumerate 1 rs)" for r
    using that dist unfolding set_snds s4 by auto
  ultimately obtain ds where ds: "length ds = length rs" "places s5 = places s4 @ zip rs (map Region ds)"
    "\<forall>k < length rs. cloned (fst (enumerate 1 rs ! k)) (neon_of s4 g) (neon (ds ! k))"
    using clone_loop [OF e] unfolding snds by (metis length_enumerate)
  have "extends s5 (concat (map (\<lambda>x. [Neon_call (snd x) (endpoint_create args (fst x) (snd x))]) (enumerate 1 rs)))
      (\<Union>x \<in> set (enumerate 1 rs). {snd x}) t"
    by (rule do_all_extends [OF f]) (auto dest: neon_run_Inr)
  moreover have "concat (map (\<lambda>x. [Neon_call (snd x) (endpoint_create args (fst x) (snd x))]) l) =
      map (\<lambda>(i, r). Neon_call r (endpoint_create args i r)) l" for l by (induction l) auto
  moreover have "(\<Union>x \<in> set (enumerate 1 rs). {snd x}) = set rs"
    using set_snds by auto
  ultimately have "extends s5 (map (\<lambda>(i, r). Neon_call r (endpoint_create args i r)) (enumerate 1 rs)) (set rs) t" by (simp only:)
  with ds s4 f show ?thesis
    by - (rule exI [of _ s5], rule exI [of _ ds], rule exI [of _ eg], simp add: neon_of_def nth_enumerate_eq)
qed

end
