(* ===== verification/Neonctl_Regions.thy ===== *)
theory Neonctl_Regions
  imports Neonctl "HOL-Library.Multiset"
begin

text \<open>
  What the local cluster commands promise together: the numbers of the regions, the addresses of the
  clones, a start that fails, \<^verbatim>\<open>destroy\<close>, and dry runs.
\<close>

section \<open>Properties\<close>

lemma all_regions_listed:
  assumes "dkeys (places t) = names" and "distinct names" and "\<And>r. dget (places t) r \<noteq> Some Plain_file"
  shows "region_list t = sort names"
proof -
  have "p \<noteq> Plain_file" if "(n, p) \<in> set (places t)" for n p
    using that assms by (metis map_of_eq_Some_iff)
  then have "filter (\<lambda>(n, p). p \<noteq> Plain_file) (places t) = places t" by (auto simp: filter_id_conv)
  then show ?thesis by (simp add: region_list_def assms(1))
qed

lemma names_distinct: "distinct (names_of_regions pre n)"
  by (simp add: names_of_regions_def distinct_map inj_on_def) (metis nat_of_str_show_nat option.inject)

lemma names_nth: "i \<le> nat n \<Longrightarrow> 0 \<le> n \<Longrightarrow> names_of_regions pre n ! i = pre @ show_nat i"
  by (simp add: names_of_regions_def nat_add_distrib nth_append less_Suc_eq_le)

lemma names_length: "0 \<le> n \<Longrightarrow> length (names_of_regions pre n) = nat n + 1"
  by (simp add: names_of_regions_def nat_add_distrib)

text \<open>The calls of \<^verbatim>\<open>create\<close> and \<^verbatim>\<open>start\<close>, with the sorted list of directories as \<open>order\<close>.\<close>

lemma created_then_started:
  assumes "create_command h cargs s0 = (Inr (), s1)" and "\<not> dry cargs" and "places s0 = []" and "0 \<le> num_regions cargs"
    and "start_all_regions h supp sargs s1 = (Inr (), s2)" and "\<not> dry sargs" and "\<not> no_xactserver sargs"
  shows "(\<forall>i r. 1 \<le> i \<and> i \<le> nat (num_regions cargs) \<and> r = region_prefix cargs @ show_nat i \<longrightarrow>
       Neon_call r (endpoint_create cargs i r) \<in> set (calls s1)) \<and>
    (\<exists>order starts. mset order = mset (names_of_regions (region_prefix cargs) (num_regions cargs)) \<and>
       calls s2 = calls s1 @ starts @ map (\<lambda>(i, r). Xact_call r (xact_args (length order) i)) (enumerate 0 order) \<and>
       ((\<forall>i \<le> nat (num_regions cargs). order ! i = region_prefix cargs @ show_nat i) \<longleftrightarrow> num_regions cargs \<le> 9))"
proof -
  let ?names = "names_of_regions (region_prefix cargs) (num_regions cargs)"
  have len: "length ?names = nat (num_regions cargs) + 1" using assms(4) by (rule names_length)
  then obtain g rs where g: "?names = g # rs" by (cases ?names) auto
  from create_result [OF assms(1-4) g] obtain s ds e where s: "length ds = length rs" "places s = (g, Region e) # zip rs (map Region ds)"
    "extends s (map (\<lambda>(i, r). Neon_call r (endpoint_create cargs i r)) (enumerate 1 rs)) (set rs) s1" by blast
  have keys: "dkeys (places s) = ?names" using s(1) by (simp add: s(2) g)
  have "dget (places s) r \<noteq> Some Plain_file" for r
    using s(1) by (auto simp: s(2) dest!: map_of_SomeD set_zip_rightD)
  with s(3) keys have list: "region_list s1 = sort ?names"
    by (intro all_regions_listed) (simp_all add: extends_def names_distinct)
  have created: "Neon_call (region_prefix cargs @ show_nat i) (endpoint_create cargs i (region_prefix cargs @ show_nat i)) \<in> set (calls s1)"
    if "1 \<le> i" "i \<le> nat (num_regions cargs)" for i
  proof -
    have "rs ! (i - 1) = ?names ! i" using that by (simp add: g)
    also have "\<dots> = region_prefix cargs @ show_nat i" using that assms(4) by (intro names_nth)
    finally have r: "rs ! (i - 1) = region_prefix cargs @ show_nat i" .
    have "i - 1 < length rs" using that len g by simp
    then have "(1 + (i - 1), rs ! (i - 1)) \<in> set (enumerate 1 rs)" by (metis nth_enumerate_eq nth_mem length_enumerate)
    then have "(i, region_prefix cargs @ show_nat i) \<in> set (enumerate 1 rs)" using that r by simp
    with s(3) show ?thesis by (force simp: extends_def)
  qed
  have order: "(\<forall>i \<le> nat (num_regions cargs). sort ?names ! i = region_prefix cargs @ show_nat i) \<longleftrightarrow> num_regions cargs \<le> 9"
  proof -
    have "(\<forall>i \<le> nat (num_regions cargs). sort ?names ! i = region_prefix cargs @ show_nat i) \<longleftrightarrow> sort ?names = ?names"
      using names_nth [OF _ assms(4)] len by (auto simp: list_eq_iff_nth_eq less_Suc_eq_le)
    then show ?thesis by (simp add: names_order)
  qed
  have "\<exists>starts. calls s2 = calls s1 @ starts @
      map (\<lambda>(i, r). Xact_call r (xact_args (length (sort ?names)) i)) (enumerate 0 (sort ?names))"
    using start_calls [OF assms(5,6)] assms(7) list by auto
  then obtain starts where starts: "calls s2 = calls s1 @ starts @
      map (\<lambda>(i, r). Xact_call r (xact_args (length (sort ?names)) i)) (enumerate 0 (sort ?names))" ..
  show ?thesis
  proof (rule conjI)
    show "\<exists>order starts. mset order = mset ?names \<and>
       calls s2 = calls s1 @ starts @ map (\<lambda>(i, r). Xact_call r (xact_args (length order) i)) (enumerate 0 order) \<and>
       ((\<forall>i \<le> nat (num_regions cargs). order ! i = region_prefix cargs @ show_nat i) \<longleftrightarrow> num_regions cargs \<le> 9)"
      by (rule exI [of _ "sort ?names"], rule exI [of _ starts], intro conjI mset_sort starts order)
  qed (use created in blast)
qed

text \<open>The URL of an endpoint on the given port.\<close>

definition pg_url :: "string \<Rightarrow> string" where
  "pg_url port = ''postgresql://cloud_admin@localhost:'' @ port @ ''/postgres''"

lemma show_nat_inj: "show_nat i = show_nat j \<longleftrightarrow> i = j"
  by (metis nat_of_str_show_nat option.inject)

lemma xact_connects: "xact_args n i ! 5 = pg_url (show_nat (55432 + 2 * i))"
  by (simp add: xact_args_def pg_url_def)

lemma endpoint_listens: "take 3 (endpoint_create args i r) = [''endpoint'', ''create'', r]"
    "endpoint_create args i r ! 5 = ''--pg-port''" "endpoint_create args i r ! 6 = show_nat (55432 + 2 * i)"
  by (simp_all add: endpoint_create_def)

lemma misplaced:
  assumes "mset order = mset names" and "length names = Suc n" and "\<not> (\<forall>i \<le> n. order ! i = names ! i)" and "distinct names"
  shows "\<exists>i k. 1 \<le> i \<and> i \<le> n \<and> k \<le> n \<and> i \<noteq> k \<and> order ! k = names ! i"
proof -
  have len: "length order = Suc n" using assms(1,2) by (metis mset_eq_length)
  have found: "\<exists>k \<le> n. order ! k = names ! i" if "i \<le> n" for i
    using that mset_eq_setD [OF assms(1)] assms(2) len by (metis in_set_conv_nth less_Suc_eq_le nth_mem)
  from assms(3) obtain i where i: "i \<le> n" "order ! i \<noteq> names ! i" by blast
  then obtain k where k: "k \<le> n" "order ! k = names ! i" using found by blast
  show ?thesis
  proof (cases "i = 0")
    case False
    with i k show ?thesis by - (rule exI [of _ i], rule exI [of _ k], auto)
  next
    case True
    then have "k \<noteq> 0" using i k by (metis)
    obtain j where j: "j \<le> n" "order ! j = names ! k" using found k(1) by blast
    show ?thesis
    proof (cases "j = k")
      case False
      with j k(1) \<open>k \<noteq> 0\<close> show ?thesis by - (rule exI [of _ k], rule exI [of _ j], auto)
    next
      case same: True
      have "names ! k = names ! 0" using j k True same by simp
      with assms(4) assms(2) k(1) \<open>k \<noteq> 0\<close> show ?thesis by (simp add: nth_eq_iff_index_eq)
    qed
  qed
qed

text \<open>C26 A cluster that is created and then started: \<^verbatim>\<open>create\<close> makes the endpoints by the numbers of the
  regions, \<^verbatim>\<open>start\<close> connects the transaction servers by the places in the sorted list of directories. With up to nine
  regions besides the global one every server is connected to the endpoint of its own region; with more of them some server is
  connected to a port that is not its endpoint's.\<close>

theorem nodes_match_endpoints:
  assumes "create_command h cargs s0 = (Inr (), s1)" and "\<not> dry cargs" and "places s0 = []" and "0 \<le> num_regions cargs"
    and "start_all_regions h supp sargs s1 = (Inr (), s2)" and "\<not> dry sargs" and "\<not> no_xactserver sargs"
    and "n = nat (num_regions cargs)" and "r = (\<lambda>i. region_prefix cargs @ show_nat i)"
  shows "(n \<le> 9 \<longrightarrow> (\<forall>i \<in> {1 .. n}. \<exists>c a. Neon_call (r i) c \<in> set (calls s1) \<and> take 3 c = [''endpoint'', ''create'', r i] \<and>
      c ! 5 = ''--pg-port'' \<and> Xact_call (r i) a \<in> set (calls s2) \<and> a ! 5 = pg_url (c ! 6))) \<and>
    (9 < n \<longrightarrow> (\<exists>i \<in> {1 .. n}. \<exists>c a. Neon_call (r i) c \<in> set (calls s1) \<and> take 3 c = [''endpoint'', ''create'', r i] \<and>
      c ! 5 = ''--pg-port'' \<and> Xact_call (r i) a \<in> set (calls s2) \<and> a ! 5 \<noteq> pg_url (c ! 6)))"
proof -
  let ?names = "names_of_regions (region_prefix cargs) (num_regions cargs)"
  from created_then_started [OF assms(1-7)] obtain order starts where
    made: "\<And>i. 1 \<le> i \<Longrightarrow> i \<le> n \<Longrightarrow> Neon_call (r i) (endpoint_create cargs i (r i)) \<in> set (calls s1)" and
    o: "mset order = mset ?names" "calls s2 = calls s1 @ starts @ map (\<lambda>(i, r). Xact_call r (xact_args (length order) i)) (enumerate 0 order)" and
    iff: "(\<forall>i \<le> n. order ! i = r i) \<longleftrightarrow> num_regions cargs \<le> 9" unfolding assms(8,9) by blast
  have len: "length ?names = Suc n" using names_length [OF assms(4)] by (simp add: assms(8))
  then have lo: "length order = Suc n" using o(1) by (metis mset_eq_length)
  have name: "?names ! i = r i" if "i \<le> n" for i using that names_nth [OF _ assms(4)] by (simp add: assms(8,9))
  have started: "Xact_call (order ! k) (xact_args (length order) k) \<in> set (calls s2)" if "k \<le> n" for k
  proof -
    have "(k, order ! k) \<in> set (enumerate 0 order)" using that lo by (auto simp: in_set_enumerate_eq)
    then show ?thesis unfolding o(2) by force
  qed
  show ?thesis
  proof (intro conjI impI)
    assume "n \<le> 9"
    then have "num_regions cargs \<le> 9" by (simp add: assms(8))
    then have "order ! i = r i" if "i \<le> n" for i using iff that by blast
    with made started show "\<forall>i \<in> {1 .. n}. \<exists>c a. Neon_call (r i) c \<in> set (calls s1) \<and> take 3 c = [''endpoint'', ''create'', r i] \<and>
      c ! 5 = ''--pg-port'' \<and> Xact_call (r i) a \<in> set (calls s2) \<and> a ! 5 = pg_url (c ! 6)"
      by (metis atLeastAtMost_iff endpoint_listens xact_connects)
  next
    assume "9 < n"
    then have "\<not> (\<forall>i \<le> n. order ! i = ?names ! i)" using iff name by (simp add: assms(8))
    from misplaced [OF o(1) len this names_distinct] obtain i k where
      i: "1 \<le> i" "i \<le> n" "k \<le> n" "i \<noteq> k" "order ! k = ?names ! i" by blast
    with started [of k] name have "Xact_call (r i) (xact_args (length order) k) \<in> set (calls s2)" by simp
    moreover have "xact_args (length order) k ! 5 \<noteq> pg_url (endpoint_create cargs i (r i) ! 6)"
      using i(4) by (simp add: xact_connects endpoint_listens pg_url_def show_nat_inj)
    ultimately show "\<exists>i \<in> {1 .. n}. \<exists>c a. Neon_call (r i) c \<in> set (calls s1) \<and> take 3 c = [''endpoint'', ''create'', r i] \<and>
      c ! 5 = ''--pg-port'' \<and> Xact_call (r i) a \<in> set (calls s2) \<and> a ! 5 \<noteq> pg_url (c ! 6)"
      using made i(1,2) endpoint_listens by (metis atLeastAtMost_iff)
  qed
qed

section \<open>A host that works\<close>

definition good_neon :: "string list \<Rightarrow> region \<Rightarrow> (int \<times> region) option" where
  "good_neon cmd d = Some (0, if cmd \<noteq> [] \<and> hd cmd = ''init'' then d\<lparr>neon := Some (sample_neon [1])\<rparr> else d)"

definition good_host :: "(string list \<Rightarrow> region \<Rightarrow> int option) \<Rightarrow> host" where
  "good_host xact = \<lparr>is_file = (\<lambda>f. True), abspath = (\<lambda>f. f), neon_dir_env = None, xact_dir_env = None,
     neon_bin = good_neon, xact_bin = xact, kill = (\<lambda>p. Killed), remove_error = (\<lambda>r. None)\<rparr>"

definition sample_create :: create_args where
  "sample_create = \<lparr>dry = False, no_xactserver = False, neon_dir_arg = None, xact_dir_arg = None, num_regions = 1,
     pg_version = ''14'', region_prefix = ''r'', keep_neon = False, pageserver_config = [], tenant_config = []\<rparr>"

definition sample_start :: start_args where
  "sample_start = \<lparr>dry = False, no_xactserver = False, neon_dir_arg = None, xact_dir_arg = None,
     start_version = ''14'', valgrind = False\<rparr>"

definition no_cluster :: cluster where
  "no_cluster = \<lparr>data_dir_exists = False, places = [], calls = []\<rparr>"

lemma good_host_fields [simp]: "neon_bin (good_host x) = good_neon" "xact_bin (good_host x) = x" "kill (good_host x) = (\<lambda>p. Killed)"
  by (simp_all add: good_host_def)

lemma sample_fields [simp]: "dry sample_create = False" "num_regions sample_create = 1" "region_prefix sample_create = ''r''"
    "keep_neon sample_create = False" "dry sample_start = False" "no_xactserver sample_start = False"
  by (simp_all add: sample_create_def sample_start_def)

lemma found_binaries: "\<exists>b. get_neon (good_host x) a = Inr b" "\<exists>b. get_xactserver (good_host x) a = Inr b"
  by (simp_all add: get_neon_def get_xactserver_def find_binary_def good_host_def)

lemma sample_clone:
  "\<exists>w'. clone_neon 1 None \<lparr>src_is_dir = True, src_neon = Some (sample_neon [1]), dst_is_dir = True, dst_neon = None\<rparr> = (Inr (), w')"
proof -
  have "fst (clone_neon 1 None \<lparr>src_is_dir = True, src_neon = Some (sample_neon [1]), dst_is_dir = True, dst_neon = None\<rparr>) = Inr ()"
    by code_simp
  then show ?thesis by (metis prod.collapse)
qed

lemma sample_names: "names_of_regions ''r'' 1 = [''r0'', ''r1'']"
  by (simp add: names_of_regions_def str_simps upt_rec)

lemma sample_created:
  "\<exists>s e d. create_command (good_host x) sample_create no_cluster = (Inr (), s) \<and> data_dir_exists s \<and>
     places s = [(''r0'', Region e), (''r1'', Region d)]"
proof -
  obtain b where b: "get_neon (good_host x) sample_create = Inr b" using found_binaries by blast
  obtain w' where w': "clone_neon 1 None \<lparr>src_is_dir = True, src_neon = Some (sample_neon [1]), dst_is_dir = True, dst_neon = None\<rparr> = (Inr (), w')"
    using sample_clone by blast
  have "enumerate 1 [''r1''] = [(1 :: nat, ''r1'')]" by simp
  then show ?thesis
    unfolding create_command_def
    by (simp add: b sample_names no_cluster_def make_dir_def then_do_def neon_run_def
        good_neon_def init_commands_def branch_command_def endpoint_create_def clone_region_def w')
qed

lemma sample_started:
  assumes "data_dir_exists s" and "places s = [(''r0'', Region e), (''r1'', Region d)]"
  shows "\<exists>t. start_all_regions (good_host (\<lambda>c d. Some 7)) [] sample_start s = (Inr (), t)"
proof -
  obtain b c where b: "get_neon (good_host (\<lambda>c d. Some 7)) sample_start = Inr b" "get_xactserver (good_host (\<lambda>c d. Some 7)) sample_start = Inr c"
    using found_binaries by blast
  have r: "get_regions s = Inr [''r0'', ''r1'']" using assms by (simp add: get_regions_def region_list_def less_eq_char_def)
  show ?thesis
    unfolding start_all_regions_def
    by (simp add: b r assms then_do_def neon_run_def good_neon_def endpoint_start_def xact_run_def Let_def)
qed

lemma nodes_match_endpoints_witness:
  "\<exists>s1 s2 c a. create_command (good_host (\<lambda>c d. Some 7)) sample_create no_cluster = (Inr (), s1) \<and>
     start_all_regions (good_host (\<lambda>c d. Some 7)) [] sample_start s1 = (Inr (), s2) \<and>
     Neon_call ''r1'' c \<in> set (calls s1) \<and> Xact_call ''r1'' a \<in> set (calls s2) \<and> a ! 5 = pg_url (c ! 6)"
proof -
  let ?h = "good_host (\<lambda>c d. Some 7)"
  obtain s1 e d where c: "create_command ?h sample_create no_cluster = (Inr (), s1)" and
    s1: "data_dir_exists s1" "places s1 = [(''r0'', Region e), (''r1'', Region d)]" using sample_created by blast
  obtain s2 where s2: "start_all_regions ?h [] sample_start s1 = (Inr (), s2)" using sample_started [OF s1] by blast
  have "\<not> dry sample_create" "places no_cluster = []" "0 \<le> num_regions sample_create" "\<not> dry sample_start" "\<not> no_xactserver sample_start"
    "1 = nat (num_regions sample_create)" by (simp_all add: no_cluster_def)
  from nodes_match_endpoints [OF c this(1-3) s2 this(4,5,6) refl, THEN conjunct1] obtain c a where
    "Neon_call (''r'' @ show_nat 1) c \<in> set (calls s1)" "Xact_call (''r'' @ show_nat 1) a \<in> set (calls s2)" "a ! 5 = pg_url (c ! 6)" by auto
  moreover have "''r'' @ show_nat 1 = ''r1''" by (simp add: str_simps)
  ultimately show ?thesis using c s2 by (simp only:) blast
qed

section \<open>The addresses of the regions\<close>

definition page_addr :: "cluster \<Rightarrow> string \<Rightarrow> string \<Rightarrow> toml option" where
  "page_addr s r key = (case neon_of s r of
     Some n \<Rightarrow> (case pageserver_toml n of Inr d \<Rightarrow> lookup [key] d | Inl e \<Rightarrow> None)
   | None \<Rightarrow> None)"

lemma change_addr_shape:
  assumes "change_addr i None v = Inr w"
  shows "\<exists>h p x. v = TStr (h @ '':'' @ p) \<and> int_of_str p = Some x \<and> w = TStr (h @ '':'' @ show_int (x + i))"
proof -
  from assms obtain s h p x where s: "v = TStr s" "split '':'' s = [h, p]" "int_of_str p = Some x" "w = TStr (h @ '':'' @ show_int (x + i))"
    by (auto simp: change_addr_def split: toml.splits list.splits option.splits)
  have "s = h @ '':'' @ p" using join_split [of "'':''" s] s(2) by simp
  with s show ?thesis by blast
qed

lemma change_addr_apart:
  assumes "change_addr i None v = Inr a"
  shows "change_addr j None v = Inr b \<Longrightarrow> i \<noteq> j \<Longrightarrow> a \<noteq> b" and "i \<noteq> 0 \<Longrightarrow> a \<noteq> v"
proof -
  from change_addr_shape [OF assms] obtain h p x where
    v: "v = TStr (h @ '':'' @ p)" "int_of_str p = Some x" "a = TStr (h @ '':'' @ show_int (x + i))" by blast
  show "a \<noteq> v" if "i \<noteq> 0" using v that by auto
  assume b: "change_addr j None v = Inr b" "i \<noteq> j"
  from assms obtain s h' p' x' where "v = TStr s" "split '':'' s = [h', p']" "int_of_str p' = Some x'" "a = TStr (h' @ '':'' @ show_int (x' + i))"
    by (auto simp: change_addr_def split: toml.splits list.splits option.splits)
  with b show "a \<noteq> b" by (auto simp: change_addr_def)
qed

lemma neon_run_keeps_addr:
  assumes "\<And>d rc d'. neon_bin h cmd d = Some (rc, d') \<Longrightarrow> map_option pageserver_toml (neon d') = map_option pageserver_toml (neon d)"
  shows "keeps_it (\<lambda>s. page_addr s q key = a) (neon_run h dr r cmd check)"
proof -
  have "page_addr (s\<lparr>places := dset r (Region d') (places s), calls := c\<rparr>) q key = page_addr s q key"
    if "dget (places s) r = Some (Region d)" "neon_bin h cmd d = Some (rc, d')" for s c rc and d d' :: region
    using that(1) assms [OF that(2)]
    by (cases "q = r"; cases "neon d"; cases "neon d'") (auto simp: page_addr_def neon_of_def)
  then show ?thesis
    unfolding keeps_it_def neon_run_def by (auto split: option.splits place.splits)
qed

lemma endpoints_keep_addr:
  assumes "\<And>c d rc d'. neon_bin h (''endpoint'' # ''create'' # c) d = Some (rc, d') \<Longrightarrow>
      map_option pageserver_toml (neon d') = map_option pageserver_toml (neon d)"
    and "do_all (map (\<lambda>(i, r). neon_run h False r (endpoint_create args i r) True) irs) s = (Inr (), t)"
  shows "page_addr t q key = page_addr s q key"
proof -
  have "keeps_it (\<lambda>t. page_addr t q key = page_addr s q key)
      (do_all (map (\<lambda>(i, r). neon_run h False r (endpoint_create args i r) True) irs))"
    by (rule keeping) (auto simp: endpoint_create_def intro!: neon_run_keeps_addr assms(1))
  from keeps_itD [OF this refl assms(2)] show ?thesis .
qed

lemma cloned_addr:
  assumes "cloned i src copy" and "key \<in> {''listen_http_addr'', ''listen_pg_addr''}"
  shows "\<exists>n d n' d' old new. src = Some n \<and> pageserver_toml n = Inr d \<and> copy = Some n' \<and> pageserver_toml n' = Inr d' \<and>
    lookup [key] d = Some old \<and> change_addr (int i) None old = Inr new \<and> lookup [key] d' = Some new"
proof -
  from assms(1) obtain w w' where c: "clone_neon (int i) None w = (Inr (), w')" and w: "src_neon w = src" "dst_neon w' = copy"
    by (auto simp: cloned_def)
  from clone_result [OF c] w assms(2) show ?thesis by (simp only: insert_iff empty_iff) blast
qed

text \<open>C27 The page servers of a cluster that was created do not share an address: each region listens on the
  address of the global region with the port moved by the region's number, whatever the other
  regions are.\<close>

theorem created_regions_apart:
  assumes "create_command h args s = (Inr (), t)" and "\<not> dry args" and "places s = []" and "1 \<le> num_regions args"
    and "\<And>c d rc d'. neon_bin h (''endpoint'' # ''create'' # c) d = Some (rc, d') \<Longrightarrow>
      map_option pageserver_toml (neon d') = map_option pageserver_toml (neon d)"
    and "key \<in> {''listen_http_addr'', ''listen_pg_addr''}"
  shows "\<exists>addr. (\<forall>i \<le> nat (num_regions args). page_addr t (region_prefix args @ show_nat i) key = Some (addr i)) \<and>
    (\<forall>i \<le> nat (num_regions args). 1 \<le> i \<longrightarrow> change_addr (int i) None (addr 0) = Inr (addr i)) \<and>
    inj_on addr {.. nat (num_regions args)}"
proof -
  let ?n = "nat (num_regions args)" and ?names = "names_of_regions (region_prefix args) (num_regions args)"
  have nonneg: "0 \<le> num_regions args" using assms(4) by simp
  have len: "length ?names = ?n + 1" using nonneg by (rule names_length)
  then obtain g rs where g: "?names = g # rs" by (cases ?names) auto
  from create_result [OF assms(1-3) nonneg g] obtain u ds e where u: "length ds = length rs" "places u = (g, Region e) # zip rs (map Region ds)"
    "\<forall>k < length rs. cloned (Suc k) (neon e) (neon (ds ! k))"
    "do_all (map (\<lambda>(i, r). neon_run h False r (endpoint_create args i r) True) (enumerate 1 rs)) u = (Inr (), t)" by blast
  have dist: "distinct (g # rs)" unfolding g [symmetric] by (rule names_distinct)
  have same: "page_addr t q key = page_addr u q key" for q by (rule endpoints_keep_addr [OF assms(5) u(4)])
  have lrs: "length rs = ?n" using len g by simp
  have "neon_of u (rs ! k) = neon (ds ! k)" if "k < ?n" for k
  proof -
    have "map_of (zip rs (map Region ds)) (rs ! k) = Some (Region (ds ! k))"
      using that dist u(1) lrs by (simp add: map_of_zip_nth)
    moreover have "rs ! k \<noteq> g" using that dist lrs by auto
    ultimately show ?thesis by (simp add: neon_of_def u(2))
  qed
  moreover have g0: "neon_of u g = neon e" by (simp add: neon_of_def u(2))
  moreover have "\<exists>old new. page_addr u g key = Some old \<and> change_addr (int (Suc k)) None old = Inr new \<and> page_addr u (rs ! k) key = Some new"
    if "k < ?n" for k
  proof -
    from cloned_addr [OF u(3) [rule_format, unfolded lrs, OF that] assms(6)] show ?thesis
      using calculation that by (auto simp: page_addr_def)
  qed
  ultimately have step: "\<exists>old new. page_addr t g key = Some old \<and> change_addr (int (Suc k)) None old = Inr new \<and> page_addr t (rs ! k) key = Some new"
    if "k < ?n" for k using that same by simp
  have name: "?names ! i = region_prefix args @ show_nat i" if "i \<le> ?n" for i using that nonneg by (rule names_nth)
  define addr where "addr = (\<lambda>i. the (page_addr t (?names ! i) key))"
  have zero: "page_addr t (?names ! 0) key = Some (addr 0)" using step [of 0] assms(4) by (auto simp: addr_def g)
  have suc: "page_addr t (?names ! i) key = Some (addr i) \<and> change_addr (int i) None (addr 0) = Inr (addr i)" if "1 \<le> i" "i \<le> ?n" for i
  proof -
    have "i - 1 < ?n" using that by linarith
    from step [OF this] that zero show ?thesis by (auto simp: addr_def g)
  qed
  have "page_addr t (?names ! i) key = Some (addr i)" if "i \<le> ?n" for i
    using zero suc [of i] that by (cases "i = 0") auto
  with name have "\<forall>i \<le> ?n. page_addr t (region_prefix args @ show_nat i) key = Some (addr i)" by metis
  moreover have "addr i \<noteq> addr j" if "i < j" "j \<le> ?n" for i j
  proof -
    have j: "change_addr (int j) None (addr 0) = Inr (addr j)" using suc [of j] that by simp
    show ?thesis
    proof (cases "i = 0")
      case True
      then show ?thesis using change_addr_apart(2) [OF j] that by auto
    next
      case False
      then have "change_addr (int i) None (addr 0) = Inr (addr i)" using suc [of i] that by simp
      from change_addr_apart(1) [OF j this] that show ?thesis by auto
    qed
  qed
  then have "inj_on addr {.. ?n}" by (auto intro!: linorder_inj_onI')
  ultimately show ?thesis using suc by - (rule exI [of _ addr], simp)
qed

lemma good_neon_keeps: "neon_bin (good_host x) (''endpoint'' # c) d = Some (rc, d') \<Longrightarrow>
    map_option pageserver_toml (neon d') = map_option pageserver_toml (neon d)"
  by (simp add: good_neon_def)

lemma created_regions_apart_witness:
  "\<exists>t a b. create_command (good_host (\<lambda>c d. Some 7)) sample_create no_cluster = (Inr (), t) \<and>
     page_addr t ''r0'' ''listen_pg_addr'' = Some a \<and> page_addr t ''r1'' ''listen_pg_addr'' = Some b \<and> a \<noteq> b"
proof -
  obtain t where c: "create_command (good_host (\<lambda>c d. Some 7)) sample_create no_cluster = (Inr (), t)" using sample_created by blast
  have "\<not> dry sample_create" "places no_cluster = []" "1 \<le> num_regions sample_create" by (simp_all add: no_cluster_def)
  then have "\<exists>addr. (\<forall>i \<le> nat (num_regions sample_create).
      page_addr t (region_prefix sample_create @ show_nat i) ''listen_pg_addr'' = Some (addr i)) \<and>
    (\<forall>i \<le> nat (num_regions sample_create). 1 \<le> i \<longrightarrow> change_addr (int i) None (addr 0) = Inr (addr i)) \<and>
    inj_on addr {.. nat (num_regions sample_create)}"
    by (rule created_regions_apart [OF c]) (erule good_neon_keeps, simp)
  then obtain addr where
    a: "\<forall>i \<le> nat (num_regions sample_create). page_addr t (region_prefix sample_create @ show_nat i) ''listen_pg_addr'' = Some (addr i)"
      "inj_on addr {.. nat (num_regions sample_create)}"
    by (elim exE conjE) (rule that)
  have "page_addr t ''r0'' ''listen_pg_addr'' = Some (addr 0)" "page_addr t ''r1'' ''listen_pg_addr'' = Some (addr 1)"
    using a(1) [rule_format, of 0] a(1) [rule_format, of 1] by (simp_all add: str_simps)
  moreover have "addr 0 \<noteq> addr 1" using inj_onD [OF a(2), of 0 1] by auto
  ultimately show ?thesis using c by blast
qed

section \<open>Failing starts, stopping and destroying\<close>

lemma region_list_by_name:
  "wf_dict (places s) \<Longrightarrow> region_list s = sort (filter (\<lambda>n. dget (places s) n \<noteq> Some Plain_file) (dkeys (places s)))"
proof -
  assume "wf_dict (places s)"
  then have "map_of (places s) n = Some p" if "(n, p) \<in> set (places s)" for n p
    using that by (simp add: wf_dict_def)
  then have "filter (\<lambda>(n, p). p \<noteq> Plain_file) (places s) = filter (\<lambda>x. dget (places s) (fst x) \<noteq> Some Plain_file) (places s)"
    by (intro filter_cong) auto
  then show ?thesis by (simp add: region_list_def filter_map comp_def)
qed

lemma region_list_mem: "r \<in> set (region_list s) \<Longrightarrow> wf_dict (places s) \<Longrightarrow> \<exists>d. dget (places s) r = Some (Region d)"
  by (auto simp: region_list_def wf_dict_def) (metis place.exhaust)

text \<open>A command that leaves the same directories and files.\<close>

definition same_listing :: "cluster \<Rightarrow> cluster \<Rightarrow> bool" where
  "same_listing s t \<longleftrightarrow> wf_dict (places t) \<and> data_dir_exists t = data_dir_exists s \<and> dkeys (places t) = dkeys (places s) \<and>
     (\<forall>r. dget (places t) r = Some Plain_file \<longleftrightarrow> dget (places s) r = Some Plain_file)"

lemma same_listing_regions: "same_listing s t \<Longrightarrow> wf_dict (places s) \<Longrightarrow> get_regions t = get_regions s"
  by (simp add: get_regions_def same_listing_def region_list_by_name)

lemma same_listing_extends: "extends s cs rs t \<Longrightarrow> wf_dict (places s) \<Longrightarrow> same_listing s t"
  by (simp add: same_listing_def extends_def wf_dict_def)

lemma same_listing_dset: "wf_dict (places s) \<Longrightarrow> dget (places s) r = Some (Region d) \<Longrightarrow>
    same_listing s (s\<lparr>places := dset r (Region d') (places s)\<rparr>)"
  by (simp add: same_listing_def dset_present)

lemma do_all_works:
  assumes "\<And>x s. x \<in> set xs \<Longrightarrow> I s \<Longrightarrow> \<exists>t. f x s = (Inr (), t) \<and> I t" and "I s"
  shows "\<exists>t. do_all (map f xs) s = (Inr (), t) \<and> I t"
  using assms
proof (induction xs arbitrary: s)
  case Nil
  then show ?case by simp
next
  case (Cons x xs)
  then obtain u where u: "f x s = (Inr (), u)" "I u" by (metis list.set_intros(1))
  from Cons.IH [OF _ u(2)] Cons.prems(1) u(1) show ?case by (auto simp: then_do_def)
qed

definition works :: "host \<Rightarrow> bool" where
  "works h \<longleftrightarrow> (\<forall>cmd d. \<exists>d'. neon_bin h cmd d = Some (0, d'))"

lemma neon_run_works:
  assumes "works h" and "same_listing s0 s" and "dget (places s0) r = Some (Region d)"
  shows "\<exists>t. neon_run h False r cmd True s = (Inr (), t) \<and> same_listing s0 t \<and> calls t = calls s @ [Neon_call r cmd]"
proof -
  have "r \<in> fst ` set (places s)" using assms(2,3) unfolding same_listing_def by (metis map_of_eq_None_iff option.distinct(1) dkeys_eq_set)
  then obtain p where p: "dget (places s) r = Some p" using dget_Some_of_key by metis
  with assms(2,3) obtain e where e: "p = Region e" unfolding same_listing_def by (metis option.inject place.distinct(1) place.exhaust)
  obtain d' where "neon_bin h cmd e = Some (0, d')" using assms(1) unfolding works_def by blast
  with p e assms(2,3) show ?thesis
    by (simp add: neon_run_def same_listing_def dset_present)
qed

text \<open>C28 When \<^verbatim>\<open>xactserver\<close> cannot be executed, \<^verbatim>\<open>start\<close> fails with neon running in all regions and with
  an empty pid file in the first one; \<^verbatim>\<open>stop\<close> and \<^verbatim>\<open>destroy\<close> then raise \<^verbatim>\<open>ValueError\<close> on that file and stop nothing.\<close>

theorem failed_start_blocks_stop:
  assumes "works h" and "\<And>cmd d. xact_bin h cmd d = None" and "wf_dict (places s)" and "get_regions s = Inr (r # rs)"
    and "\<not> dry sargs" and "\<not> no_xactserver sargs" and "get_neon h sargs = Inr b" and "get_xactserver h sargs = Inr c"
    and "\<not> dry args" and "\<not> no_xactserver args" and "get_xactserver h args = Inr c'"
  shows "\<exists>t. start_all_regions h supp sargs s = (Inl (OSError ''xactserver''), t) \<and>
    calls t = calls s @ concat (map (\<lambda>q. [Neon_call q [''start''], Neon_call q (endpoint_start supp sargs q)]) (r # rs)) \<and>
    stop_all_regions h args t = (Inl (ValueError ''invalid literal for int()''), t) \<and>
    destroy_command h args t = (Inl (ValueError ''invalid literal for int()''), t)"
proof -
  have list: "data_dir_exists s" "region_list s = r # rs" using assms(4) by (auto simp: get_regions_def split: if_splits)
  have present: "\<exists>d. dget (places s) q = Some (Region d)" if "q \<in> set (r # rs)" for q
    using region_list_mem [of q s] that assms(3) by (simp add: list)
  have start_same: "same_listing s s" using assms(3) by (simp add: same_listing_def)
  let ?f = "\<lambda>q. then_do (neon_run h False q [''start''] True) (neon_run h False q (endpoint_start supp sargs q) True)"
  have "\<exists>t. ?f q u = (Inr (), t) \<and> same_listing s t" if "q \<in> set (r # rs)" "same_listing s u" for q u
  proof -
    from present [OF that(1)] obtain d where d: "dget (places s) q = Some (Region d)" ..
    from neon_run_works [OF assms(1) that(2) d] obtain v where v: "neon_run h False q [''start''] True u = (Inr (), v)" "same_listing s v" by blast
    from neon_run_works [OF assms(1) v(2) d] obtain t where "neon_run h False q (endpoint_start supp sargs q) True v = (Inr (), t)" "same_listing s t" by blast
    with v(1) show ?thesis by (auto simp: then_do_def)
  qed
  then have "\<exists>u. do_all (map ?f (r # rs)) s = (Inr (), u) \<and> same_listing s u"
    by (rule do_all_works) (assumption, assumption, rule start_same)
  then obtain u where u: "do_all (map ?f (r # rs)) s = (Inr (), u)" "same_listing s u" by blast
  have "extends s (concat (map (\<lambda>q. [Neon_call q [''start''], Neon_call q (endpoint_start supp sargs q)]) (r # rs)))
      (\<Union>q \<in> set (r # rs). {q}) u"
    by (rule do_all_extends [OF u(1) starts_one])
  then have calls: "calls u = calls s @ concat (map (\<lambda>q. [Neon_call q [''start''], Neon_call q (endpoint_start supp sargs q)]) (r # rs))"
    by (simp add: extends_def)
  from u(2) present [of r] obtain d where d: "dget (places u) r = Some (Region d)"
    unfolding same_listing_def by (metis list.set_intros(1) map_of_eq_None_iff dkeys_eq_set option.exhaust place.exhaust option.distinct(1) option.inject place.distinct(1))
  define t where "t = u\<lparr>places := dset r (Region (d\<lparr>pid_file := Some []\<rparr>)) (places u)\<rparr>"
  have "xact_run h False r cmd u = (Inl (OSError ''xactserver''), t)" for cmd
    by (simp add: xact_run_def d assms(2) Let_def t_def)
  then have "start_all_regions h supp sargs s = (Inl (OSError ''xactserver''), t)"
    using u(1) assms(5-8) by (simp add: start_all_regions_def assms(4) then_do_def)
  moreover have "get_regions t = Inr (r # rs)"
  proof -
    have "wf_dict (places u)" using u(2) by (simp add: same_listing_def)
    from same_listing_regions [OF same_listing_dset [OF this d] this] same_listing_regions [OF u(2) assms(3)] assms(4)
    show ?thesis by (simp add: t_def)
  qed
  moreover have "xact_stop h False r t = (Inl (ValueError ''invalid literal for int()''), t)"
  proof -
    have "int_of_str [] = None" by code_simp
    then show ?thesis by (simp add: xact_stop_def t_def)
  qed
  ultimately show ?thesis
    using assms(9-11) calls by (intro exI [of _ t]) (simp add: stop_all_regions_def destroy_command_def then_do_def t_def)
qed

lemma failed_start_blocks_stop_witness:
  "\<exists>e t. stop_all_regions (good_host (\<lambda>c d. None)) (ctl_args_of []) t = (Inl (ValueError ''invalid literal for int()''), t) \<and>
     start_all_regions (good_host (\<lambda>c d. None)) [] sample_start \<lparr>data_dir_exists = True, places = [(''r0'', Region e)], calls = []\<rparr> =
       (Inl (OSError ''xactserver''), t)"
proof -
  let ?h = "good_host (\<lambda>c d. None)" and ?e = "\<lparr>neon = None, pid_file = None\<rparr> :: region"
  let ?s = "\<lparr>data_dir_exists = True, places = [(''r0'', Region ?e)], calls = []\<rparr>"
  obtain b c c' where b: "get_neon ?h sample_start = Inr b" "get_xactserver ?h sample_start = Inr c" "get_xactserver ?h (ctl_args_of []) = Inr c'"
    using found_binaries by metis
  have "works ?h" "wf_dict (places ?s)" "get_regions ?s = Inr [''r0'']" "\<not> dry (ctl_args_of [])" "\<not> no_xactserver (ctl_args_of [])"
    by (simp_all add: works_def good_neon_def wf_dict_def get_regions_def region_list_def ctl_args_of_def flag_of_def)
  from failed_start_blocks_stop [OF this(1) _ this(2,3) _ _ b(1,2) this(4,5) b(3), of "[]"] show ?thesis
    by (elim meta_impE exE conjE) (simp_all, blast)
qed

section \<open>Destroying\<close>

lemma keeps_it_reading [keeping]: "(\<And>a. keeps_it P (k a)) \<Longrightarrow> keeps_it P (\<lambda>s. with_value (v s) k s)"
  by (auto simp: keeps_it_def with_value_def split: sum.splits)

lemma remove_all:
  "do_all (map (remove_region h False) rs) s = (Inr (), t) \<Longrightarrow>
   t = s\<lparr>places := filter (\<lambda>(n, p). n \<notin> set rs) (places s)\<rparr>"
proof (induction rs arbitrary: s)
  case (Cons r rs)
  then obtain u where u: "remove_region h False r s = (Inr (), u)" "do_all (map (remove_region h False) rs) u = (Inr (), t)"
    by (auto simp: then_do_Inr)
  from u(1) have "u = s\<lparr>places := filter (\<lambda>(n, p). n \<noteq> r) (places s)\<rparr>"
    by (auto simp: remove_region_def split: option.splits)
  moreover have "filter (\<lambda>(n, p). n \<notin> set rs) (filter (\<lambda>(n, p). n \<noteq> r) l) = filter (\<lambda>(n, p). n \<notin> set (r # rs)) l"
    for l :: "(string, place) dict" by (auto simp: intro!: filter_cong)
  ultimately show ?case using Cons.IH [OF u(2)] by simp
qed simp

lemma remove_all_allowed:
  "do_all (map (remove_region h False) rs) s = (Inr (), t) \<Longrightarrow> \<forall>r \<in> set rs. remove_error h r = None"
  by (induction rs arbitrary: s) (auto simp: then_do_Inr remove_region_def split: option.splits)

lemma listing_steps:
  "keeps_it (same_listing s0) (neon_run h dr r cmd check)" "keeps_it (same_listing s0) (xact_stop h dr r)"
proof -
  have step: "same_listing s0 (s\<lparr>places := dset r (Region d') (places s), calls := c\<rparr>)"
    if "same_listing s0 s" "dget (places s) r = Some (Region d)" for s c d d'
    using that by (simp add: same_listing_def dset_present) (metis option.inject place.distinct(1))
  show "keeps_it (same_listing s0) (neon_run h dr r cmd check)"
    unfolding keeps_it_def neon_run_def by (auto intro: step split: option.splits place.splits)
  show "keeps_it (same_listing s0) (xact_stop h dr r)"
    unfolding keeps_it_def xact_stop_def
    by (auto simp: same_listing_def split: option.splits place.splits)
qed

lemma stop_keeps_listing: "keeps_it (same_listing s0) (stop_all_regions h args)"
  unfolding stop_all_regions_def [abs_def] by (auto intro!: keeping listing_steps)

text \<open>After a \<^verbatim>\<open>destroy\<close> that ends normally the data directory holds only the plain files it held: all
  directories in it are removed, the ones that are no region too. When the transaction servers or a
  removal fail, \<^verbatim>\<open>destroy\<close> does not end normally.\<close>

theorem destroy_removes_directories:
  assumes "destroy_command h args s = (Inr (), t)" and "\<not> dry args" and "wf_dict (places s)"
  shows "(\<forall>n. dget (places t) n = (if dget (places s) n = Some Plain_file then Some Plain_file else None)) \<and>
    (\<exists>u. stop_all_regions h args s = (Inr (), u) \<and> calls t = calls u \<and> (\<forall>r \<in> set (region_list s). remove_error h r = None))"
proof -
  from assms(1,2) obtain u rs where u: "stop_all_regions h args s = (Inr (), u)" "get_regions u = Inr rs"
    "do_all (map (remove_region h False) rs) u = (Inr (), t)"
    by (auto simp: destroy_command_def then_do_Inr with_value_Inr)
  have "same_listing s s" using assms(3) by (simp add: same_listing_def)
  from keeps_itD [OF stop_keeps_listing this u(1)] have l: "same_listing s u" .
  then have wf: "wf_dict (places u)" and plain: "dget (places u) n = Some Plain_file \<longleftrightarrow> dget (places s) n = Some Plain_file" for n
    by (simp_all add: same_listing_def)
  have regions: "get_regions u = get_regions s" using l assms(3) by (rule same_listing_regions)
  then have rs: "rs = region_list u" "rs = region_list s" using u(2) by (auto simp: get_regions_def split: if_splits)
  have t: "places t = filter (\<lambda>(n, p). n \<notin> set rs) (places u)" "calls t = calls u"
    using remove_all [OF u(3)] by simp_all
  have in_rs: "n \<in> set rs \<longleftrightarrow> (\<exists>d. dget (places u) n = Some (Region d))" for n
  proof -
    have "n \<in> set rs \<longleftrightarrow> n \<in> fst ` set (places u) \<and> dget (places u) n \<noteq> Some Plain_file"
      by (auto simp: rs(1) region_list_by_name [OF wf])
    moreover have "n \<in> fst ` set (places u) \<longleftrightarrow> dget (places u) n \<noteq> None" by (simp add: map_of_eq_None_iff)
    ultimately show ?thesis by (cases "dget (places u) n") (simp_all, metis place.exhaust place.distinct(1))
  qed
  have "dget (filter (\<lambda>(n, p). n \<notin> set rs) l) n = (if n \<in> set rs then None else dget l n)" for l :: "(string, place) dict" and n
    by (induction l) auto
  then have "dget (places t) n = (if dget (places s) n = Some Plain_file then Some Plain_file else None)" for n
    unfolding t plain [symmetric] in_rs
    by (cases "dget (places u) n") (auto, metis place.exhaust)
  moreover have "\<forall>r \<in> set rs. remove_error h r = None"
    using u(3) by (rule remove_all_allowed)
  ultimately show ?thesis using u(1) t(2) rs(2) by blast
qed

lemma destroy_removes_directories_witness:
  "\<exists>t. destroy_command (good_host (\<lambda>c d. Some 7)) (ctl_args_of [])
      \<lparr>data_dir_exists = True, places = [(''notes'', Plain_file), (''old'', Region \<lparr>neon = None, pid_file = None\<rparr>)], calls = []\<rparr> =
      (Inr (), t) \<and> dget (places t) ''notes'' = Some Plain_file \<and> dget (places t) ''old'' = None"
proof -
  let ?h = "good_host (\<lambda>c d. Some 7)" and ?a = "ctl_args_of []"
  let ?s = "\<lparr>data_dir_exists = True, places = [(''notes'', Plain_file), (''old'', Region \<lparr>neon = None, pid_file = None\<rparr>)], calls = []\<rparr>"
  obtain b c where b: "get_neon ?h ?a = Inr b" "get_xactserver ?h ?a = Inr c" using found_binaries by metis
  have a: "\<not> dry ?a" "\<not> no_xactserver ?a" by (simp_all add: ctl_args_of_def flag_of_def)
  have r: "remove_error ?h q = None" for q by (simp add: good_host_def)
  have "\<exists>t. destroy_command ?h ?a ?s = (Inr (), t)"
    by (simp add: destroy_command_def stop_all_regions_def get_regions_def region_list_def b a r then_do_def
        xact_stop_def neon_run_def good_neon_def remove_region_def)
  then obtain t where t: "destroy_command ?h ?a ?s = (Inr (), t)" ..
  have "wf_dict (places ?s)" by (simp add: wf_dict_def)
  from destroy_removes_directories [OF t a(1) this] t show ?thesis by simp
qed

section \<open>Dry runs\<close>

lemma dry_steps [keeping]:
  "keeps_it P (neon_run h True r cmd check)" "keeps_it P (xact_run h True r cmd)" "keeps_it P (xact_stop h True r)"
  "keeps_it P (make_dir True r)" "keeps_it P (clone_region True g r i)" "keeps_it P (remove_region h True r)"
  by (simp_all add: keeps_it_def neon_run_def xact_run_def xact_stop_def make_dir_def clone_region_def remove_region_def)

lemma dry_stop [keeping]: "dry args \<Longrightarrow> keeps_it P (stop_all_regions h args)"
  unfolding stop_all_regions_def [abs_def] by (auto intro!: keeping)

lemma dry_start [keeping]: "dry args \<Longrightarrow> keeps_it P (start_all_regions h supp args)"
  unfolding start_all_regions_def [abs_def] by (auto intro!: keeping)

lemma dry_destroy [keeping]: "dry args \<Longrightarrow> keeps_it P (destroy_command h args)"
  unfolding destroy_command_def
  by (auto intro!: keeping)

lemma dry_create [keeping]: "dry args \<Longrightarrow> keeps_it P (create_command h args)"
  unfolding create_command_def by (auto intro!: keeping split: list.split)

text \<open>A dry run changes nothing and calls nothing, whatever the command and its other arguments are.\<close>

theorem ctl_dry_run:
  assumes "parse_command main_parser subcommands argv = Parsed (c, ns)" and "flag_of ns ''dry_run''"
  shows "neonctl_main h supp argv = Parsed (the (text_of ns ''data_dir''), neonctl_run h supp c ns) \<and> snd (neonctl_run h supp c ns s) = s"
proof -
  have d: "dry (ctl_args_of ns)" "dry (create_args_of ns)" "dry (start_args_of ns)"
    using assms(2) by (simp_all add: ctl_args_of_def create_args_of_def start_args_of_def ctl_args.defs create_args.defs start_args.defs)
  have "keeps_it (\<lambda>t. t = s) (neonctl_run h supp c ns)"
    unfolding neonctl_run_def
    by (auto intro!: d keeping)
  then have "snd (neonctl_run h supp c ns s) = s" by (simp add: keeps_it_def)
  with assms(1) show ?thesis by (simp add: neonctl_main_def)
qed

lemma ctl_dry_run_witness:
  "\<exists>c ns. parse_command main_parser subcommands [''destroy'', ''--dry-run'', ''d''] = Parsed (c, ns) \<and>
     snd (neonctl_run (good_host (\<lambda>c d. None)) [] c ns no_cluster) = no_cluster"
proof -
  have "(case parse_command main_parser subcommands [''destroy'', ''--dry-run'', ''d''] of
      Parsed (c, ns) \<Rightarrow> flag_of ns ''dry_run'' | _ \<Rightarrow> False)" by code_simp
  then obtain c ns where p: "parse_command main_parser subcommands [''destroy'', ''--dry-run'', ''d''] = Parsed (c, ns)" "flag_of ns ''dry_run''"
    by (auto split: parsed.splits)
  from ctl_dry_run [OF this, of "good_host (\<lambda>c d. None)" "[]" no_cluster] p(1) show ?thesis by blast
qed

end
