(* ===== verification/Collector.thy ===== *)
theory Collector
  imports Py_Prelude
begin

text \<open>
  \<^verbatim>\<open>ResultCollector\<close> of \<^verbatim>\<open>tools/experiment.py\<close>: collections run on a thread pool, submit the regions
  of their benchmark to the same pool and wait for them; \<^verbatim>\<open>join\<close> waits for a counter of
  collections to become zero and shuts the pool down. The state is the main thread's place, the
  queue and the workers of the pool, and the counter; every atomic action of a thread is a step.
  MinIO is a parameter. A worker that has nothing to do may take the first task of the queue.
\<close>

section \<open>Collecting one region\<close>

text \<open>
  What the server says to the listing of the regions of a tag; the objects of a region, with the
  exception the listing may end with; and what saving one object raises.
\<close>

record minio =
  list_regions :: "string \<Rightarrow> string list res"
  list_objects :: "string \<Rightarrow> string list \<times> exn option"
  fget_object :: "string \<Rightarrow> exn option"

fun fetch_objects :: "minio \<Rightarrow> string list \<Rightarrow> exn option \<Rightarrow> string list \<times> exn option" where
  "fetch_objects m [] e = ([], e)"
| "fetch_objects m (ob # obs) e = (case fget_object m ob of
     Some x \<Rightarrow> ([], Some x)
   | None \<Rightarrow> (case fetch_objects m obs e of (fs, x) \<Rightarrow> (ob # fs, x)))"

definition collect_region :: "minio \<Rightarrow> string \<Rightarrow> string list \<times> exn option" where
  "collect_region m region = (case list_objects m region of (obs, e) \<Rightarrow> fetch_objects m obs e)"

lemma fetch_objects_complete: "fetch_objects m obs e = (fs, None) \<Longrightarrow> fs = obs \<and> e = None"
  by (induction obs arbitrary: fs) (auto split: option.splits prod.splits)

section \<open>The pool, the counter and the main thread\<close>

text \<open>Collections are numbered in the order of their submission, the regions of one by their place in the listing.\<close>

datatype work = Collect nat | Fetch nat nat string

datatype worker =
    Idle
  | Counting nat
  | Listing nat
  | Mapping nat "string list" nat
  | Gathering nat nat nat
  | Finishing nat
  | Fetching nat nat string

datatype main_place = Submitting nat | Joining | Closing | Gone

datatype collected = Saved | Lost exn

record collector =
  main_at :: main_place
  queue :: "work list"
  crew :: "worker list"
  in_progress :: int
  fetched :: "nat \<times> nat \<Rightarrow> exn option option"
  files :: "string list"
  ended :: "(nat \<times> collected) list"

definition new_collector :: "nat \<Rightarrow> collector" where
  "new_collector n = \<lparr>main_at = Submitting 0, queue = [], crew = replicate n Idle, in_progress = 0,
     fetched = (\<lambda>_. None), files = [], ended = []\<rparr>"

definition closed :: "collector \<Rightarrow> bool" where
  "closed s \<longleftrightarrow> main_at s = Closing \<or> main_at s = Gone"

definition after_shutdown :: exn where
  "after_shutdown = RuntimeError ''cannot schedule new futures after shutdown''"

fun start_work :: "work \<Rightarrow> worker" where
  "start_work (Collect j) = Counting j"
| "start_work (Fetch j k r) = Fetching j k r"

fun part_of :: "nat \<Rightarrow> work \<Rightarrow> bool" where
  "part_of j (Fetch i k r) = (i = j)"
| "part_of j _ = False"

text \<open>
  The next action of a worker, in the order of \<^verbatim>\<open>_collect\<close>; \<open>None\<close> when it has to wait. The clause
  \<^verbatim>\<open>except Exception\<close> ends a collection without touching the counter; a failing \<^verbatim>\<open>map\<close> cancels what is
  still queued.
\<close>

fun advance :: "minio \<Rightarrow> string list \<Rightarrow> collector \<Rightarrow> worker \<Rightarrow> (collector \<times> worker) option" where
  "advance m ts s Idle = (case queue s of [] \<Rightarrow> None | w # q \<Rightarrow> Some (s\<lparr>queue := q\<rparr>, start_work w))"
| "advance m ts s (Counting j) = Some (s\<lparr>in_progress := in_progress s + 1\<rparr>, Listing j)"
| "advance m ts s (Listing j) = (case list_regions m (ts ! j) of
     Inl e \<Rightarrow> Some (s\<lparr>ended := ended s @ [(j, Lost e)]\<rparr>, Idle)
   | Inr rs \<Rightarrow> Some (s, Mapping j rs 0))"
| "advance m ts s (Mapping j rs k) =
     (if length rs \<le> k then Some (s, Gathering j (length rs) 0)
      else if closed s then Some (s\<lparr>ended := ended s @ [(j, Lost after_shutdown)]\<rparr>, Idle)
      else Some (s\<lparr>queue := queue s @ [Fetch j k (rs ! k)]\<rparr>, Mapping j rs (Suc k)))"
| "advance m ts s (Gathering j n k) =
     (if n \<le> k then Some (s, Finishing j)
      else case fetched s (j, k) of
        None \<Rightarrow> None
      | Some None \<Rightarrow> Some (s, Gathering j n (Suc k))
      | Some (Some e) \<Rightarrow> Some (s\<lparr>queue := filter (\<lambda>w. \<not> part_of j w) (queue s), ended := ended s @ [(j, Lost e)]\<rparr>, Idle))"
| "advance m ts s (Finishing j) = Some (s\<lparr>in_progress := in_progress s - 1, ended := ended s @ [(j, Saved)]\<rparr>, Idle)"
| "advance m ts s (Fetching j k r) = (case collect_region m r of
     (fs, x) \<Rightarrow> Some (s\<lparr>files := files s @ fs, fetched := (fetched s)((j, k) := Some x)\<rparr>, Idle))"

text \<open>
  The main thread submits one tag after every benchmark, joins, and leaves \<^verbatim>\<open>shutdown\<close> when the pool
  has nothing more to do.
\<close>

inductive collector_step :: "minio \<Rightarrow> string list \<Rightarrow> collector \<Rightarrow> collector \<Rightarrow> bool" for m ts where
  submit: "main_at s = Submitting i \<Longrightarrow> i < length ts \<Longrightarrow>
    collector_step m ts s (s\<lparr>main_at := Submitting (Suc i), queue := queue s @ [Collect i]\<rparr>)"
| join: "main_at s = Submitting (length ts) \<Longrightarrow> collector_step m ts s (s\<lparr>main_at := Joining\<rparr>)"
| close: "main_at s = Joining \<Longrightarrow> in_progress s \<le> 0 \<Longrightarrow> collector_step m ts s (s\<lparr>main_at := Closing\<rparr>)"
| leave: "main_at s = Closing \<Longrightarrow> queue s = [] \<Longrightarrow> \<forall>w \<in> set (crew s). w = Idle \<Longrightarrow>
    collector_step m ts s (s\<lparr>main_at := Gone\<rparr>)"
| work: "i < length (crew s) \<Longrightarrow> advance m ts s (crew s ! i) = Some (t, w) \<Longrightarrow>
    collector_step m ts s (t\<lparr>crew := (crew s)[i := w]\<rparr>)"

inductive_cases collector_stepE: "collector_step m ts s t"

abbreviation collector_steps :: "minio \<Rightarrow> string list \<Rightarrow> collector \<Rightarrow> collector \<Rightarrow> bool" where
  "collector_steps m ts \<equiv> (collector_step m ts)\<^sup>*\<^sup>*"

section \<open>The counter\<close>

fun counted :: "worker \<Rightarrow> bool" where
  "counted (Listing j) = True"
| "counted (Mapping j rs k) = True"
| "counted (Gathering j n k) = True"
| "counted (Finishing j) = True"
| "counted _ = False"

definition lost :: "collector \<Rightarrow> (nat \<times> collected) list" where
  "lost s = filter (\<lambda>x. snd x \<noteq> Saved) (ended s)"

text \<open>The counter counts the collections at work and the ones that were lost.\<close>

definition counter_right :: "collector \<Rightarrow> bool" where
  "counter_right s \<longleftrightarrow> in_progress s = int (length (filter counted (crew s))) + int (length (lost s))"

lemma counter_step: "collector_step m ts s t \<Longrightarrow> counter_right s \<Longrightarrow> counter_right t"
proof (erule collector_stepE)
  fix i u w
  assume i: "i < length (crew s)" and a: "advance m ts s (crew s ! i) = Some (u, w)" and t: "t = u\<lparr>crew := (crew s)[i := w]\<rparr>"
    and c: "counter_right s"
  have n: "int (length (filter counted ((crew s)[i := w]))) + (if counted (crew s ! i) then 1 else 0) =
      int (length (filter counted (crew s))) + (if counted w then 1 else 0)"
    using filter_update_length [OF i, of counted w] by (simp split: if_splits)
  show ?thesis
  proof (cases "crew s ! i")
    case Idle
    then obtain x q where "queue s = x # q" "u = s\<lparr>queue := q\<rparr>" "w = start_work x"
      using a by (auto split: list.splits)
    with n c t Idle show ?thesis by (cases x) (simp_all add: counter_right_def lost_def)
  qed (use a n c t in \<open>auto simp: counter_right_def lost_def split: sum.splits if_splits option.splits prod.splits\<close>)
qed (auto simp: counter_right_def lost_def)

lemma counter_reachable: "collector_steps m ts (new_collector n) s \<Longrightarrow> counter_right s"
proof (induction rule: rtranclp_induct)
  case base
  show ?case by (simp add: counter_right_def new_collector_def lost_def filter_empty_conv)
qed (rule counter_step)

lemma ended_grows: "collector_step m ts s t \<Longrightarrow> set (ended s) \<subseteq> set (ended t)"
proof (erule collector_stepE)
  fix i u w
  assume "advance m ts s (crew s ! i) = Some (u, w)" "t = u\<lparr>crew := (crew s)[i := w]\<rparr>"
  then show "set (ended s) \<subseteq> set (ended t)"
    by (cases "crew s ! i") (auto split: list.splits sum.splits if_splits option.splits prod.splits)
qed auto

lemma lost_in: "(j, Lost e) \<in> set (ended s) \<Longrightarrow> lost s \<noteq> []"
  by (force simp: lost_def filter_empty_conv)

text \<open>C29 A collection that fails while the pool is open blocks \<^verbatim>\<open>join\<close> for ever: the counter keeps the failed
  collection, so the main thread never leaves its wait, whatever else happens.\<close>

theorem failure_blocks_join:
  assumes "collector_steps m ts (new_collector n) s" and "(j, Lost e) \<in> set (ended s)" and "\<not> closed s"
    and "collector_steps m ts s t"
  shows "\<not> closed t \<and> 1 \<le> in_progress t"
proof -
  have "\<not> closed t \<and> (j, Lost e) \<in> set (ended t) \<and> counter_right t"
    using assms(4)
  proof (induction rule: rtranclp_induct)
    case base
    with assms(1-3) counter_reachable show ?case by blast
  next
    case (step t u)
    then have c: "counter_right u" and e: "(j, Lost e) \<in> set (ended u)" using counter_step ended_grows by blast+
    have "lost t \<noteq> []" using step(3) lost_in by blast
    then have pos: "1 \<le> in_progress t" using step(3) by (cases "lost t") (auto simp: counter_right_def)
    from step(2) have "\<not> closed u"
    proof cases
      case (work i v w)
      have "main_at v = main_at t"
        using work(3) by (cases "crew t ! i") (auto split: list.splits sum.splits if_splits option.splits prod.splits)
      with work(1) step(3) show ?thesis by (simp add: closed_def)
    qed (use step(3) pos in \<open>auto simp: closed_def\<close>)
    with c e show ?case by blast
  qed
  moreover from this have "lost t \<noteq> []" using lost_in by blast
  then have "1 \<le> int (length (lost t))" by (cases "lost t") auto
  ultimately show ?thesis by (auto simp: counter_right_def)
qed

section \<open>What a saved collection means\<close>

definition region_saved :: "minio \<Rightarrow> collector \<Rightarrow> string \<Rightarrow> bool" where
  "region_saved m s r \<longleftrightarrow> (\<exists>obs. list_objects m r = (obs, None) \<and> set obs \<subseteq> set (files s))"

definition part :: "minio \<Rightarrow> string list \<Rightarrow> nat \<Rightarrow> nat \<Rightarrow> string \<Rightarrow> bool" where
  "part m ts j k r \<longleftrightarrow> (\<exists>rs. list_regions m (ts ! j) = Inr rs \<and> k < length rs \<and> rs ! k = r)"

fun work_ok :: "minio \<Rightarrow> string list \<Rightarrow> work \<Rightarrow> bool" where
  "work_ok m ts (Collect j) = True"
| "work_ok m ts (Fetch j k r) = part m ts j k r"

definition gathered :: "minio \<Rightarrow> string list \<Rightarrow> collector \<Rightarrow> nat \<Rightarrow> nat \<Rightarrow> nat \<Rightarrow> bool" where
  "gathered m ts s j n k \<longleftrightarrow> (\<exists>rs. list_regions m (ts ! j) = Inr rs \<and> n = length rs \<and> (\<forall>i < k. i < n \<longrightarrow> region_saved m s (rs ! i)))"

fun worker_ok :: "minio \<Rightarrow> string list \<Rightarrow> collector \<Rightarrow> worker \<Rightarrow> bool" where
  "worker_ok m ts s (Mapping j rs k) \<longleftrightarrow> list_regions m (ts ! j) = Inr rs"
| "worker_ok m ts s (Gathering j n k) \<longleftrightarrow> gathered m ts s j n k"
| "worker_ok m ts s (Finishing j) \<longleftrightarrow> (\<exists>n. gathered m ts s j n n)"
| "worker_ok m ts s (Fetching j k r) \<longleftrightarrow> part m ts j k r"
| "worker_ok m ts s _ \<longleftrightarrow> True"

definition sound :: "minio \<Rightarrow> string list \<Rightarrow> collector \<Rightarrow> bool" where
  "sound m ts s \<longleftrightarrow> (\<forall>w \<in> set (queue s). work_ok m ts w) \<and> (\<forall>w \<in> set (crew s). worker_ok m ts s w) \<and>
     (\<forall>j k. fetched s (j, k) = Some None \<longrightarrow> (\<exists>r. part m ts j k r \<and> region_saved m s r)) \<and>
     (\<forall>j. (j, Saved) \<in> set (ended s) \<longrightarrow> (\<exists>n. gathered m ts s j n n))"

lemma gathered_mono: "gathered m ts s j n k \<Longrightarrow> set (files s) \<subseteq> set (files t) \<Longrightarrow> gathered m ts t j n k"
  unfolding gathered_def region_saved_def by (metis order_trans)

lemma gathered_all: "gathered m ts s j n k \<Longrightarrow> n \<le> k \<Longrightarrow> gathered m ts s j n n"
  unfolding gathered_def by (elim exE conjE) (rule exI, auto)

lemma worker_ok_mono: "worker_ok m ts s w \<Longrightarrow> set (files s) \<subseteq> set (files t) \<Longrightarrow> worker_ok m ts t w"
  by (cases w) (auto intro: gathered_mono)

lemma region_saved_mono: "region_saved m s r \<Longrightarrow> set (files s) \<subseteq> set (files t) \<Longrightarrow> region_saved m t r"
  unfolding region_saved_def by (metis order_trans)

lemma collected_saved: "collect_region m r = (fs, None) \<Longrightarrow> set fs \<subseteq> set (files s) \<Longrightarrow> region_saved m s r"
  by (auto simp: collect_region_def region_saved_def split: prod.splits dest: fetch_objects_complete)

lemma advance_sound:
  assumes "sound m ts s" and "i < length (crew s)" and "advance m ts s (crew s ! i) = Some (t, w)"
  shows "sound m ts (t\<lparr>crew := (crew s)[i := w]\<rparr>)"
proof -
  have files: "set (files s) \<subseteq> set (files t)"
    using assms(3) by (cases "crew s ! i") (auto split: list.splits sum.splits if_splits option.splits prod.splits)
  define u where "u = t\<lparr>crew := (crew s)[i := w]\<rparr>"
  have fu: "set (files s) \<subseteq> set (files u)" using files by (simp add: u_def)
  have me: "worker_ok m ts s (crew s ! i)" using assms(1,2) by (simp add: sound_def)
  have g: "gathered m ts s j n k \<Longrightarrow> gathered m ts u j n k" for j n k using fu by (rule gathered_mono [rotated])
  have r: "region_saved m s q \<Longrightarrow> region_saved m u q" for q using fu by (rule region_saved_mono [rotated])
  have old: "\<forall>x \<in> set (queue s). work_ok m ts x" "\<And>j k. fetched s (j, k) = Some None \<Longrightarrow> \<exists>r. part m ts j k r \<and> region_saved m u r"
    "\<And>j. (j, Saved) \<in> set (ended s) \<Longrightarrow> \<exists>n. gathered m ts u j n n"
    using assms(1) g r unfolding sound_def by blast+
  have new: "sound m ts u" if "\<forall>x \<in> set (queue t). work_ok m ts x" "worker_ok m ts u w"
    "\<And>j k. fetched t (j, k) = Some None \<Longrightarrow> \<exists>r. part m ts j k r \<and> region_saved m u r"
    "\<And>j. (j, Saved) \<in> set (ended t) \<Longrightarrow> \<exists>n. gathered m ts u j n n"
  proof -
    have "worker_ok m ts u v" if "v \<in> set (crew u)" for v
    proof -
      from that consider "v = w" | "v \<in> set (crew s)" unfolding u_def using set_update_subset_insert by fastforce
      then show ?thesis
        using \<open>worker_ok m ts u w\<close> assms(1) worker_ok_mono [OF _ fu] by cases (auto simp: sound_def)
    qed
    moreover have "queue u = queue t" "fetched u = fetched t" "ended u = ended t" by (simp_all add: u_def)
    ultimately show ?thesis using that unfolding sound_def by simp
  qed
  have plain: "sound m ts u" if "\<forall>x \<in> set (queue t). work_ok m ts x" "worker_ok m ts u w" "fetched t = fetched s"
    "\<And>j. (j, Saved) \<in> set (ended t) \<Longrightarrow> (j, Saved) \<in> set (ended s)"
    proof (rule new [OF that(1,2)])
    fix j k
    assume "fetched t (j, k) = Some None"
    then show "\<exists>r. part m ts j k r \<and> region_saved m u r" unfolding that(3) by (rule old(2))
  qed (rule old(3), rule that(4))
  have "sound m ts u"
  proof (cases "crew s ! i")
    case Idle
    then obtain x q where x: "queue s = x # q" "t = s\<lparr>queue := q\<rparr>" "w = start_work x"
      using assms(3) by (auto split: list.splits)
    have "work_ok m ts x" using old(1) x(1) by simp
    then have "worker_ok m ts u w" unfolding x(3) by (cases x) simp_all
    moreover have "\<forall>y \<in> set (queue t). work_ok m ts y" using old(1) by (simp add: x)
    moreover have "fetched t = fetched s" "ended t = ended s" by (simp_all add: x)
    ultimately show ?thesis by (intro plain) simp_all
  next
    case (Gathering j n k)
    show ?thesis
    proof (cases "n \<le> k")
      case True
      have "gathered m ts u j n k" using me g by (simp add: Gathering)
      then have "gathered m ts u j n n" using True by (rule gathered_all)
      moreover have "w = Finishing j" using True Gathering assms(3) by simp
      ultimately have "worker_ok m ts u w" by (simp only: worker_ok.simps) blast
      moreover have "t = s" using True Gathering assms(3) by simp
      ultimately show ?thesis using old(1) by (intro plain) simp_all
    next
      case False
      with Gathering assms(3) consider (one) "fetched s (j, k) = Some None" "t = s" "w = Gathering j n (Suc k)"
        | (failed) e where "t = s\<lparr>queue := filter (\<lambda>w. \<not> part_of j w) (queue s), ended := ended s @ [(j, Lost e)]\<rparr>" "w = Idle"
        by (auto split: option.splits)
      then show ?thesis
      proof cases
        case one
        have "gathered m ts u j n k" using me g by (simp add: Gathering)
        with old(2) [OF one(1)] have "gathered m ts u j n (Suc k)"
          unfolding gathered_def part_def by (elim exE conjE) (rule exI, auto simp: less_Suc_eq)
        then have "worker_ok m ts u w" by (simp add: one)
        with old(1) one show ?thesis by (intro plain) simp_all
      next
        case failed
        with old(1) show ?thesis by (intro plain) auto
      qed
    qed
  next
    case (Fetching j k q)
    then obtain fs x where f: "collect_region m q = (fs, x)" "t = s\<lparr>files := files s @ fs, fetched := (fetched s)((j, k) := Some x)\<rparr>" "w = Idle"
      using assms(3) by (auto split: prod.splits)
    have "x = None \<Longrightarrow> region_saved m u q" using f(1) collected_saved [of m q fs u] by (simp add: f(2) u_def)
    moreover have "part m ts j k q" using me Fetching by simp
    ultimately have now: "\<exists>r. part m ts j k r \<and> region_saved m u r" if "x = None" using that by blast
    show ?thesis
    proof (rule new)
      fix j' k'
      assume "fetched t (j', k') = Some None"
      then have "(j', k') = (j, k) \<and> x = None \<or> fetched s (j', k') = Some None" by (auto simp: f(2) split: if_splits)
      then show "\<exists>r. part m ts j' k' r \<and> region_saved m u r" using now old(2) by blast
    next
      fix j'
      assume "(j', Saved) \<in> set (ended t)"
      then show "\<exists>n. gathered m ts u j' n n" using old(3) by (simp add: f(2))
    qed (use old(1) f in simp_all)
  next
    case (Mapping j rs k)
    show ?thesis
    proof (rule plain)
      show "worker_ok m ts u w" using me Mapping assms(3) by (auto simp: gathered_def split: if_splits)
      show "\<forall>x \<in> set (queue t). work_ok m ts x" using old(1) me Mapping assms(3) by (auto simp: part_def split: if_splits)
    qed (use Mapping assms(3) in \<open>auto split: if_splits\<close>)
  next
    case (Finishing j)
    with me g obtain n where "gathered m ts u j n n" by auto
    moreover have "t = s\<lparr>in_progress := in_progress s - 1, ended := ended s @ [(j, Saved)]\<rparr>" "w = Idle"
      using Finishing assms(3) by auto
    ultimately have w: "\<exists>n. gathered m ts u j n n" "t = s\<lparr>in_progress := in_progress s - 1, ended := ended s @ [(j, Saved)]\<rparr>" "w = Idle"
      by blast+
    show ?thesis
    proof (rule new)
      fix j'
      assume "(j', Saved) \<in> set (ended t)"
      then have "j' = j \<or> (j', Saved) \<in> set (ended s)" by (auto simp: w)
      then show "\<exists>n. gathered m ts u j' n n" using old(3) w(1) by blast
    next
      fix j' k'
      assume "fetched t (j', k') = Some None"
      then have "fetched s (j', k') = Some None" by (simp add: w)
      then show "\<exists>r. part m ts j' k' r \<and> region_saved m u r" by (rule old(2))
    qed (use old(1) w in simp_all)
  next
    case (Listing j)
    then show ?thesis using old(1) assms(3) by (intro plain) (auto split: sum.splits)
  next
    case (Counting j)
    then show ?thesis using old(1) assms(3) by (intro plain) auto
  qed
  then show ?thesis by (simp add: u_def)
qed

lemma sound_reachable: "collector_steps m ts (new_collector n) s \<Longrightarrow> sound m ts s"
proof (induction rule: rtranclp_induct)
  case base
  show ?case by (auto simp: sound_def new_collector_def)
next
  case (step s t)
  from step(2) show ?case
  proof cases
    case (work i u w)
    with advance_sound [OF step(3) work(2,3)] show ?thesis by simp
  qed (use step(3) worker_ok_mono gathered_mono region_saved_mono in \<open>auto simp: sound_def gathered_def region_saved_def\<close>)
qed

text \<open>C30 A collection that ends as saved has all objects of all regions of its tag among the files, and no listing and no
  download of it failed.\<close>

theorem saved_is_complete:
  assumes "collector_steps m ts (new_collector n) s" and "(j, Saved) \<in> set (ended s)"
  shows "\<exists>rs. list_regions m (ts ! j) = Inr rs \<and>
    (\<forall>r \<in> set rs. \<exists>obs. list_objects m r = (obs, None) \<and> set obs \<subseteq> set (files s))"
proof -
  from sound_reachable [OF assms(1)] assms(2) obtain n where "gathered m ts s j n n" unfolding sound_def by blast
  then obtain rs where rs: "list_regions m (ts ! j) = Inr rs" "\<And>i. i < length rs \<Longrightarrow> region_saved m s (rs ! i)"
    unfolding gathered_def by auto
  then have "region_saved m s r" if "r \<in> set rs" for r using that by (auto simp: in_set_conv_nth)
  with rs(1) show ?thesis unfolding region_saved_def by blast
qed

end
