(* ===== verification/Collector_Runs.thy ===== *)
theory Collector_Runs
  imports Collector
begin

text \<open>
  Runs of \<^verbatim>\<open>ResultCollector\<close>: a collection that is lost without an error, the deadlock of the nested use of
  the pool, and the proof that the collector ends when the pool is large enough and nothing fails.
\<close>

section \<open>Runs of the collector\<close>

lemma step_first: "crew s = v # ws \<Longrightarrow> advance m ts s v = Some (t, w) \<Longrightarrow> collector_step m ts s (t\<lparr>crew := w # ws\<rparr>)"
  using work [of 0 s m ts t w] by simp

lemma step_at: "crew s = us @ v # ws \<Longrightarrow> advance m ts s v = Some (t, w) \<Longrightarrow> collector_step m ts s (t\<lparr>crew := us @ w # ws\<rparr>)"
  using work [of "length us" s m ts t w] by simp

lemma rtranclp_into: "r s t \<Longrightarrow> r\<^sup>*\<^sup>* t u \<Longrightarrow> r\<^sup>*\<^sup>* s u"
  by (rule converse_rtranclp_into_rtranclp)

definition submitted :: "nat \<Rightarrow> nat \<Rightarrow> collector" where
  "submitted n i = (new_collector n)\<lparr>main_at := Submitting i, queue := map Collect [0 ..< i]\<rparr>"

lemma all_submitted: "i \<le> length ts \<Longrightarrow> collector_steps m ts (new_collector n) (submitted n i)"
proof (induction i)
  case 0
  have "submitted n 0 = new_collector n" by (simp add: submitted_def new_collector_def)
  then show ?case by simp
next
  case (Suc i)
  have "collector_step m ts (submitted n i) (submitted n (Suc i))"
    using submit [of "submitted n i" i ts m] Suc.prems by (simp add: submitted_def)
  with Suc show ?case by (meson Suc_leD rtranclp.rtrancl_into_rtrancl)
qed

text \<open>The last result can be lost although nothing fails: \<^verbatim>\<open>join\<close> does not count a collection that no worker has
  started yet, so it shuts the pool down at once and the collection cannot submit its regions any more. The main
  thread leaves normally without a file.\<close>

theorem last_result_lost:
  assumes "0 < n" and "list_regions m t = Inr (r # rs)"
  shows "\<exists>s. collector_steps m [t] (new_collector n) s \<and> main_at s = Gone \<and> files s = [] \<and>
    ended s = [(0, Lost (RuntimeError ''cannot schedule new futures after shutdown''))]"
proof -
  let ?step = "collector_step m [t]"
  obtain k where n: "replicate n Idle = Idle # replicate k Idle" using assms(1) by (cases n) auto
  let ?s = "\<lambda>p q w c. \<lparr>main_at = p, queue = q, crew = w # replicate k Idle, in_progress = c, fetched = \<lambda>_. None, files = [], ended = []\<rparr>"
  have "collector_steps m [t] (new_collector n) (?s (Submitting 1) [Collect 0] Idle 0)"
    using all_submitted [of 1 "[t]" m n] by (simp add: submitted_def new_collector_def n)
  also have "?step (?s (Submitting 1) [Collect 0] Idle 0) (?s Joining [Collect 0] Idle 0)"
    using join [of "?s (Submitting 1) [Collect 0] Idle 0" "[t]" m] by simp
  also have "?step (?s Joining [Collect 0] Idle 0) (?s Closing [Collect 0] Idle 0)"
    using close [of "?s Joining [Collect 0] Idle 0" m "[t]"] by simp
  also have "?step (?s Closing [Collect 0] Idle 0) (?s Closing [] (Counting 0) 0)"
    using step_first [of "?s Closing [Collect 0] Idle 0" Idle "replicate k Idle" m "[t]"] by simp
  also have "?step (?s Closing [] (Counting 0) 0) (?s Closing [] (Listing 0) 1)"
    using step_first [of "?s Closing [] (Counting 0) 0" "Counting 0" "replicate k Idle" m "[t]"] by simp
  also have "?step (?s Closing [] (Listing 0) 1) (?s Closing [] (Mapping 0 (r # rs) 0) 1)"
    using step_first [of "?s Closing [] (Listing 0) 1" "Listing 0" "replicate k Idle" m "[t]"] assms(2) by simp
  also have "?step (?s Closing [] (Mapping 0 (r # rs) 0) 1) ((?s Closing [] Idle 1)\<lparr>ended := [(0, Lost after_shutdown)]\<rparr>)"
    using step_first [of "?s Closing [] (Mapping 0 (r # rs) 0) 1" "Mapping 0 (r # rs) 0" "replicate k Idle" m "[t]"]
    by (simp add: closed_def)
  also have "?step ((?s Closing [] Idle 1)\<lparr>ended := [(0, Lost after_shutdown)]\<rparr>) ((?s Gone [] Idle 1)\<lparr>ended := [(0, Lost after_shutdown)]\<rparr>)"
    using leave [of "(?s Closing [] Idle 1)\<lparr>ended := [(0, Lost after_shutdown)]\<rparr>" m "[t]"] by simp
  finally show ?thesis by - (rule exI, erule conjI, simp add: after_shutdown_def)
qed

text \<open>All collections so far wait for their regions, and the first \<open>i\<close> workers run them.\<close>

definition parts_of :: "minio \<Rightarrow> string list \<Rightarrow> nat \<Rightarrow> string list" where
  "parts_of m ts j = (case list_regions m (ts ! j) of Inr rs \<Rightarrow> rs | Inl e \<Rightarrow> [])"

definition fetches :: "minio \<Rightarrow> string list \<Rightarrow> nat \<Rightarrow> nat \<Rightarrow> work list" where
  "fetches m ts j k = map (\<lambda>i. Fetch j i (parts_of m ts j ! i)) [0 ..< k]"

definition waiting :: "minio \<Rightarrow> string list \<Rightarrow> nat \<Rightarrow> nat \<Rightarrow> collector" where
  "waiting m ts n i = (new_collector n)\<lparr>main_at := Joining,
     queue := map Collect [i ..< length ts] @ concat (map (\<lambda>j. fetches m ts j (length (parts_of m ts j))) [0 ..< i]),
     crew := map (\<lambda>j. Gathering j (length (parts_of m ts j)) 0) [0 ..< i] @ replicate (n - i) Idle,
     in_progress := int i\<rparr>"

lemma mapping_run:
  assumes "list_regions m (ts ! j) = Inr rs" and "k \<le> length rs" and "crew s = us @ Mapping j rs 0 # ws" and "\<not> closed s"
  shows "collector_steps m ts s (s\<lparr>queue := queue s @ fetches m ts j k, crew := us @ Mapping j rs k # ws\<rparr>)"
  using assms(2)
proof (induction k)
  case 0
  have "s\<lparr>queue := queue s @ fetches m ts j 0, crew := us @ Mapping j rs 0 # ws\<rparr> = s"
    using assms(3) by (simp add: fetches_def flip: assms(3))
  then show ?case by simp
next
  case (Suc k)
  let ?s = "s\<lparr>queue := queue s @ fetches m ts j k, crew := us @ Mapping j rs k # ws\<rparr>"
  have "collector_step m ts ?s ((?s\<lparr>queue := queue ?s @ [Fetch j k (rs ! k)]\<rparr>)\<lparr>crew := us @ Mapping j rs (Suc k) # ws\<rparr>)"
    by (rule step_at [where v = "Mapping j rs k"]) (use Suc.prems assms(4) in \<open>simp_all add: closed_def\<close>)
  moreover have "(?s\<lparr>queue := queue ?s @ [Fetch j k (rs ! k)]\<rparr>)\<lparr>crew := us @ Mapping j rs (Suc k) # ws\<rparr> =
      s\<lparr>queue := queue s @ fetches m ts j (Suc k), crew := us @ Mapping j rs (Suc k) # ws\<rparr>"
    using assms(1) by (simp add: fetches_def parts_of_def)
  ultimately show ?case using Suc by (metis Suc_leD rtranclp.rtrancl_into_rtrancl)
qed

lemma one_more_waits:
  assumes "i < n" and "i < length ts" and "list_regions m (ts ! i) = Inr rs"
  shows "collector_steps m ts (waiting m ts n i) (waiting m ts n (Suc i))"
proof -
  obtain k where k: "replicate (n - i) Idle = Idle # replicate k Idle" "k = n - Suc i" using assms(1)
    by (cases "n - i") (auto simp: Suc_diff_Suc)
  define us where "us = map (\<lambda>j. Gathering j (length (parts_of m ts j)) 0) [0 ..< i]"
  define q where "q = map Collect [Suc i ..< length ts] @ concat (map (\<lambda>j. fetches m ts j (length (parts_of m ts j))) [0 ..< i])"
  let ?s = "\<lambda>q w c. \<lparr>main_at = Joining, queue = q, crew = us @ w # replicate k Idle, in_progress = c,
    fetched = \<lambda>_. None, files = [], ended = []\<rparr>"
  have rs: "parts_of m ts i = rs" by (simp add: parts_of_def assms(3))
  have "collector_steps m ts (waiting m ts n i) (?s (Collect i # q) Idle (int i))"
    using assms(2) by (simp add: waiting_def new_collector_def k us_def q_def upt_conv_Cons)
  also have "collector_step m ts (?s (Collect i # q) Idle (int i)) (?s q (Counting i) (int i))"
    using step_at [of "?s (Collect i # q) Idle (int i)" us Idle "replicate k Idle" m ts] by simp
  also have "collector_step m ts (?s q (Counting i) (int i)) (?s q (Listing i) (int (Suc i)))"
    using step_at [of "?s q (Counting i) (int i)" us "Counting i" "replicate k Idle" m ts] by (simp add: add.commute)
  also have "collector_step m ts (?s q (Listing i) (int (Suc i))) (?s q (Mapping i rs 0) (int (Suc i)))"
    using step_at [of "?s q (Listing i) (int (Suc i))" us "Listing i" "replicate k Idle" m ts] assms(3) by simp
  also have "collector_steps m ts (?s q (Mapping i rs 0) (int (Suc i)))
      (?s (q @ fetches m ts i (length rs)) (Mapping i rs (length rs)) (int (Suc i)))"
    using mapping_run [OF assms(3) order_refl, of "?s q (Mapping i rs 0) (int (Suc i))" us "replicate k Idle"] by (simp add: closed_def)
  also have "collector_step m ts (?s (q @ fetches m ts i (length rs)) (Mapping i rs (length rs)) (int (Suc i)))
      (?s (q @ fetches m ts i (length rs)) (Gathering i (length rs) 0) (int (Suc i)))"
    using step_at [of "?s (q @ fetches m ts i (length rs)) (Mapping i rs (length rs)) (int (Suc i))" us "Mapping i rs (length rs)" "replicate k Idle" m ts]
    by simp
  also have "?s (q @ fetches m ts i (length rs)) (Gathering i (length rs) 0) (int (Suc i)) = waiting m ts n (Suc i)"
    by (simp add: waiting_def new_collector_def k us_def q_def rs)
  finally show ?thesis .
qed

lemma all_wait:
  assumes "\<forall>t \<in> set ts. \<exists>rs. list_regions m t = Inr rs" and "i \<le> n" and "i \<le> length ts"
  shows "collector_steps m ts (new_collector n) (waiting m ts n i)"
  using assms(2,3)
proof (induction i)
  case 0
  have "collector_step m ts (submitted n (length ts)) (waiting m ts n 0)"
    using join [of "submitted n (length ts)" ts m] by (simp add: submitted_def waiting_def new_collector_def)
  with all_submitted [OF order_refl] show ?case by (meson rtranclp.rtrancl_into_rtrancl)
next
  case (Suc i)
  then have "i < length ts" by simp
  then obtain rs where "list_regions m (ts ! i) = Inr rs" using assms(1) nth_mem by blast
  from one_more_waits [OF _ \<open>i < length ts\<close> this, of n] Suc show ?case by (meson Suc_leD Suc_le_lessD rtranclp_trans)
qed

text \<open>C31 The nested use of the pool can deadlock: with as many collections in progress as the pool has workers all of
  them wait for regions that no worker is left to fetch, and \<^verbatim>\<open>join\<close> waits for ever, although nothing failed.\<close>

theorem collector_deadlock:
  assumes "0 < n" and "n \<le> length ts" and "\<forall>t \<in> set ts. \<exists>r rs. list_regions m t = Inr (r # rs)"
  shows "\<exists>s. collector_steps m ts (new_collector n) s \<and> main_at s = Joining \<and> ended s = [] \<and> (\<forall>t. \<not> collector_step m ts s t)"
proof -
  have "collector_steps m ts (new_collector n) (waiting m ts n n)"
    by (rule all_wait) (use assms(2,3) in blast)+
  moreover have "\<not> collector_step m ts (waiting m ts n n) t" for t
  proof
    assume "collector_step m ts (waiting m ts n n) t"
    then show False
    proof cases
      case (work i u w)
      then have i: "i < n" by (simp add: waiting_def)
      with assms(2) obtain r rs where "list_regions m (ts ! i) = Inr (r # rs)" using assms(3) nth_mem by (meson order_less_le_trans)
      then have "0 < length (parts_of m ts i)" by (simp add: parts_of_def)
      with work(3) i show False by (simp add: waiting_def new_collector_def)
    qed (use assms(1) in \<open>simp_all add: waiting_def\<close>)
  qed
  ultimately show ?thesis
    by - (rule exI [of _ "waiting m ts n n"], simp add: waiting_def new_collector_def)
qed

section \<open>The collector ends when nothing fails and the pool is large enough\<close>

definition faultless :: "minio \<Rightarrow> bool" where
  "faultless m \<longleftrightarrow> (\<forall>t. \<exists>rs. list_regions m t = Inr rs) \<and> (\<forall>r. snd (collect_region m r) = None)"

definition submissions :: "string list \<Rightarrow> collector \<Rightarrow> nat" where
  "submissions ts s = (case main_at s of Submitting i \<Rightarrow> i | _ \<Rightarrow> length ts)"

fun at_work :: "worker \<Rightarrow> bool" where
  "at_work Idle = False"
| "at_work (Fetching j k r) = False"
| "at_work _ = True"

fun is_collect :: "work \<Rightarrow> bool" where
  "is_collect (Collect j) = True"
| "is_collect _ = False"

definition pending :: "collector \<Rightarrow> nat \<Rightarrow> nat \<Rightarrow> bool" where
  "pending s j k \<longleftrightarrow> fetched s (j, k) \<noteq> None \<or> (\<exists>r. Fetch j k r \<in> set (queue s)) \<or> (\<exists>r. Fetching j k r \<in> set (crew s))"

fun parts_pending :: "collector \<Rightarrow> worker \<Rightarrow> bool" where
  "parts_pending s (Mapping j rs k) \<longleftrightarrow> (\<forall>i < k. pending s j i)"
| "parts_pending s (Gathering j n k) \<longleftrightarrow> (\<forall>i < n. pending s j i)"
| "parts_pending s _ \<longleftrightarrow> True"

definition calm :: "string list \<Rightarrow> nat \<Rightarrow> collector \<Rightarrow> bool" where
  "calm ts n s \<longleftrightarrow> length (crew s) = n \<and> submissions ts s \<le> length ts \<and>
     length (filter at_work (crew s)) + length (filter is_collect (queue s)) \<le> submissions ts s \<and>
     (\<forall>w \<in> set (crew s). parts_pending s w) \<and> (\<forall>x e. fetched s x \<noteq> Some (Some e)) \<and> (lost s \<noteq> [] \<longrightarrow> closed s)"

lemma calm_fetched: "calm ts n s \<Longrightarrow> fetched s x \<noteq> Some (Some e)"
  by (cases x) (auto simp: calm_def)

lemma advance_keeps:
  assumes "faultless m" and "calm ts n s" and "advance m ts s v = Some (t, w)"
  shows "main_at t = main_at s" "\<forall>x e. fetched t x \<noteq> Some (Some e)" "lost t \<noteq> [] \<Longrightarrow> closed s"
    "(if at_work w then 1 else 0) + length (filter is_collect (queue t)) \<le>
      (if at_work v then 1 else 0) + length (filter is_collect (queue s))"
proof -
  have f: "fetched s x \<noteq> Some (Some e)" for x e using assms(2) calm_fetched by blast
  have l: "list_regions m r \<noteq> Inl e" for r e using assms(1) unfolding faultless_def by (metis sum.distinct(1))
  have c: "snd (collect_region m r) = None" for r using assms(1) by (simp add: faultless_def)
  show "main_at t = main_at s"
    using assms(3) by (cases v) (auto split: list.splits sum.splits if_splits option.splits prod.splits)
  show "\<forall>x e. fetched t x \<noteq> Some (Some e)"
  proof (cases v)
    case (Fetching j k r)
    obtain fs where "collect_region m r = (fs, None)" using c [of r] by (metis prod.collapse)
    with Fetching assms(3) have "fetched t = (fetched s)((j, k) := Some None)" by auto
    with assms(2) show ?thesis by (simp add: calm_def)
  qed (use assms(2,3) in \<open>auto simp: calm_def split: list.splits sum.splits if_splits option.splits\<close>)
  show "closed s" if "lost t \<noteq> []"
    using that assms(2,3) f l by (cases v) (auto simp: calm_def lost_def split: list.splits sum.splits if_splits option.splits prod.splits)
  show "(if at_work w then 1 else 0) + length (filter is_collect (queue t)) \<le>
      (if at_work v then 1 else 0) + length (filter is_collect (queue s))"
  proof (cases v)
    case Idle
    then obtain x q where "queue s = x # q" "t = s\<lparr>queue := q\<rparr>" "w = start_work x" using assms(3) by (auto split: list.splits)
    then show ?thesis by (cases x) auto
  qed (use assms(3) f in \<open>auto split: sum.splits if_splits option.splits prod.splits\<close>)
qed

lemma advance_pending:
  assumes "calm ts n s" and "faultless m" and "i < length (crew s)" and "advance m ts s (crew s ! i) = Some (t, w)"
    and "pending s j k"
  shows "pending (t\<lparr>crew := (crew s)[i := w]\<rparr>) j k"
proof -
  have f: "fetched s x \<noteq> Some (Some e)" for x e using assms(1) calm_fetched by blast
  have w: "w \<in> set ((crew s)[i := w])" using assms(3) by (rule set_update_memI)
  from assms(5) consider "fetched s (j, k) \<noteq> None" | r where "Fetch j k r \<in> set (queue s)" | r where "Fetching j k r \<in> set (crew s)"
    unfolding pending_def by blast
  then show ?thesis
  proof cases
    case 1
    then have "fetched t (j, k) \<noteq> None"
      using assms(4) by (cases "crew s ! i") (auto split: list.splits sum.splits if_splits option.splits prod.splits)
    then show ?thesis by (simp add: pending_def)
  next
    case 2
    then have "Fetch j k r \<in> set (queue t) \<or> w = Fetching j k r"
      using assms(4) f by (cases "crew s ! i") (auto split: list.splits sum.splits if_splits option.splits prod.splits)
    then show ?thesis using w by (auto simp: pending_def)
  next
    case 3
    then obtain l where l: "l < length (crew s)" "crew s ! l = Fetching j k r" by (auto simp: in_set_conv_nth)
    show ?thesis
    proof (cases "l = i")
      case True
      with l assms(4) have "fetched t (j, k) \<noteq> None" by (auto split: prod.splits)
      then show ?thesis by (simp add: pending_def)
    next
      case False
      with l have "Fetching j k r \<in> set ((crew s)[i := w])" by (metis length_list_update nth_list_update_neq nth_mem)
      then show ?thesis by (auto simp: pending_def)
    qed
  qed
qed

lemma pending_same: "pending s j k \<Longrightarrow> fetched t = fetched s \<Longrightarrow> crew t = crew s \<Longrightarrow> set (queue s) \<subseteq> set (queue t) \<Longrightarrow> pending t j k"
  unfolding pending_def by (elim disjE exE) auto

lemma parts_pending_same:
  "parts_pending s x \<Longrightarrow> fetched t = fetched s \<Longrightarrow> crew t = crew s \<Longrightarrow> set (queue s) \<subseteq> set (queue t) \<Longrightarrow> parts_pending t x"
  using pending_same by (cases x) (simp_all, metis+)

lemma calm_main:
  assumes "calm ts n s" and "fetched t = fetched s" "crew t = crew s" "set (queue s) \<subseteq> set (queue t)" "ended t = ended s"
    and "submissions ts t \<le> length ts" and "length (filter is_collect (queue t)) + submissions ts s \<le> length (filter is_collect (queue s)) + submissions ts t"
    and "closed s \<Longrightarrow> closed t"
  shows "calm ts n t"
proof -
  have "\<forall>w \<in> set (crew t). parts_pending t w"
    using assms(1) parts_pending_same [OF _ assms(2-4)] unfolding assms(3) calm_def by blast
  with assms show ?thesis by (auto simp: calm_def lost_def)
qed

lemma calm_step:
  assumes "calm ts n s" and "faultless m" and "collector_step m ts s t"
  shows "calm ts n t"
  using assms(3)
proof cases
  case (work i u w)
  note keeps = advance_keeps [OF assms(2,1) work(3)]
  have len: "length (filter at_work ((crew s)[i := w])) + (if at_work (crew s ! i) then 1 else 0) =
      length (filter at_work (crew s)) + (if at_work w then 1 else 0)"
    by (rule filter_update_length [OF work(2)])
  have parts: "parts_pending t x" if "parts_pending s x" for x
    using that advance_pending [OF assms(1,2) work(2,3)] unfolding work(1) by (cases x) auto
  have "parts_pending t w"
  proof (cases "crew s ! i")
    case (Mapping j rs k)
    have "parts_pending s (Mapping j rs k)" using assms(1) work(2) Mapping unfolding calm_def by (metis nth_mem)
    then have old: "\<forall>l < k. pending t j l" using parts by fastforce
    show ?thesis
    proof (cases "length rs \<le> k")
      case True
      with Mapping work(3) old show ?thesis by auto
    next
      case False
      with Mapping work consider "w = Idle" | "w = Mapping j rs (Suc k)" "Fetch j k (rs ! k) \<in> set (queue t)" by (auto split: if_splits)
      then show ?thesis using old by cases (auto simp: less_Suc_eq pending_def)
    qed
  next
    case (Gathering j l k)
    have "parts_pending s (Gathering j l k)" using assms(1) work(2) Gathering unfolding calm_def by (metis nth_mem)
    then have "\<forall>i < l. pending t j i" using parts by fastforce
    with Gathering work(3) show ?thesis by (auto split: if_splits option.splits)
  next
    case Idle
    then obtain x where "w = start_work x" using work(3) by (auto split: list.splits)
    then show ?thesis by (cases x) auto
  qed (use work(3) in \<open>auto split: sum.splits prod.splits\<close>)
  then have "\<forall>x \<in> set (crew t). parts_pending t x"
    using assms(1) parts set_update_subset_insert [of "crew s" i w] unfolding work(1) calm_def by (auto dest: subsetD)
  moreover have "submissions ts t = submissions ts s" "closed t = closed s" using keeps(1) by (simp_all add: work(1) submissions_def closed_def)
  moreover have "lost t = lost u" by (simp add: work(1) lost_def)
  ultimately show ?thesis
    using assms(1) keeps(2-4) len unfolding calm_def work(1) by simp
next
  case (submit i)
  show ?thesis by (rule calm_main [OF assms(1)]) (use submit assms(1) in \<open>auto simp: calm_def submissions_def closed_def\<close>)
next
  case join
  show ?thesis by (rule calm_main [OF assms(1)]) (use join assms(1) in \<open>auto simp: calm_def submissions_def closed_def\<close>)
next
  case close
  show ?thesis by (rule calm_main [OF assms(1)]) (use close assms(1) in \<open>auto simp: calm_def submissions_def closed_def\<close>)
next
  case leave
  show ?thesis by (rule calm_main [OF assms(1)]) (use leave assms(1) in \<open>auto simp: calm_def submissions_def closed_def\<close>)
qed

lemma calm_reachable:
  assumes "faultless m" and "collector_steps m ts (new_collector n) s"
  shows "calm ts n s"
  using assms(2)
proof (induction rule: rtranclp_induct)
  case base
  show ?case by (auto simp: calm_def new_collector_def submissions_def lost_def filter_empty_conv)
next
  case (step s t)
  then show ?case using calm_step assms(1) by blast
qed

lemma stuck_worker:
  assumes "faultless m" and "calm ts n s" and "w \<in> set (crew s)" and "advance m ts s w = None"
  shows "w = Idle \<and> queue s = [] \<or> (\<exists>j l k. w = Gathering j l k \<and> k < l \<and> fetched s (j, k) = None)"
proof -
  have f: "fetched s x \<noteq> Some (Some e)" for x e using assms(2) calm_fetched by blast
  show ?thesis
    using assms(4) by (cases w) (auto split: list.splits sum.splits if_splits option.splits prod.splits)
qed

lemma collector_progress:
  assumes "faultless m" and "calm ts n s" and "counter_right s" and "length ts < n" and "main_at s \<noteq> Gone"
  shows "\<exists>t. collector_step m ts s t"
proof (rule ccontr)
  assume stuck: "\<nexists>t. collector_step m ts s t"
  have adv: "advance m ts s w = None" if w: "w \<in> set (crew s)" for w
  proof (rule ccontr)
    assume "advance m ts s w \<noteq> None"
    moreover from w obtain i where "i < length (crew s)" "crew s ! i = w" by (auto simp: in_set_conv_nth)
    ultimately show False using stuck work [of i s m ts] by auto
  qed
  have waits: "w = Idle \<and> queue s = [] \<or> (\<exists>j l k. w = Gathering j l k \<and> k < l \<and> fetched s (j, k) = None)" if "w \<in> set (crew s)" for w
    using stuck_worker [OF assms(1,2) that adv [OF that]] .
  have "\<not> (\<forall>w \<in> set (crew s). at_work w)"
  proof
    assume "\<forall>w \<in> set (crew s). at_work w"
    then have "length (filter at_work (crew s)) = n" using assms(2) by (simp add: calm_def)
    then show False using assms(2,4) by (simp add: calm_def)
  qed
  then have q: "queue s = []" using waits by fastforce
  have idle: "w = Idle" if w: "w \<in> set (crew s)" for w
  proof (rule ccontr)
    assume "w \<noteq> Idle"
    with waits [OF w] obtain j l k where g: "w = Gathering j l k" "k < l" "fetched s (j, k) = None" by blast
    with w assms(2) have "pending s j k" unfolding calm_def by fastforce
    with g(3) q obtain r where "Fetching j k r \<in> set (crew s)" by (auto simp: pending_def)
    from waits [OF this] show False by simp
  qed
  show False
  proof (cases "main_at s")
    case (Submitting i)
    with assms(2) have "i < length ts \<or> i = length ts" by (auto simp: calm_def submissions_def)
    with Submitting stuck show False using submit join by blast
  next
    case Joining
    with assms(2) have "lost s = []" by (auto simp: calm_def closed_def)
    moreover have "filter counted (crew s) = []" using idle by (force simp: filter_empty_conv)
    ultimately have "in_progress s = 0" using assms(3) by (simp add: counter_right_def)
    with Joining stuck show False using close by fastforce
  next
    case Closing
    with q idle stuck show False using leave by blast
  qed (use assms(5) in simp)
qed

text \<open>Every step uses up some of the work that is left.\<close>

definition parts_number :: "minio \<Rightarrow> string list \<Rightarrow> nat \<Rightarrow> nat" where
  "parts_number m ts j = length (parts_of m ts j)"

fun work_weight :: "minio \<Rightarrow> string list \<Rightarrow> work \<Rightarrow> nat" where
  "work_weight m ts (Collect j) = 6 + 4 * parts_number m ts j"
| "work_weight m ts (Fetch j k r) = 2"

fun worker_weight :: "minio \<Rightarrow> string list \<Rightarrow> worker \<Rightarrow> nat" where
  "worker_weight m ts Idle = 0"
| "worker_weight m ts (Counting j) = 5 + 4 * parts_number m ts j"
| "worker_weight m ts (Listing j) = 4 + 4 * parts_number m ts j"
| "worker_weight m ts (Mapping j rs k) = 3 + length rs + 3 * (length rs - k)"
| "worker_weight m ts (Gathering j n k) = 2 + (n - k)"
| "worker_weight m ts (Finishing j) = 1"
| "worker_weight m ts (Fetching j k r) = 1"

fun main_weight :: "minio \<Rightarrow> string list \<Rightarrow> main_place \<Rightarrow> nat" where
  "main_weight m ts (Submitting i) = 3 + sum_list (map (\<lambda>j. 7 + 4 * parts_number m ts j) [i ..< length ts])"
| "main_weight m ts Joining = 2"
| "main_weight m ts Closing = 1"
| "main_weight m ts Gone = 0"

definition weight :: "minio \<Rightarrow> string list \<Rightarrow> collector \<Rightarrow> nat" where
  "weight m ts s = main_weight m ts (main_at s) + sum_list (map (work_weight m ts) (queue s)) +
     sum_list (map (worker_weight m ts) (crew s))"

lemma sum_update: "i < length xs \<Longrightarrow> sum_list (map f (xs[i := y])) + f (xs ! i) = sum_list (map f xs) + (f y :: nat)"
proof (induction xs arbitrary: i)
  case (Cons x xs)
  then show ?case by (cases i) auto
qed simp

lemma sum_filter_le: "sum_list (map f (filter P xs)) \<le> sum_list (map (f :: 'a \<Rightarrow> nat) xs)"
  by (induction xs) auto

lemma advance_weight:
  "advance m ts s v = Some (t, w) \<Longrightarrow> main_at t = main_at s \<and>
   sum_list (map (work_weight m ts) (queue t)) + worker_weight m ts w < sum_list (map (work_weight m ts) (queue s)) + worker_weight m ts v"
proof (cases v)
  case Idle
  assume "advance m ts s v = Some (t, w)"
  with Idle obtain x q where "queue s = x # q" "t = s\<lparr>queue := q\<rparr>" "w = start_work x" by (auto split: list.splits)
  then show ?thesis by (cases x) (auto simp: Idle)
next
  case (Gathering j n k)
  assume a: "advance m ts s v = Some (t, w)"
  have "sum_list (map (work_weight m ts) (filter (\<lambda>w. \<not> part_of j w) (queue s))) \<le> sum_list (map (work_weight m ts) (queue s))"
    by (rule sum_filter_le)
  with a Gathering show ?thesis by (auto split: if_splits option.splits)
qed (auto simp: parts_number_def parts_of_def split: sum.splits if_splits option.splits prod.splits)

lemma step_weight: "collector_step m ts s t \<Longrightarrow> weight m ts t < weight m ts s"
proof (erule collector_stepE)
  fix i u w
  assume i: "i < length (crew s)" and a: "advance m ts s (crew s ! i) = Some (u, w)" and t: "t = u\<lparr>crew := (crew s)[i := w]\<rparr>"
  from sum_update [OF i, of "worker_weight m ts" w] advance_weight [OF a]
  show "weight m ts t < weight m ts s" by (simp add: weight_def t)
next
  fix i
  assume "main_at s = Submitting i" "i < length ts" "t = s\<lparr>main_at := Submitting (Suc i), queue := queue s @ [Collect i]\<rparr>"
  then show "weight m ts t < weight m ts s" by (simp add: weight_def upt_conv_Cons)
qed (auto simp: weight_def)

interpretation rc: shrinking "collector_step m ts" "weight m ts" for m ts
  by unfold_locales (rule step_weight)

text \<open>C32 With more workers than benchmarks and a server that never fails the collector always ends: no run has more steps than
  \<open>weight\<close> tells, and a run that has stopped has left \<^verbatim>\<open>join\<close>.\<close>

theorem collector_ends:
  assumes "faultless m" and "length ts < n" and "(collector_step m ts ^^ k) (new_collector n) s"
  shows "k \<le> weight m ts (new_collector n) \<and> ((\<nexists>t. collector_step m ts s t) \<longrightarrow> main_at s = Gone)"
proof -
  have s: "collector_steps m ts (new_collector n) s" using assms(3) by (rule relpowp_imp_rtranclp)
  have "k \<le> weight m ts (new_collector n)" using rc.steps_bound [OF assms(3)] by simp
  moreover have "main_at s = Gone" if "\<nexists>t. collector_step m ts s t"
    using that collector_progress [OF assms(1) calm_reachable [OF assms(1) s] counter_reachable [OF s] assms(2)] by blast
  ultimately show ?thesis by blast
qed

section \<open>A server\<close>

definition sample_minio :: minio where
  "sample_minio = \<lparr>list_regions = (\<lambda>t. Inr [t @ ''/r1'']), list_objects = (\<lambda>r. ([r @ ''/log''], None)), fget_object = (\<lambda>ob. None)\<rparr>"

lemma sample_faultless: "faultless sample_minio"
  by (simp add: faultless_def sample_minio_def collect_region_def)

lemma collector_ends_witness:
  "\<exists>k s. (collector_step sample_minio [''tag''] ^^ k) (new_collector 2) s \<and>
     (\<nexists>t. collector_step sample_minio [''tag''] s t) \<and> main_at s = Gone"
proof -
  let ?step = "collector_step sample_minio [''tag'']"
  obtain t j where t: "(?step ^^ j) (new_collector 2) t" "\<nexists>u. ?step t u"
    using rc.some_end [of sample_minio "[''tag'']" "new_collector 2"] by (auto simp: rtranclp_power)
  from collector_ends [OF sample_faultless _ t(1)] t(2) have "main_at t = Gone" by simp
  with t show ?thesis by blast
qed

lemma last_result_lost_witness:
  "\<exists>s. collector_steps sample_minio [''tag''] (new_collector 5) s \<and> main_at s = Gone \<and> files s = []"
  using last_result_lost [of 5 sample_minio "''tag''" "''tag/r1''" "[]"] by (auto simp: sample_minio_def)

lemma collector_deadlock_witness:
  "\<exists>s. collector_steps sample_minio [''a'', ''b''] (new_collector 2) s \<and> main_at s = Joining \<and> ended s = []"
  using collector_deadlock [of 2 "[''a'', ''b'']" sample_minio] by (auto simp: sample_minio_def)

text \<open>A server that does not answer the listing.\<close>

definition refusing :: minio where
  "refusing = sample_minio\<lparr>list_regions := (\<lambda>t. Inl (OSError ''S3''))\<rparr>"

lemma refused:
  "\<exists>s. collector_steps refusing [''t''] (new_collector 1) s \<and> ended s = [(0, Lost (OSError ''S3''))] \<and> \<not> closed s \<and> main_at s = Submitting 1"
proof -
  let ?step = "collector_step refusing [''t'']"
  let ?s = "\<lambda>q w c e. \<lparr>main_at = Submitting 1, queue = q, crew = [w], in_progress = c, fetched = \<lambda>_. None, files = [], ended = e\<rparr>"
  have "collector_steps refusing [''t''] (new_collector 1) (?s [Collect 0] Idle 0 [])"
    using all_submitted [of 1 "[''t'']" refusing 1] by (simp add: submitted_def new_collector_def)
  also have "?step (?s [Collect 0] Idle 0 []) (?s [] (Counting 0) 0 [])"
    using step_first [of "?s [Collect 0] Idle 0 []" Idle "[]" refusing "[''t'']"] by simp
  also have "?step (?s [] (Counting 0) 0 []) (?s [] (Listing 0) 1 [])"
    using step_first [of "?s [] (Counting 0) 0 []" "Counting 0" "[]" refusing "[''t'']"] by simp
  also have "?step (?s [] (Listing 0) 1 []) (?s [] Idle 1 [(0, Lost (OSError ''S3''))])"
    using step_first [of "?s [] (Listing 0) 1 []" "Listing 0" "[]" refusing "[''t'']"] by (simp add: refusing_def)
  finally show ?thesis by - (rule exI, erule conjI, simp add: closed_def)
qed

lemma failure_blocks_join_witness:
  "\<exists>s t. collector_steps refusing [''t''] (new_collector 1) s \<and> collector_step refusing [''t''] s t \<and> main_at t = Joining \<and> \<not> closed t"
proof -
  obtain s where s: "collector_steps refusing [''t''] (new_collector 1) s" "(0, Lost (OSError ''S3'')) \<in> set (ended s)" "\<not> closed s"
    "main_at s = Submitting 1" using refused by force
  have j: "collector_step refusing [''t''] s (s\<lparr>main_at := Joining\<rparr>)" using join [of s "[''t'']" refusing] s(4) by simp
  from j have js: "collector_steps refusing [''t''] s (s\<lparr>main_at := Joining\<rparr>)" by (rule r_into_rtranclp)
  from failure_blocks_join [OF s(1,2,3) js] j s(1) show ?thesis
    by - (rule exI [of _ s], rule exI [of _ "s\<lparr>main_at := Joining\<rparr>"], simp)
qed

text \<open>A run with two workers.\<close>

lemma saved_run:
  "\<exists>s. collector_steps sample_minio [''t''] (new_collector 2) s \<and> (0, Saved) \<in> set (ended s)"
proof -
  let ?step = "collector_step sample_minio [''t'']"
  let ?s = "\<lambda>q v w c f fs. \<lparr>main_at = Submitting 1, queue = q, crew = [v, w], in_progress = c, fetched = f, files = fs, ended = []\<rparr>"
  let ?f = "(\<lambda>_. None) ((0, 0) := Some None)"
  note first = step_first [of "?s q v w c f fs" v "[w]" sample_minio "[''t'']" for q v w c f fs]
  note second = step_at [of "?s q v w c f fs" "[v]" w "[]" sample_minio "[''t'']" for q v w c f fs]
  have "replicate 2 Idle = [Idle, Idle]" by (simp add: numeral_2_eq_2)
  then have "collector_steps sample_minio [''t''] (new_collector 2) (?s [Collect 0] Idle Idle 0 (\<lambda>_. None) [])"
    using all_submitted [of 1 "[''t'']" sample_minio 2] by (simp add: submitted_def new_collector_def)
  also have "?step (?s [Collect 0] Idle Idle 0 (\<lambda>_. None) []) (?s [] (Counting 0) Idle 0 (\<lambda>_. None) [])"
    using first [of "[Collect 0]" Idle Idle] by simp
  also have "?step (?s [] (Counting 0) Idle 0 (\<lambda>_. None) []) (?s [] (Listing 0) Idle 1 (\<lambda>_. None) [])"
    using first [of "[]" "Counting 0" Idle 0] by simp
  also have "?step (?s [] (Listing 0) Idle 1 (\<lambda>_. None) []) (?s [] (Mapping 0 [''t/r1''] 0) Idle 1 (\<lambda>_. None) [])"
    using first [of "[]" "Listing 0" Idle] by (simp add: sample_minio_def)
  also have "?step (?s [] (Mapping 0 [''t/r1''] 0) Idle 1 (\<lambda>_. None) []) (?s [Fetch 0 0 ''t/r1''] (Mapping 0 [''t/r1''] 1) Idle 1 (\<lambda>_. None) [])"
    using first [of "[]" "Mapping 0 [''t/r1''] 0" Idle] by (simp add: closed_def)
  also have "?step (?s [Fetch 0 0 ''t/r1''] (Mapping 0 [''t/r1''] 1) Idle 1 (\<lambda>_. None) []) (?s [Fetch 0 0 ''t/r1''] (Gathering 0 1 0) Idle 1 (\<lambda>_. None) [])"
    using first [of "[Fetch 0 0 ''t/r1'']" "Mapping 0 [''t/r1''] 1" Idle] by simp
  also have "?step (?s [Fetch 0 0 ''t/r1''] (Gathering 0 1 0) Idle 1 (\<lambda>_. None) []) (?s [] (Gathering 0 1 0) (Fetching 0 0 ''t/r1'') 1 (\<lambda>_. None) [])"
    using second [of "[Fetch 0 0 ''t/r1'']" "Gathering 0 1 0" Idle] by simp
  also have "?step (?s [] (Gathering 0 1 0) (Fetching 0 0 ''t/r1'') 1 (\<lambda>_. None) []) (?s [] (Gathering 0 1 0) Idle 1 ?f [''t/r1/log''])"
    using second [of "[]" "Gathering 0 1 0" "Fetching 0 0 ''t/r1''" 1 "\<lambda>_. None" "[]"] by (simp add: sample_minio_def collect_region_def)
  also have "?step (?s [] (Gathering 0 1 0) Idle 1 ?f [''t/r1/log'']) (?s [] (Gathering 0 1 1) Idle 1 ?f [''t/r1/log''])"
    using first [of "[]" "Gathering 0 1 0" Idle _ ?f] by simp
  also have "?step (?s [] (Gathering 0 1 1) Idle 1 ?f [''t/r1/log'']) (?s [] (Finishing 0) Idle 1 ?f [''t/r1/log''])"
    using first [of "[]" "Gathering 0 1 1" Idle _ ?f] by simp
  also have "?step (?s [] (Finishing 0) Idle 1 ?f [''t/r1/log'']) ((?s [] Idle Idle 0 ?f [''t/r1/log''])\<lparr>ended := [(0, Saved)]\<rparr>)"
    using first [of "[]" "Finishing 0" Idle 1] by simp
  finally show ?thesis by - (rule exI, erule conjI, simp)
qed

lemma saved_is_complete_witness: "\<exists>s. collector_steps sample_minio [''t''] (new_collector 2) s \<and> ''t/r1/log'' \<in> set (files s)"
proof -
  obtain s where s: "collector_steps sample_minio [''t''] (new_collector 2) s" "(0, Saved) \<in> set (ended s)" using saved_run by blast
  from saved_is_complete [OF s] s(1) show ?thesis by (auto simp: sample_minio_def)
qed

end
