(* ===== verification/Monitor.thy ===== *)
theory Monitor
  imports Deploy Log_Follow
begin

text \<open>
  \<^verbatim>\<open>tools/monitor.py\<close>: the status tables of the pods in all regions, and their logs. The API servers
  are parameters: the pods of a namespace, the replies about a node by the number of the request,
  the deployments and the logs.
\<close>

section \<open>The chosen namespaces\<close>

definition chosen_namespaces :: "site \<Rightarrow> string list \<Rightarrow> (string, namespace_info) dict res" where
  "chosen_namespaces st names = rbind (get_main_config (contexts st) (yaml st)) (\<lambda>cfg.
     rbind (get_namespaces cfg) (\<lambda>nss. Inr (filter (\<lambda>(n, info). names = [] \<or> n \<in> set names) nss)))"

text \<open>The names that a warning is written for.\<close>

definition missing_names :: "string list \<Rightarrow> (string, namespace_info) dict \<Rightarrow> string list" where
  "missing_names names chosen = filter (\<lambda>n. n \<notin> set (dkeys chosen)) names"

section \<open>The status of a pod\<close>

record condition =
  cond_type :: string
  cond_status :: string

text \<open>The reasons of the states \<^verbatim>\<open>waiting\<close> and \<^verbatim>\<open>terminated\<close>, where the container is in one.\<close>

record container_state =
  waiting_reason :: "string option option"
  terminated_reason :: "string option option"

record container =
  is_ready :: bool
  state_of :: "container_state option"

record pod_state =
  phase :: "string option"
  conditions :: "condition list"
  containers :: "container list"

text \<open>Whether the pod is being disrupted, and whether its containers were found ready before that.\<close>

fun scan_conditions :: "condition list \<Rightarrow> bool \<Rightarrow> bool \<times> bool" where
  "scan_conditions [] ready = (False, ready)"
| "scan_conditions (c # cs) ready =
     (if cond_type c = ''DisruptionTarget'' \<and> cond_status c = ''True'' then (True, ready)
      else scan_conditions cs (ready \<or> cond_type c = ''ContainersReady'' \<and> cond_status c = ''True''))"

text \<open>The reason of the first container that tells one; \<open>Inr None\<close> when none does.\<close>

fun first_reason :: "container list \<Rightarrow> string option option res" where
  "first_reason [] = Inr None"
| "first_reason (c # cs) =
     (if is_ready c then first_reason cs
      else case state_of c of
        None \<Rightarrow> Inl (AttributeError ''waiting'')
      | Some s \<Rightarrow> (case waiting_reason s of
          Some r \<Rightarrow> Inr (Some r)
        | None \<Rightarrow> (case terminated_reason s of
            Some r \<Rightarrow> Inr (Some r)
          | None \<Rightarrow> first_reason cs)))"

definition compute_status :: "pod_state option \<Rightarrow> string option res" where
  "compute_status s = rbind (req (AttributeError ''phase'') s) (\<lambda>p.
     if phase p \<noteq> Some ''Running'' then Inr (phase p)
     else case scan_conditions (conditions p) False of (disrupted, ready) \<Rightarrow>
       if disrupted then Inr (Some ''Terminating'')
       else if ready then Inr (Some ''Running'')
       else rbind (first_reason (containers p)) (\<lambda>r. Inr (case r of None \<Rightarrow> Some ''Running'' | Some x \<Rightarrow> x)))"

section \<open>The nodes of a namespace\<close>

record node =
  capacity :: "(string, string) dict"
  node_ready :: bool
  node_pods :: "(string \<times> string option) list"

type_synonym nodes = "(string, node) dict"

text \<open>A pod of the listing: its node, its name or the empty text, and its status.\<close>

record pod_item =
  on_node :: "string option"
  item_name :: string
  item_state :: "pod_state option"

datatype node_reply =
    Node_status "(string, string) dict" "condition list"
  | Refused
  | Read_failed exn

definition new_node :: node where
  "new_node = \<lparr>capacity = [], node_ready = False, node_pods = []\<rparr>"

text \<open>\<^verbatim>\<open>nodes[k]\<close> of the \<^verbatim>\<open>defaultdict\<close>.\<close>

definition node_at :: "string \<Rightarrow> nodes \<Rightarrow> node" where
  "node_at k ns = (case dget ns k of None \<Rightarrow> new_node | Some n \<Rightarrow> n)"

definition told_ready :: "condition list \<Rightarrow> bool \<Rightarrow> bool" where
  "told_ready cs old = (case find (\<lambda>c. cond_type c = ''Ready'') cs of None \<Rightarrow> old | Some c \<Rightarrow> cond_status c = ''True'')"

text \<open>The capacity is asked for until it is known; \<open>q\<close> counts the requests.\<close>

definition look_up :: "(nat \<Rightarrow> string \<Rightarrow> node_reply) \<Rightarrow> string \<Rightarrow> nat \<times> nodes \<Rightarrow> (nat \<times> nodes) res" where
  "look_up ask k = (\<lambda>(q, ns).
     let n = node_at k ns
     in if capacity n \<noteq> [] then Inr (q, ns)
        else case ask q k of
          Refused \<Rightarrow> Inr (Suc q, dset k n ns)
        | Read_failed e \<Rightarrow> Inl e
        | Node_status c cs \<Rightarrow> Inr (Suc q, dset k (n\<lparr>capacity := c, node_ready := told_ready cs (node_ready n)\<rparr>) ns))"

definition node_key :: "pod_item \<Rightarrow> string" where
  "node_key p = (case on_node p of Some (c # n) \<Rightarrow> c # n | _ \<Rightarrow> ''unknown'')"

definition add_pod :: "(nat \<Rightarrow> string \<Rightarrow> node_reply) \<Rightarrow> pod_item \<Rightarrow> nat \<times> nodes \<Rightarrow> (nat \<times> nodes) res" where
  "add_pod ask p s =
     rbind (case on_node p of Some (c # n) \<Rightarrow> look_up ask (c # n) s | _ \<Rightarrow> Inr s) (\<lambda>(q, ns).
     rbind (compute_status (item_state p)) (\<lambda>x.
       let n = node_at (node_key p) ns
       in Inr (q, dset (node_key p) (n\<lparr>node_pods := node_pods n @ [(item_name p, x)]\<rparr>) ns)))"

record status_api =
  load_kube :: "string \<Rightarrow> unit res"
  pods_of :: "string \<Rightarrow> pod_item list res"
  ask_node :: "string \<Rightarrow> nat \<Rightarrow> string \<Rightarrow> node_reply"

definition namespaced_data :: "site \<Rightarrow> status_api \<Rightarrow> string \<times> namespace_info \<Rightarrow> (string \<times> string \<times> nodes) res" where
  "namespaced_data st api = (\<lambda>(n, info).
     rbind (kube_config st (load_kube api) (ni_region info)) (\<lambda>ctx.
     rbind (pods_of api n) (\<lambda>ps.
     rbind (rfold (add_pod (ask_node api n)) ps (0, [])) (\<lambda>(q, ns). Inr (ni_region info, n, ns)))))"

section \<open>The data of all namespaces\<close>

type_synonym data = "(string, (string, nodes) dict) dict"

definition add_data :: "string \<times> string \<times> nodes \<Rightarrow> data \<Rightarrow> data" where
  "add_data = (\<lambda>(r, n, ns) d. dset r (dset n ns (case dget d r of None \<Rightarrow> [] | Some m \<Rightarrow> m)) d)"

text \<open>
  The threads write their result under the lock, in the order in which they finish: \<open>order\<close> is a
  permutation of the numbers of the namespaces. The first exception in the order of the namespaces is raised.
\<close>

definition get_data :: "site \<Rightarrow> status_api \<Rightarrow> string list \<Rightarrow> nat list \<Rightarrow> data res" where
  "get_data st api names order =
     rbind (chosen_namespaces st names) (\<lambda>nss.
     rbind (rmap (namespaced_data st api) nss) (\<lambda>rs. Inr (fold add_data (map ((!) rs) order) [])))"

section \<open>The tables\<close>

definition COLORS :: "string list" where
  "COLORS = [''#e6194b'', ''#3cb44b'', ''#ffe119'', ''#4363d8'', ''#f58231'', ''#911eb4'', ''#46f0f0'', ''#f032e6'',
     ''#bcf60c'', ''#fabebe'', ''#008080'', ''#e6beff'', ''#9a6324'', ''#fffac8'', ''#800000'', ''#aaffc3'',
     ''#808000'', ''#ffd8b1'', ''#000075'', ''#808080'', ''#ffffff'', ''#000000'']"

definition color_status :: "string option \<Rightarrow> string" where
  "color_status s =
     (if s = Some ''Running'' \<or> s = Some ''Succeeded'' then ''[b green]'' @ the s @ ''[/b green]''
      else if s = Some ''Pending'' then ''[b yellow]Pending[/b yellow]''
      else if s = Some ''Terminating'' then ''[b]Terminating[/b]''
      else ''[b red]'' @ (case s of None \<Rightarrow> ''None'' | Some x \<Rightarrow> x) @ ''[/b red]'')"

text \<open>The colours given to nodes so far, in the order in which they were given.\<close>

definition choose_color :: "string \<Rightarrow> string list \<Rightarrow> string \<times> string list" where
  "choose_color n known =
     (let known' = (if n \<in> set known then known else known @ [n])
      in (COLORS ! (length (takeWhile (\<lambda>m. m \<noteq> n) known') mod length COLORS), known'))"

definition colored :: "string \<Rightarrow> string \<Rightarrow> string" where
  "colored c s = ''['' @ c @ '']'' @ s @ ''[/'' @ c @ '']''"

fun pod_rows :: "string \<Rightarrow> string \<Rightarrow> string \<Rightarrow> string \<Rightarrow> (string \<times> string option) list \<Rightarrow> string list list" where
  "pod_rows c ns_cell node_cell cap_cell [] = []"
| "pod_rows c ns_cell node_cell cap_cell ((name, s) # ps) =
     [ns_cell, colored c node_cell, colored c cap_cell, colored c name, color_status s] # pod_rows c [] [] [] ps"

definition capacity_cell :: "node \<Rightarrow> string res" where
  "capacity_cell n = (if capacity n = [] then Inr []
     else rbind (req (KeyError ''cpu'') (dget (capacity n) ''cpu'')) (\<lambda>cpu.
       rbind (req (KeyError ''memory'') (dget (capacity n) ''memory'')) (\<lambda>mem. Inr (''cpu: '' @ cpu @ '', mem: '' @ mem))))"

definition node_cell :: "string \<Rightarrow> node \<Rightarrow> string" where
  "node_cell name n = (if name \<noteq> [] \<and> \<not> node_ready n then ''[s]'' @ name @ ''[/s] (not ready)'' else name)"

text \<open>The rows of a namespace; the cell of the namespace is only written in its first row.\<close>

fun node_rows :: "string \<Rightarrow> nodes \<Rightarrow> string list \<Rightarrow> (string list list \<times> string list) res" where
  "node_rows ns_cell [] known = Inr ([], known)"
| "node_rows ns_cell ((name, n) # ns) known =
     rbind (capacity_cell n) (\<lambda>cap. case choose_color name known of (c, known') \<Rightarrow>
       rbind (node_rows (if node_pods n = [] then ns_cell else []) ns known') (\<lambda>(rows, known'').
         Inr (pod_rows c ns_cell (node_cell name n) cap (node_pods n) @ rows, known'')))"

text \<open>A table has its title and one section of rows for every namespace.\<close>

fun table_sections :: "(string \<times> nodes) list \<Rightarrow> string list \<Rightarrow> (string list list list \<times> string list) res" where
  "table_sections [] known = Inr ([], known)"
| "table_sections ((n, ns) # nss) known =
     rbind (node_rows n ns known) (\<lambda>(rows, known').
     rbind (table_sections nss known') (\<lambda>(secs, known''). Inr (rows # secs, known'')))"

type_synonym table = "string \<times> string list list list"

fun region_tables :: "(string \<times> (string, nodes) dict) list \<Rightarrow> string list \<Rightarrow> table list res" where
  "region_tables [] known = Inr []"
| "region_tables ((r, nss) # rs) known =
     rbind (table_sections (sort_key fst nss) known) (\<lambda>(secs, known').
     rbind (region_tables rs known') (\<lambda>ts. Inr ((''[bold]'' @ r @ ''[/bold]'', secs) # ts)))"

definition tables_of :: "data \<Rightarrow> table list res" where
  "tables_of d = region_tables (sort_key fst d) []"

definition generate_tables :: "site \<Rightarrow> status_api \<Rightarrow> string list \<Rightarrow> nat list \<Rightarrow> table list res" where
  "generate_tables st api names order = rbind (get_data st api names order) tables_of"

section \<open>The refreshing display\<close>

text \<open>
  One attempt to make the tables, and whether the event of Ctrl-C was set while waiting after it.
  The loop need not end.
\<close>

datatype attempt = Tables "table list" | Traceback exn | Interrupted

partial_function (option) status_loop :: "(nat \<Rightarrow> attempt) \<Rightarrow> (nat \<Rightarrow> bool) \<Rightarrow> nat \<Rightarrow> attempt list option" where
  "status_loop try_tables exit_set k = (case try_tables k of
     Interrupted \<Rightarrow> Some []
   | shown \<Rightarrow> if exit_set k then Some [shown]
       else Option.bind (status_loop try_tables exit_set (Suc k)) (\<lambda>l. Some (shown # l)))"

section \<open>Logs\<close>

record logs_args =
  deployments :: "string list option"
  pods_given :: "string list option"
  follow_logs :: bool
  all_lines :: bool
  line_count :: int

text \<open>
  The labels a deployment selects its pods by, \<open>None\<close> when it has none; the pods of a selector; and the log of
  a pod, the number of lines or \<open>None\<close> for all of it.
\<close>

record logs_api =
  load_kube_config :: "string \<Rightarrow> unit res"
  read_deployment :: "string \<Rightarrow> string \<Rightarrow> (string, string) dict option res"
  list_pods :: "string \<Rightarrow> string \<Rightarrow> pod list res"
  read_log :: "string \<Rightarrow> string \<Rightarrow> bool \<Rightarrow> int option \<Rightarrow> stream res"

datatype target = Of_deployment string | Of_pod string

definition log_targets :: "logs_args \<Rightarrow> target list" where
  "log_targets a =
     (let ds = (if deployments a = None \<and> pods_given a = None then Some [''compute'', ''xactserver''] else deployments a)
      in map Of_deployment (case ds of None \<Rightarrow> [] | Some l \<Rightarrow> l) @
         map Of_pod (case pods_given a of None \<Rightarrow> [] | Some l \<Rightarrow> l))"

definition no_target :: exn where
  "no_target = PlainException ''Either deployment or pod must be specified.''"

fun target_pods :: "logs_api \<Rightarrow> string \<Rightarrow> target \<Rightarrow> string list res" where
  "target_pods api n (Of_deployment d) = (if d = [] then Inl no_target
     else rbind (read_deployment api n d) (\<lambda>sel.
       get_pods (list_pods api) n (case sel of None \<Rightarrow> [] | Some l \<Rightarrow> l) []))"
| "target_pods api n (Of_pod p) = (if p = [] then Inl no_target else Inr [p])"

record named_logs =
  log_namespace :: string
  log_name :: string
  log_stream :: stream

definition get_named_logs :: "site \<Rightarrow> logs_api \<Rightarrow> logs_args \<Rightarrow> string \<times> string \<times> target \<Rightarrow> named_logs option res" where
  "get_named_logs st api a = (\<lambda>(n, region, t).
     rbind (kube_config st (load_kube_config api) region) (\<lambda>ctx.
     rbind (target_pods api n t) (\<lambda>ps.
       case ps of
         [] \<Rightarrow> Inr None
       | p # _ \<Rightarrow> (case read_log api n p (follow_logs a) (if all_lines a then None else Some (line_count a)) of
           Inl (ApiException code body) \<Rightarrow> Inr None
         | Inl e \<Rightarrow> Inl e
         | Inr s \<Rightarrow> Inr (Some \<lparr>log_namespace = n, log_name = (case t of Of_deployment d \<Rightarrow> d | Of_pod q \<Rightarrow> p), log_stream = s\<rparr>)))))"

definition log_tasks :: "logs_args \<Rightarrow> (string, namespace_info) dict \<Rightarrow> (string \<times> string \<times> target) list" where
  "log_tasks a nss = [(n, ni_region info, t). (n, info) \<leftarrow> nss, t \<leftarrow> log_targets a]"

text \<open>The logs found, in the order of the tasks; the first exception in this order is raised.\<close>

definition found_logs :: "site \<Rightarrow> logs_api \<Rightarrow> logs_args \<Rightarrow> string list \<Rightarrow> named_logs list res" where
  "found_logs st api a names = rbind (chosen_namespaces st names) (\<lambda>nss.
     rbind (rmap (get_named_logs st api a) (log_tasks a nss)) (\<lambda>ls. Inr (concat (map (case_option [] (\<lambda>l. [l])) ls))))"

text \<open>
  How the command may end: with an exception, after a refusal, or, \<open>stopped\<close> telling whether Ctrl-C was
  pressed, once the event it waits for is set. Without \<^verbatim>\<open>--follow\<close> it waits for the threads themselves.
\<close>

definition logs_end :: "site \<Rightarrow> logs_api \<Rightarrow> logs_args \<Rightarrow> string list \<Rightarrow> bool \<Rightarrow> bool \<Rightarrow> exn option \<times> (nat \<times> string) list \<Rightarrow> bool" where
  "logs_end st api a names confirmed stopped r \<longleftrightarrow> (case found_logs st api a names of
     Inl e \<Rightarrow> r = (Some e, [])
   | Inr ls \<Rightarrow> if \<not> confirmed then r = (None, [])
       else \<exists>f. log_steps (\<lambda>i l u. Inr ()) (print_logs (map log_stream ls) ()) f \<and> r = (None, seen f) \<and>
         (if follow_logs a then exit_event f \<or> stopped else \<not> (\<exists>g. log_step (\<lambda>i l u. Inr ()) f g)))"

end
