(* ===== verification/Monitor_Status.thy ===== *)
theory Monitor_Status
  imports Monitor
begin

text \<open>
  The status tables: what the status of a pod means, that every pod is listed once, that the tables do not depend
  on the order in which the threads of the namespaces finish, and when the refreshing display ends.
\<close>

section \<open>What the status means\<close>

lemma scan_meaning:
  "fst (scan_conditions cs ready) \<longleftrightarrow> (\<exists>c \<in> set cs. cond_type c = ''DisruptionTarget'' \<and> cond_status c = ''True'')"
  "\<not> fst (scan_conditions cs ready) \<Longrightarrow>
     snd (scan_conditions cs ready) \<longleftrightarrow> ready \<or> (\<exists>c \<in> set cs. cond_type c = ''ContainersReady'' \<and> cond_status c = ''True'')"
  by (induction cs ready rule: scan_conditions.induct) auto

text \<open>Whether a container tells a reason, and which.\<close>

definition told_reason :: "container \<Rightarrow> string option option" where
  "told_reason c = (if is_ready c then None else case state_of c of
     None \<Rightarrow> None
   | Some s \<Rightarrow> (case waiting_reason s of Some r \<Rightarrow> Some r | None \<Rightarrow> terminated_reason s))"

lemma first_reason_meaning:
  assumes "\<forall>c \<in> set cs. state_of c \<noteq> None"
  shows "first_reason cs = Inr (case List.map_filter told_reason cs of [] \<Rightarrow> None | r # _ \<Rightarrow> Some r)"
  using assms
  by (induction cs) (auto simp: told_reason_def List.map_filter_simps split: option.splits)

text \<open>C35 The status of a pod whose containers have a state: the phase unless it is running, then whether it is being
  disrupted, then whether its containers are ready, then the reason of the first container that tells one.\<close>

theorem status_meaning:
  assumes "\<forall>c \<in> set (containers p). state_of c \<noteq> None"
  shows "compute_status (Some p) = Inr (
    if phase p \<noteq> Some ''Running'' then phase p
    else if \<exists>c \<in> set (conditions p). cond_type c = ''DisruptionTarget'' \<and> cond_status c = ''True'' then Some ''Terminating''
    else if \<exists>c \<in> set (conditions p). cond_type c = ''ContainersReady'' \<and> cond_status c = ''True'' then Some ''Running''
    else case List.map_filter told_reason (containers p) of [] \<Rightarrow> Some ''Running'' | r # _ \<Rightarrow> r)"
proof -
  define D where "D \<longleftrightarrow> (\<exists>c \<in> set (conditions p). cond_type c = ''DisruptionTarget'' \<and> cond_status c = ''True'')"
  define C where "C \<longleftrightarrow> (\<exists>c \<in> set (conditions p). cond_type c = ''ContainersReady'' \<and> cond_status c = ''True'')"
  obtain d r where s: "scan_conditions (conditions p) False = (d, r)" by force
  then have d: "d \<longleftrightarrow> D" and r: "\<not> d \<Longrightarrow> r \<longleftrightarrow> C"
    using scan_meaning [of "conditions p" False] by (simp_all add: D_def C_def)
  have "compute_status (Some p) = (if phase p \<noteq> Some ''Running'' then Inr (phase p)
      else if d then Inr (Some ''Terminating'') else if r then Inr (Some ''Running'')
      else Inr (case List.map_filter told_reason (containers p) of [] \<Rightarrow> Some ''Running'' | r # _ \<Rightarrow> r))"
    by (simp add: compute_status_def s first_reason_meaning [OF assms] split: list.split)
  with d r show ?thesis unfolding D_def [symmetric] C_def [symmetric] by (cases d) auto
qed

section \<open>Every pod is listed once, under its node\<close>

lemma keys_dset: "fst ` set (dset k v d) = insert k (fst ` set d)"
  by (induction d) auto

lemma node_at_dset: "node_at m (dset k n ns) = (if m = k then n else node_at m ns)"
  by (simp add: node_at_def)

lemma look_up_Inr:
  assumes "look_up ask k (q, ns) = Inr (q', ns')" and "wf_dict ns"
  shows "wf_dict ns' \<and> (\<forall>m. node_pods (node_at m ns') = node_pods (node_at m ns)) \<and>
    (ns' = ns \<or> fst ` set ns' = insert k (fst ` set ns))"
proof -
  from assms(1) consider "ns' = ns" | "ns' = dset k (node_at k ns) ns"
    | c r where "ns' = dset k ((node_at k ns)\<lparr>capacity := c, node_ready := r\<rparr>) ns"
    by (auto simp: look_up_def Let_def split: if_splits node_reply.splits)
  then show ?thesis
    using assms(2) by cases (simp_all add: node_at_dset keys_dset)
qed

lemma add_pod_Inr:
  assumes "add_pod ask p (q, ns) = Inr (q', ns')" and "wf_dict ns"
  shows "wf_dict ns' \<and> fst ` set ns' = insert (node_key p) (fst ` set ns) \<and>
    (\<exists>x. compute_status (item_state p) = Inr x \<and>
      (\<forall>m. node_pods (node_at m ns') = node_pods (node_at m ns) @ (if m = node_key p then [(item_name p, x)] else [])))"
proof -
  from assms(1) obtain q1 ns1 x where
    l: "(case on_node p of Some (c # n) \<Rightarrow> look_up ask (c # n) (q, ns) | _ \<Rightarrow> Inr (q, ns)) = Inr (q1, ns1)" and
    x: "compute_status (item_state p) = Inr x" and
    ns': "ns' = dset (node_key p) ((node_at (node_key p) ns1)\<lparr>node_pods := node_pods (node_at (node_key p) ns1) @ [(item_name p, x)]\<rparr>) ns1"
    by (auto simp: add_pod_def rbind_eq_Inr Let_def)
  from l consider "ns1 = ns" | "look_up ask (node_key p) (q, ns) = Inr (q1, ns1)"
    by (auto simp: node_key_def split: option.splits list.splits)
  then have "wf_dict ns1 \<and> (\<forall>m. node_pods (node_at m ns1) = node_pods (node_at m ns)) \<and>
    (ns1 = ns \<or> fst ` set ns1 = insert (node_key p) (fst ` set ns))"
  proof cases
    case 1
    with assms(2) show ?thesis by simp
  next
    case 2
    then show ?thesis using assms(2) by (rule look_up_Inr)
  qed
  then have one: "wf_dict ns1" "\<And>m. node_pods (node_at m ns1) = node_pods (node_at m ns)"
    "fst ` set ns1 = fst ` set ns \<or> fst ` set ns1 = insert (node_key p) (fst ` set ns)" by auto
  have "node_pods (node_at m ns') = node_pods (node_at m ns) @ (if m = node_key p then [(item_name p, x)] else [])" for m
    by (simp add: ns' node_at_dset one(2))
  moreover have "fst ` set ns' = insert (node_key p) (fst ` set ns)" using one(3) by (auto simp: ns' keys_dset)
  moreover have "wf_dict ns'" using one(1) by (simp add: ns')
  ultimately show ?thesis using x by blast
qed

lemma pods_collected:
  assumes "rfold (add_pod ask) ps (q, ns) = Inr (q', ns')" and "wf_dict ns"
  shows "wf_dict ns' \<and> fst ` set ns' = node_key ` set ps \<union> fst ` set ns \<and>
    (\<exists>xs. list_all2 (\<lambda>p x. compute_status (item_state p) = Inr x) ps xs \<and>
      (\<forall>m. node_pods (node_at m ns') = node_pods (node_at m ns) @
        map (\<lambda>(p, x). (item_name p, x)) (filter (\<lambda>(p, x). node_key p = m) (zip ps xs))))"
  using assms
proof (induction ps arbitrary: q ns)
  case Nil
  then show ?case by simp
next
  case (Cons p ps)
  then obtain q1 ns1 where s: "add_pod ask p (q, ns) = Inr (q1, ns1)" "rfold (add_pod ask) ps (q1, ns1) = Inr (q', ns')"
    by (auto simp: rbind_eq_Inr)
  from add_pod_Inr [OF s(1) Cons.prems(2)] obtain x where x: "wf_dict ns1" "fst ` set ns1 = insert (node_key p) (fst ` set ns)"
    "compute_status (item_state p) = Inr x"
    "\<And>m. node_pods (node_at m ns1) = node_pods (node_at m ns) @ (if m = node_key p then [(item_name p, x)] else [])" by blast
  from Cons.IH [OF s(2) x(1)] obtain xs where xs: "wf_dict ns'" "fst ` set ns' = node_key ` set ps \<union> fst ` set ns1"
    "list_all2 (\<lambda>p x. compute_status (item_state p) = Inr x) ps xs"
    "\<And>m. node_pods (node_at m ns') = node_pods (node_at m ns1) @
        map (\<lambda>(p, x). (item_name p, x)) (filter (\<lambda>(p, x). node_key p = m) (zip ps xs))" by blast
  have "list_all2 (\<lambda>p x. compute_status (item_state p) = Inr x) (p # ps) (x # xs)" using x(3) xs(3) by simp
  moreover have "node_pods (node_at m ns') = node_pods (node_at m ns) @
        map (\<lambda>(p, x). (item_name p, x)) (filter (\<lambda>(p, x). node_key p = m) (zip (p # ps) (x # xs)))" for m
    by (simp add: xs(4) x(4))
  moreover have "fst ` set ns' = node_key ` set (p # ps) \<union> fst ` set ns" using xs(2) x(2) by auto
  ultimately show ?case using xs(1) by blast
qed

text \<open>C33 The data of a namespace lists every pod exactly once, with its status, under its node and in the order of the
  API server; pods without a node are listed under \<^verbatim>\<open>unknown\<close>, and there is no node without a pod.\<close>

theorem pods_listed_once:
  assumes "namespaced_data st api (n, info) = Inr (r, m, ns)" and "pods_of api n = Inr ps"
  shows "r = ni_region info \<and> m = n \<and> distinct (dkeys ns) \<and> fst ` set ns = node_key ` set ps \<and>
    (\<exists>xs. rmap (\<lambda>p. compute_status (item_state p)) ps = Inr xs \<and>
      (\<forall>(k, d) \<in> set ns. node_pods d = map (\<lambda>(p, x). (item_name p, x)) (filter (\<lambda>(p, x). node_key p = k) (zip ps xs))))"
proof -
  from assms obtain q where q: "rfold (add_pod (ask_node api n)) ps (0, []) = Inr (q, ns)" and r: "r = ni_region info" "m = n"
    unfolding namespaced_data_def prod.case rbind_eq_Inr by (elim exE conjE) (simp split: prod.splits)
  from pods_collected [OF q wf_dict_Nil] obtain xs where xs: "wf_dict ns" "fst ` set ns = node_key ` set ps"
    "list_all2 (\<lambda>p x. compute_status (item_state p) = Inr x) ps xs"
    "\<And>k. node_pods (node_at k ns) = node_pods (node_at k []) @ map (\<lambda>(p, x). (item_name p, x)) (filter (\<lambda>(p, x). node_key p = k) (zip ps xs))"
    by (elim conjE exE) simp
  have "node_pods d = map (\<lambda>(p, x). (item_name p, x)) (filter (\<lambda>(p, x). node_key p = k) (zip ps xs))" if "(k, d) \<in> set ns" for k d
  proof -
    have "dget ns k = Some d" using that xs(1) by (simp add: wf_dict_def)
    then show ?thesis using xs(4) [of k] by (simp add: node_at_def new_node_def)
  qed
  with xs r show ?thesis unfolding wf_dict_def rmap_Inr_iff by blast
qed

section \<open>The order in which the threads finish\<close>

lemma sort_key_sorted: "sorted (map f xs) \<Longrightarrow> sort_key f xs = xs"
  by (induction xs) (auto simp: insort_is_Cons)

lemma insort_map: "insort_key f (g x) (map g xs) = map g (insort_key (\<lambda>y. f (g y)) x xs)"
  by (induction xs) auto

lemma sort_map: "sort_key f (map g xs) = map g (sort_key (\<lambda>y. f (g y)) xs)"
  by (induction xs) (simp_all add: insort_map)

text \<open>Two dictionaries with the same entries have the same items in the order of the keys.\<close>

lemma sort_same:
  assumes "wf_dict d" and "wf_dict e" and "set d = set (e :: (string, 'v) dict)"
  shows "sort_key fst d = sort_key fst e"
proof (rule map_sorted_distinct_set_unique)
  show "inj_on fst (set (sort_key fst d) \<union> set (sort_key fst e))"
    using assms by (auto simp: wf_dict_def distinct_map)
  show "distinct (map fst (sort_key fst d))" "distinct (map fst (sort_key fst e))"
    using assms(1,2) by (auto simp: wf_dict_def distinct_map)
qed (use assms(3) in simp_all)

lemma set_of_gets: "wf_dict d \<Longrightarrow> set d = {(k, v). dget d k = Some v}"
  unfolding wf_dict_def by (simp add: set_eq_iff)

lemma sort_same_gets: "wf_dict d \<Longrightarrow> wf_dict e \<Longrightarrow> dget d = dget e \<Longrightarrow> sort_key fst d = sort_key fst (e :: (string, 'v) dict)"
  by (rule sort_same) (simp_all only: set_of_gets)

definition sorted_inside :: "string \<times> (string, nodes) dict \<Rightarrow> string \<times> (string, nodes) dict" where
  "sorted_inside = (\<lambda>(r, m). (r, sort_key fst m))"

lemma region_tables_inside: "region_tables (map sorted_inside rs) known = region_tables rs known"
  by (induction rs known rule: region_tables.induct)
    (auto simp: sorted_inside_def sort_key_sorted rbind_def split: sum.splits)

lemma tables_of_inside: "tables_of d = region_tables (sort_key fst (map sorted_inside d)) []"
proof -
  have "(\<lambda>y. fst (sorted_inside y)) = fst" by (auto simp: sorted_inside_def)
  then show ?thesis by (simp add: tables_of_def sort_map region_tables_inside)
qed

text \<open>What the data is made of.\<close>

definition entry_ok :: "(string \<times> string \<times> nodes) list \<Rightarrow> string \<Rightarrow> (string, nodes) dict option \<Rightarrow> bool" where
  "entry_ok l r e \<longleftrightarrow> (case e of
     None \<Rightarrow> \<forall>n x. (r, n, x) \<notin> set l
   | Some m \<Rightarrow> wf_dict m \<and> m \<noteq> [] \<and> (\<forall>n x. dget m n = Some x \<longleftrightarrow> (r, n, x) \<in> set l))"

definition made_of :: "(string \<times> string \<times> nodes) list \<Rightarrow> data \<Rightarrow> bool" where
  "made_of l d \<longleftrightarrow> wf_dict d \<and> (\<forall>r. entry_ok l r (dget d r))"

lemma entry_ok_other: "entry_ok l q e \<Longrightarrow> q \<noteq> r \<Longrightarrow> entry_ok (l @ [(r, n, x)]) q e"
  by (simp add: entry_ok_def split: option.splits)

lemma made_of_add:
  assumes "made_of l d" and "\<And>r' x'. (r', n, x') \<notin> set l"
  shows "made_of (l @ [(r, n, x)]) (add_data (r, n, x) d)"
proof -
  define m where "m = (case dget d r of None \<Rightarrow> [] | Some m \<Rightarrow> m)"
  have e: "entry_ok l q (dget d q)" and w: "wf_dict d" for q using assms(1) by (simp_all add: made_of_def)
  have m: "wf_dict m" "dget m k = Some y \<longleftrightarrow> (r, k, y) \<in> set l" for k y
    using e [of r] unfolding m_def by (simp_all add: entry_ok_def split: option.splits)
  have "dset n x m \<noteq> []" by (cases m) auto
  moreover have "dget (dset n x m) k = Some y \<longleftrightarrow> (r, k, y) \<in> set (l @ [(r, n, x)])" for k y
    using m(2) [of k y] assms(2) [of r y] by auto
  ultimately have "entry_ok (l @ [(r, n, x)]) r (Some (dset n x m))" using m(1) by (simp add: entry_ok_def)
  then have "entry_ok (l @ [(r, n, x)]) q (dget (dset r (dset n x m) d) q)" for q
    using entry_ok_other [OF e] by (cases "q = r") simp_all
  with w show ?thesis by (simp add: made_of_def add_data_def m_def)
qed

lemma made_of_all: "distinct (map (fst \<circ> snd) l) \<Longrightarrow> made_of l (fold add_data l [])"
proof (induction l rule: rev_induct)
  case Nil
  then show ?case by (simp add: made_of_def entry_ok_def)
next
  case (snoc t l)
  obtain r n x where t: "t = (r, n, x)" by (cases t)
  have "(r', n, x') \<notin> set l" for r' x' using snoc.prems by (force simp: t)
  with snoc show ?case by (simp add: t made_of_add)
qed

lemma made_of_tables:
  assumes "made_of l d" and "made_of l' d'" and "set l = set l'"
  shows "tables_of d = tables_of d'"
proof -
  have d: "wf_dict d" "wf_dict d'" using assms by (simp_all add: made_of_def)
  have one: "(r, sort_key fst m) \<in> set (map sorted_inside e')"
    if e: "made_of k e" "made_of k' e'" "set k = set k'" and m: "(r, m) \<in> set e" for k k' e e' r m
  proof -
    have "dget e r = Some m" using e(1) m by (simp add: made_of_def wf_dict_def)
    with e(1) have "entry_ok k r (Some m)" unfolding made_of_def by metis
    then have w: "wf_dict m" "m \<noteq> []" "\<And>n x. dget m n = Some x \<longleftrightarrow> (r, n, x) \<in> set k" by (simp_all add: entry_ok_def)
    obtain y m1 where "m = y # m1" using w(2) by (cases m) simp_all
    then have "dget m (fst y) = Some (snd y)" by (cases y) simp
    then obtain n x where "dget m n = Some x" by blast
    then have "(r, n, x) \<in> set k'" using w(3) e(3) by simp
    moreover have ok': "entry_ok k' r (dget e' r)" using e(2) by (simp add: made_of_def)
    ultimately obtain m' where m': "dget e' r = Some m'" by (cases "dget e' r") (auto simp: entry_ok_def)
    with ok' have w': "wf_dict m'" "\<And>n x. dget m' n = Some x \<longleftrightarrow> (r, n, x) \<in> set k'" by (simp_all add: entry_ok_def)
    have "dget m = dget m'"
    proof
      fix n
      show "dget m n = dget m' n"
        using w(3) [of n] w'(2) [of n] e(3) by (cases "dget m n"; cases "dget m' n") auto
    qed
    then have "sort_key fst m = sort_key fst m'" by (rule sort_same_gets [OF w(1) w'(1)])
    moreover have "(r, m') \<in> set e'" using m' by (rule map_of_SomeD)
    ultimately show ?thesis by (force simp: sorted_inside_def)
  qed
  have "set (map sorted_inside d) = set (map sorted_inside d')"
    using one [OF assms] one [OF assms(2,1) assms(3) [symmetric]] by (fastforce simp: sorted_inside_def)
  moreover have "map fst (map sorted_inside e) = map fst e" for e by (auto simp: sorted_inside_def)
  then have "wf_dict (map sorted_inside d)" "wf_dict (map sorted_inside d')" using d by (simp_all only: wf_dict_def)
  ultimately show ?thesis unfolding tables_of_inside by (metis sort_same)
qed

lemma listed_all: "set os = {..< length xs} \<Longrightarrow> set (map ((!) xs) os) = set xs"
  by (simp add: lessThan_atLeast0 nth_image)

lemma chosen_wf:
  assumes "chosen_namespaces st names = Inr nss"
  shows "wf_dict nss"
proof -
  from assms obtain cfg all where all: "get_namespaces cfg = Inr all" "nss = filter (\<lambda>(n, info). names = [] \<or> n \<in> set names) all"
    unfolding chosen_namespaces_def rbind_eq_Inr by (elim exE conjE) simp
  have "wf_dict all" using namespaces_wf [OF all(1)] by (rule conjunct1)
  then show ?thesis unfolding wf_dict_def all(2) by (rule distinct_map_filter)
qed

text \<open>C34 The tables do not depend on the order in which the threads of the namespaces finish: data written to shared
  dictionaries in any order is shown alike, and an error is the same error.\<close>

theorem tables_independent_of_order:
  assumes "chosen_namespaces st names = Inr nss" and "distinct o1" and "set o1 = {..< length nss}" and "distinct o2" and "set o2 = {..< length nss}"
  shows "generate_tables st api names o1 = generate_tables st api names o2"
proof (cases "rmap (namespaced_data st api) nss")
  case (Inl e)
  then show ?thesis by (simp add: generate_tables_def get_data_def assms(1))
next
  case (Inr rs)
  then have l: "list_all2 (\<lambda>x y. namespaced_data st api x = Inr y) nss rs" by (simp add: rmap_Inr_iff)
  then have len: "length rs = length nss" by (simp add: list_all2_lengthD)
  have names: "map (fst \<circ> snd) rs = dkeys nss"
  proof (rule nth_equalityI)
    fix i
    assume "i < length (map (fst \<circ> snd) rs)"
    with l len have "namespaced_data st api (nss ! i) = Inr (rs ! i)" using list_all2_nthD [OF l, of i] by simp
    then have "fst (snd (rs ! i)) = fst (nss ! i)" by (cases "nss ! i"; cases "rs ! i") (auto simp: namespaced_data_def rbind_eq_Inr)
    with \<open>i < _\<close> len show "map (fst \<circ> snd) rs ! i = dkeys nss ! i" by simp
  qed (simp add: len)
  have "wf_dict nss"
    by (rule chosen_wf [OF assms(1)])
  then have d: "distinct (map (fst \<circ> snd) rs)" by (simp add: names wf_dict_def)
  have m: "made_of (map ((!) rs) os) (fold add_data (map ((!) rs) os) [])" and s: "set (map ((!) rs) os) = set rs"
    if "distinct os" "set os = {..< length nss}" for os
  proof -
    show "set (map ((!) rs) os) = set rs" by (rule listed_all) (simp add: that(2) len)
    have "inj_on (\<lambda>i. fst (snd (rs ! i))) (set os)"
    proof (rule inj_onI)
      fix i j
      assume ij: "i \<in> set os" "j \<in> set os" "fst (snd (rs ! i)) = fst (snd (rs ! j))"
      then have "i < length rs" "j < length rs" using that(2) len by simp_all
      with ij(3) show "i = j" using nth_eq_iff_index_eq [OF d, of i j] by simp
    qed
    with that(1) have "distinct (map (\<lambda>i. fst (snd (rs ! i))) os)" by (simp add: distinct_map)
    then have "distinct (map (fst \<circ> snd) (map ((!) rs) os))" by (simp add: comp_def)
    then show "made_of (map ((!) rs) os) (fold add_data (map ((!) rs) os) [])" by (rule made_of_all)
  qed
  have "tables_of (fold add_data (map ((!) rs) o1) []) = tables_of (fold add_data (map ((!) rs) o2) [])"
    by (rule made_of_tables [OF m [OF assms(2,3)] m [OF assms(4,5)]]) (simp only: s [OF assms(2,3)] s [OF assms(4,5)])
  then show ?thesis by (simp add: generate_tables_def get_data_def assms(1) Inr)
qed

section \<open>The display\<close>

definition last_round :: "(nat \<Rightarrow> attempt) \<Rightarrow> (nat \<Rightarrow> bool) \<Rightarrow> nat \<Rightarrow> bool" where
  "last_round try_tables exit_set k \<longleftrightarrow> try_tables k = Interrupted \<or> exit_set k"

definition shown_until :: "(nat \<Rightarrow> attempt) \<Rightarrow> nat \<Rightarrow> nat \<Rightarrow> attempt list" where
  "shown_until try_tables k j = map try_tables [k ..< j] @ (if try_tables j = Interrupted then [] else [try_tables j])"

lemma shown_until_step: "k < j \<Longrightarrow> shown_until t k j = t k # shown_until t (Suc k) j"
  by (simp add: shown_until_def upt_conv_Cons)

lemma status_loop_step:
  "last_round t e k \<Longrightarrow> status_loop t e k = Some (shown_until t k k)"
  "\<not> last_round t e k \<Longrightarrow> status_loop t e k = Option.bind (status_loop t e (Suc k)) (\<lambda>l. Some (t k # l))"
  by (subst status_loop.simps, auto simp: last_round_def shown_until_def split: attempt.splits)+

lemma status_loop_returns:
  assumes "k \<le> j" and "last_round t e j" and "\<And>i. k \<le> i \<Longrightarrow> i < j \<Longrightarrow> \<not> last_round t e i"
  shows "status_loop t e k = Some (shown_until t k j)"
  using assms
proof (induction "j - k" arbitrary: k)
  case 0
  then show ?case by (simp add: status_loop_step(1))
next
  case (Suc n)
  then have "k < j" by simp
  with Suc have "status_loop t e (Suc k) = Some (shown_until t (Suc k) j)" by simp
  with Suc.prems(3) [of k] \<open>k < j\<close> show ?case by (simp add: status_loop_step(2) shown_until_step)
qed

lemma status_loop_last:
  assumes "status_loop t e k = Some l"
  shows "\<exists>j \<ge> k. last_round t e j"
proof (rule status_loop.raw_induct [where P = "\<lambda>t e k l. \<exists>j \<ge> k. last_round t e j", OF _ assms])
  fix loop and t :: "nat \<Rightarrow> attempt" and e k l
  assume IH: "\<And>t e k l. loop t e k = Some l \<Longrightarrow> \<exists>j \<ge> k. last_round t e j"
    and step: "(case t k of
        Tables x \<Rightarrow> if e k then Some [Tables x] else Option.bind (loop t e (Suc k)) (\<lambda>l. Some (Tables x # l))
      | Traceback x \<Rightarrow> if e k then Some [Traceback x] else Option.bind (loop t e (Suc k)) (\<lambda>l. Some (Traceback x # l))
      | Interrupted \<Rightarrow> Some []) = Some l"
  show "\<exists>j \<ge> k. last_round t e j"
  proof (cases "last_round t e k")
    case False
    with step obtain l' where "loop t e (Suc k) = Some l'"
      by (cases "t k") (auto simp: last_round_def bind_eq_Some_conv)
    from IH [OF this] show ?thesis by (meson Suc_leD)
  qed blast
qed

text \<open>The display of the status ends with the first round that is interrupted or in whose wait Ctrl-C is pressed, and never without
  one: an exception of the tables is shown and does not end it.\<close>

theorem status_ends_exactly:
  "status_loop t e 0 = Some l \<longleftrightarrow>
    (\<exists>j. last_round t e j \<and> \<not> (\<exists>i < j. last_round t e i) \<and> l = shown_until t 0 j)"
proof
  assume s: "status_loop t e 0 = Some l"
  then have "\<exists>j. last_round t e j" using status_loop_last by blast
  then obtain j where j: "last_round t e j" "\<And>i. i < j \<Longrightarrow> \<not> last_round t e i" using exists_least_iff [of "last_round t e"] by blast
  then have "status_loop t e 0 = Some (shown_until t 0 j)" by (intro status_loop_returns) simp_all
  with s have "l = shown_until t 0 j" by simp
  with j show "\<exists>j. last_round t e j \<and> \<not> (\<exists>i < j. last_round t e i) \<and> l = shown_until t 0 j" by blast
next
  assume "\<exists>j. last_round t e j \<and> \<not> (\<exists>i < j. last_round t e i) \<and> l = shown_until t 0 j"
  then show "status_loop t e 0 = Some l" using status_loop_returns [of 0] by blast
qed

section \<open>Witnesses\<close>

definition crashing :: pod_state where
  "crashing = \<lparr>phase = Some ''Running'', conditions = [\<lparr>cond_type = ''ContainersReady'', cond_status = ''False''\<rparr>],
     containers = [\<lparr>is_ready = False, state_of = Some \<lparr>waiting_reason = Some (Some ''CrashLoopBackOff''), terminated_reason = None\<rparr>\<rparr>]\<rparr>"

lemma status_meaning_witness: "compute_status (Some crashing) = Inr (Some ''CrashLoopBackOff'')"
proof -
  have "\<forall>c \<in> set (containers crashing). state_of c \<noteq> None" by (simp add: crashing_def)
  from status_meaning [OF this] show ?thesis by (simp add: crashing_def told_reason_def List.map_filter_simps)
qed

abbreviation pending :: pod_state where
  "pending \<equiv> \<lparr>phase = Some ''Pending'', conditions = [], containers = []\<rparr>"

definition sample_items :: "pod_item list" where
  "sample_items = [\<lparr>on_node = Some ''a'', item_name = ''compute-0'', item_state = Some crashing\<rparr>,
     \<lparr>on_node = None, item_name = ''new'', item_state = Some pending\<rparr>]"

definition sample_reply :: "nat \<Rightarrow> string \<Rightarrow> node_reply" where
  "sample_reply q k = Node_status [(''cpu'', ''4''), (''memory'', ''8Gi'')] [\<lparr>cond_type = ''Ready'', cond_status = ''True''\<rparr>]"

definition sample_status :: status_api where
  "sample_status = \<lparr>load_kube = (\<lambda>c. Inr ()), pods_of = (\<lambda>n. Inr sample_items), ask_node = (\<lambda>n. sample_reply)\<rparr>"

lemma sample_pods: "rfold (add_pod sample_reply) sample_items (0, []) = Inr (1,
    [(''a'', \<lparr>capacity = [(''cpu'', ''4''), (''memory'', ''8Gi'')], node_ready = True, node_pods = [(''compute-0'', Some ''CrashLoopBackOff'')]\<rparr>),
     (''unknown'', \<lparr>capacity = [], node_ready = False, node_pods = [(''new'', Some ''Pending'')]\<rparr>)])"
  by code_simp

abbreviation us_namespace :: namespace_info where
  "us_namespace \<equiv> \<lparr>ni_region = ''us'', ni_id = PInt 1, ni_target = PNone, ni_warmup = PInt 0, ni_instances = PInt 1\<rparr>"

lemma pods_listed_once_witness:
  "\<exists>r m ns. namespaced_data sample_site sample_status (''us'', us_namespace) = Inr (r, m, ns) \<and> distinct (dkeys ns) \<and>
     fst ` set ns = {''a'', ''unknown''}"
proof -
  have ps: "pods_of sample_status ''us'' = Inr sample_items" by (simp add: sample_status_def)
  have k: "node_key ` set sample_items = {''a'', ''unknown''}" by (simp add: sample_items_def node_key_def)
  have "\<exists>x. namespaced_data sample_site sample_status (''us'', us_namespace) = Inr x"
    by (simp add: namespaced_data_def kube_config_def sample_contexts_found sample_status_def sample_pods)
  then obtain r m ns where d: "namespaced_data sample_site sample_status (''us'', us_namespace) = Inr (r, m, ns)" by (metis prod_cases3)
  show ?thesis using pods_listed_once [OF d ps] unfolding k
    by (intro exI [of _ r] exI [of _ m] exI [of _ ns] conjI d) (elim conjE, assumption)+
qed

lemma chosen_sample: "chosen_namespaces sample_site [] = Inr sample_namespaces"
  by (simp add: chosen_namespaces_def sample_site_def sample_config_def get_main_config_def fill_regions_def find_context_def str_in_def
      get_namespaces_def regions_of_def region_namespace_def sample_region_def fill_context_def sample_namespaces_def opt_get_def)

lemma tables_independent_of_order_witness:
  "generate_tables sample_site sample_status [] [0, 1, 2] = generate_tables sample_site sample_status [] [2, 0, 1] \<and>
   chosen_namespaces sample_site [] = Inr sample_namespaces"
proof -
  have "set [0, 1, 2] = {..< length sample_namespaces}" "set [2, 0, 1] = {..< length sample_namespaces}"
    by (auto simp: sample_namespaces_def)
  from tables_independent_of_order [OF chosen_sample _ this(1) _ this(2)] chosen_sample show ?thesis by simp
qed

end
