(* ===== verification/Monitor_Logs.thy ===== *)
theory Monitor_Logs
  imports Monitor_Status
begin

text \<open>
  The command line of the monitor and its logs: which logs the arguments ask for, and when the command ends.
\<close>

section \<open>Waiting for the logs\<close>

lemma log_run_ends: "\<exists>f. log_steps callback (print_logs streams s) f \<and> \<not> (\<exists>g. log_step callback f g)"
  using lf.some_end by blast

text \<open>Showing the logs ends without \<^verbatim>\<open>--follow\<close>; with it, streams that can be read to their end let it end too, but when no
  log was found it waits until Ctrl-C.\<close>

theorem logs_end_or_wait:
  assumes "found_logs st api a names = Inr ls" and "\<forall>l \<in> set ls. clean (log_stream l)"
  shows "(\<exists>r. logs_end st api a names True stopped r) \<longleftrightarrow> stopped \<or> \<not> follow_logs a \<or> ls \<noteq> []"
proof -
  let ?c = "\<lambda>i l u. Inr () :: unit res" and ?s = "map log_stream ls"
  have end_iff: "(\<exists>r. logs_end st api a names True stopped r) \<longleftrightarrow> (\<exists>f. log_steps ?c (print_logs ?s ()) f \<and>
      (if follow_logs a then exit_event f \<or> stopped else \<not> (\<exists>g. log_step ?c f g)))"
    by (simp add: logs_end_def assms(1))
  obtain f where f: "log_steps ?c (print_logs ?s ()) f" "\<not> (\<exists>g. log_step ?c f g)" using log_run_ends [of ?c ?s "()"] by (elim exE conjE)
  have "stuck f" using f(2) log_progress by blast
  moreover have "\<forall>r \<in> set (readers f). clean_reader r"
    by (rule clean_reachable [OF _ _ f(1)]) (use assms(2) in simp_all)
  ultimately have "\<forall>r \<in> set (readers f). r = Ended" by (rule clean_stuck_ended)
  with exit_event_iff [OF f(1)] have set: "exit_event f \<longleftrightarrow> ls \<noteq> []" by simp
  have "\<not> exit_event g" if "ls = []" "log_steps ?c (print_logs ?s ()) g" for g using exit_event_iff [OF that(2)] that(1) by simp
  with f set show ?thesis unfolding end_iff by (cases "ls = []") auto
qed

section \<open>The command line\<close>

definition namespaces_option :: option_spec where
  "namespaces_option = \<lparr>option_names = [''--namespaces'', ''-ns''], dest = ''namespaces'', action = Many, choices = []\<rparr>"

definition logs_parser :: parser where
  "logs_parser = \<lparr>options = [help_option, namespaces_option,
     \<lparr>option_names = [''--deployment'', ''-d''], dest = ''deployment'', action = Many, choices = [''compute'', ''xactserver'', ''pageserver'']\<rparr>,
     \<lparr>option_names = [''--pod'', ''-p''], dest = ''pod'', action = Many, choices = []\<rparr>,
     \<lparr>option_names = [''--follow'', ''-f''], dest = ''follow'', action = Flag, choices = []\<rparr>,
     \<lparr>option_names = [''--all'', ''-a''], dest = ''all'', action = Flag, choices = []\<rparr>,
     \<lparr>option_names = [''--lines'', ''-l''], dest = ''lines'', action = Number, choices = []\<rparr>], positionals = []\<rparr>"

definition status_parser :: parser where
  "status_parser = \<lparr>options = [help_option, namespaces_option,
     \<lparr>option_names = [''--refresh'', ''-n''], dest = ''refresh'', action = Number, choices = []\<rparr>], positionals = []\<rparr>"

definition monitor_commands :: "(string \<times> parser \<times> args) list" where
  "monitor_commands = [(''logs'', logs_parser, []), (''status'', status_parser, [(''refresh'', Num 1)])]"

text \<open>
  \<^verbatim>\<open>--all\<close> and \<^verbatim>\<open>--lines\<close> exclude each other. Two cases are left out: argparse does not see the conflict when
  \<^verbatim>\<open>--lines\<close> repeats its default, and with \<^verbatim>\<open>--help\<close> the outcome depends on the order of the arguments.
\<close>

definition both_given :: "string list \<Rightarrow> bool" where
  "both_given argv = (\<forall>d \<in> {''all'', ''lines''}.
     list_ex (\<lambda>s. case classify logs_parser s of Opt opt m v \<Rightarrow> dest opt = d | _ \<Rightarrow> False) argv)"

definition monitor_cli :: "string list \<Rightarrow> (string \<times> args) parsed" where
  "monitor_cli argv = (case parse_command \<lparr>options = [help_option], positionals = []\<rparr> monitor_commands argv of
     Parsed (c, ns) \<Rightarrow>
       if c = ''logs'' \<and> dget ns ''all'' \<noteq> None \<and> dget ns ''lines'' \<noteq> None
       then (if dget ns ''lines'' = Some (Num 50) then Outside else Exits 2)
       else Parsed (c, ns)
   | Exits e \<Rightarrow> if e = 0 \<and> both_given argv then Outside else Exits e
   | Outside \<Rightarrow> Outside)"

definition texts_of :: "args \<Rightarrow> string \<Rightarrow> string list option" where
  "texts_of ns d = (case dget ns d of Some (Texts l) \<Rightarrow> Some l | _ \<Rightarrow> None)"

text \<open>The names to choose; a missing option and one without values both choose everything.\<close>

definition names_of :: "args \<Rightarrow> string list" where
  "names_of ns = (case texts_of ns ''namespaces'' of None \<Rightarrow> [] | Some l \<Rightarrow> l)"

definition logs_args_of :: "args \<Rightarrow> logs_args" where
  "logs_args_of ns = \<lparr>deployments = texts_of ns ''deployment'', pods_given = texts_of ns ''pod'',
     follow_logs = (dget ns ''follow'' = Some (Bool True)), all_lines = (dget ns ''all'' = Some (Bool True)),
     line_count = (case dget ns ''lines'' of Some (Num i) \<Rightarrow> i | _ \<Rightarrow> 50)\<rparr>"

text \<open>By default the logs of the deployments \<^verbatim>\<open>compute\<close> and \<^verbatim>\<open>xactserver\<close> of every namespace of the configuration are
  read, the last fifty lines of each, in the order of the namespaces and from the first pod of each deployment.\<close>

theorem default_logs:
  assumes "monitor_cli [''logs''] = Parsed (c, ns)" and "chosen_namespaces st [] = Inr nss"
    and "\<And>n i. (n, i) \<in> set nss \<Longrightarrow> \<exists>ctx. kube_config st (load_kube_config api) (ni_region i) = Inr ctx"
    and "\<And>n d. \<exists>sel. read_deployment api n d = Inr sel \<and> get_pods (list_pods api) n (case sel of None \<Rightarrow> [] | Some l \<Rightarrow> l) [] = Inr (first n d # others n d)"
    and "\<And>n p. read_log api n p False (Some 50) = Inr (body n p)"
  shows "found_logs st api (logs_args_of ns) (names_of ns) = Inr
    [\<lparr>log_namespace = n, log_name = d, log_stream = body n (first n d)\<rparr>. n \<leftarrow> dkeys nss, d \<leftarrow> [''compute'', ''xactserver'']]"
proof -
  have "monitor_cli [''logs''] = Parsed (''logs'', [])" by code_simp
  with assms(1) have ns: "ns = []" by simp
  define a where "a = logs_args_of ns"
  have a: "deployments a = None" "pods_given a = None" "\<not> follow_logs a" "\<not> all_lines a" "line_count a = 50"
    by (simp_all add: a_def logs_args_of_def ns texts_of_def)
  have names: "names_of ns = []" by (simp add: ns names_of_def texts_of_def)
  have targets: "log_targets a = [Of_deployment ''compute'', Of_deployment ''xactserver'']"
    by (simp add: log_targets_def a)
  have one: "get_named_logs st api a (n, ni_region i, Of_deployment d) =
      Inr (Some \<lparr>log_namespace = n, log_name = d, log_stream = body n (first n d)\<rparr>)"
    if "(n, i) \<in> set nss" and "d \<noteq> []" for n i d
  proof -
    from assms(3) [OF that(1)] obtain ctx where "kube_config st (load_kube_config api) (ni_region i) = Inr ctx" by blast
    moreover obtain sel where "read_deployment api n d = Inr sel"
      "get_pods (list_pods api) n (case sel of None \<Rightarrow> [] | Some l \<Rightarrow> l) [] = Inr (first n d # others n d)" using assms(4) by blast
    ultimately show ?thesis using that(2) by (simp add: get_named_logs_def assms(5) a)
  qed
  define g where "g = (\<lambda>(n, r :: string, t). case t of
      Of_deployment d \<Rightarrow> Some \<lparr>log_namespace = n, log_name = d, log_stream = body n (first n d)\<rparr> | Of_pod p \<Rightarrow> None)"
  have "rmap (get_named_logs st api a) (log_tasks a nss) = Inr (map g (log_tasks a nss))"
    by (rule rmap_all_Inr) (auto simp: log_tasks_def targets g_def one)
  moreover have "concat (map (case_option [] (\<lambda>l. [l])) (map g (log_tasks a nss))) =
      [\<lparr>log_namespace = n, log_name = d, log_stream = body n (first n d)\<rparr>. n \<leftarrow> dkeys nss, d \<leftarrow> [''compute'', ''xactserver'']]"
    unfolding log_tasks_def targets by (induction nss) (auto simp: g_def)
  ultimately show ?thesis by (simp add: found_logs_def a_def [symmetric] names assms(2))
qed

section \<open>Witnesses for the logs\<close>

definition sample_logs :: logs_api where
  "sample_logs = \<lparr>load_kube_config = (\<lambda>c. Inr ()), read_deployment = (\<lambda>n d. Inr None),
     list_pods = (\<lambda>n s. Inr [\<lparr>pod_phase = Some ''Running'', pod_name = Some ''p''\<rparr>]), read_log = (\<lambda>n p f l. Inr [Inr ''line''])\<rparr>"

lemma sample_kube: "(n, i) \<in> set sample_namespaces \<Longrightarrow> \<exists>ctx. kube_config sample_site (load_kube_config sample_logs) (ni_region i) = Inr ctx"
  by (auto simp: sample_namespaces_def kube_config_def sample_logs_def sample_site_def get_context_def get_main_config_def
      fill_regions_def find_context_def sample_config_def str_in_def regions_of_def sample_region_def fill_context_def)

lemma default_logs_witness:
  "\<exists>ls. found_logs sample_site sample_logs (logs_args_of []) [] = Inr ls \<and> map log_namespace ls = [''global'', ''global'', ''us'', ''us'', ''eu'', ''eu'']"
proof -
  have "monitor_cli [''logs''] = Parsed (''logs'', [])" by code_simp
  from default_logs [OF this chosen_sample sample_kube, where first = "\<lambda>n d. ''p''" and others = "\<lambda>n d. []" and body = "\<lambda>n p. [Inr ''line'']"]
  have "found_logs sample_site sample_logs (logs_args_of []) (names_of []) = Inr
    [\<lparr>log_namespace = n, log_name = d, log_stream = [Inr ''line'']\<rparr>. n \<leftarrow> dkeys sample_namespaces, d \<leftarrow> [''compute'', ''xactserver'']]"
    by (simp add: sample_logs_def get_pods_def)
  then show ?thesis by (simp add: names_of_def texts_of_def sample_namespaces_def)
qed

lemma logs_end_or_wait_witness:
  "\<exists>ls r. found_logs sample_site sample_logs (logs_args_of [(''follow'', Bool True)]) [] = Inr ls \<and>
     logs_end sample_site sample_logs (logs_args_of [(''follow'', Bool True)]) [] True False r"
proof -
  let ?a = "logs_args_of [(''follow'', Bool True)]"
  have "rmap (get_named_logs sample_site sample_logs ?a) ts = Inr (map (\<lambda>(n, r, t). Some \<lparr>log_namespace = n,
      log_name = (case t of Of_deployment d \<Rightarrow> d | Of_pod q \<Rightarrow> q), log_stream = [Inr ''line'']\<rparr>) ts)"
    if "\<And>n r t. (n, r, t) \<in> set ts \<Longrightarrow> (\<exists>ctx. kube_config sample_site (load_kube_config sample_logs) r = Inr ctx) \<and> (\<exists>d. t = Of_deployment d \<and> d \<noteq> [])" for ts
    by (rule rmap_all_Inr) (use that in \<open>fastforce simp: get_named_logs_def sample_logs_def get_pods_def\<close>)
  note all = this
  have ts: "log_targets ?a = [Of_deployment ''compute'', Of_deployment ''xactserver'']"
    by (simp add: log_targets_def logs_args_of_def texts_of_def)
  obtain ls where ls: "found_logs sample_site sample_logs ?a [] = Inr ls" "ls \<noteq> []" "\<forall>l \<in> set ls. log_stream l = [Inr ''line'']"
  proof -
    have "rmap (get_named_logs sample_site sample_logs ?a) (log_tasks ?a sample_namespaces) = Inr (map (\<lambda>(n, r, t). Some \<lparr>log_namespace = n,
      log_name = (case t of Of_deployment d \<Rightarrow> d | Of_pod q \<Rightarrow> q), log_stream = [Inr ''line'']\<rparr>) (log_tasks ?a sample_namespaces))"
      by (rule all) (use sample_kube in \<open>auto simp: log_tasks_def ts\<close>)
    then show ?thesis by (intro that) (auto simp: found_logs_def chosen_sample log_tasks_def ts sample_namespaces_def)
  qed
  have "\<forall>l \<in> set ls. clean (log_stream l)" using ls(3) by (simp add: clean_def)
  from logs_end_or_wait [OF ls(1) this, of False] ls(1,2) show ?thesis by blast
qed

end
