(* ===== verification/Kubectl.thy ===== *)
theory Kubectl
  imports Monitor_Status Argparse
begin

text \<open>
  \<^verbatim>\<open>tools/kubectl.py\<close>: one kubectl command for every chosen namespace, on a thread pool. Unlike the
  other tools it takes any number of positional arguments, and \<^verbatim>\<open>--\<close> before arguments for kubectl.
\<close>

section \<open>The command line\<close>

definition kubectl_parser :: parser where
  "kubectl_parser = \<lparr>options = [help_option,
     \<lparr>option_names = [''--namespaces'', ''-n''], dest = ''namespaces'', action = Many, choices = []\<rparr>,
     \<lparr>option_names = [''--dry-run''], dest = ''dry_run'', action = Flag, choices = []\<rparr>], positionals = []\<rparr>"

text \<open>
  The positional arguments take the first group of arguments that are no options, together with
  everything behind \<^verbatim>\<open>--\<close> when that follows at once; a later group is left over. \<open>rest\<close> is what stands behind
  the first \<^verbatim>\<open>--\<close>. Whether a single \<^verbatim>\<open>--\<close> at the end may be left over is outside.
\<close>

fun consume_star :: "string list option \<Rightarrow> bool \<Rightarrow> bool \<Rightarrow> token list \<Rightarrow> args \<Rightarrow> args parsed" where
  "consume_star rest taken extra [] ns = (case rest of
     None \<Rightarrow> if extra then Exits 2 else Parsed (if taken then ns else dset ''kubectl_args'' (Texts []) ns)
   | Some l \<Rightarrow> if taken then (if l = [] then Outside else Exits 2)
       else if extra then Exits 2 else Parsed (dset ''kubectl_args'' (Texts l) ns))"
| "consume_star rest taken extra (Plain s # ts) ns =
     (if taken then consume_star rest True True ts ns
      else let vs = s # map arg_text (takeWhile is_arg ts); ts' = dropWhile is_arg ts
        in if ts' = [] \<and> rest \<noteq> None
           then consume_star None True extra [] (dset ''kubectl_args'' (Texts (vs @ the rest)) ns)
           else consume_star rest True extra ts' (dset ''kubectl_args'' (Texts vs) ns))"
| "consume_star rest taken extra (Unknown # ts) ns = consume_star rest taken True ts ns"
| "consume_star rest taken extra (Ambiguous # ts) ns = Exits 2"
| "consume_star rest taken extra (Opt opt m (Some v) # ts) ns =
     (if action opt = Many then consume_star rest taken extra ts (dset (dest opt) (Texts [v]) ns)
      else if take 2 m = ''--'' then Exits 2 else Outside)"
| "consume_star rest taken extra (Opt opt m None # ts) ns = (case action opt of
     Help \<Rightarrow> Exits 0
   | Many \<Rightarrow> consume_star rest taken extra (dropWhile is_arg ts) (dset (dest opt) (Texts (map arg_text (takeWhile is_arg ts))) ns)
   | _ \<Rightarrow> consume_star rest taken extra ts (dset (dest opt) (Bool True) ns))"

record kubectl_args =
  kubectl_words :: "string list"
  of_namespaces :: "string list"
  kubectl_dry_run :: bool

definition kubectl_args_of :: "args \<Rightarrow> kubectl_args" where
  "kubectl_args_of ns = \<lparr>kubectl_words = (case dget ns ''kubectl_args'' of Some (Texts l) \<Rightarrow> l | _ \<Rightarrow> []),
     of_namespaces = (case dget ns ''namespaces'' of Some (Texts l) \<Rightarrow> l | _ \<Rightarrow> []),
     kubectl_dry_run = (dget ns ''dry_run'' = Some (Bool True))\<rparr>"

definition kubectl_cli :: "string list \<Rightarrow> kubectl_args parsed" where
  "kubectl_cli argv =
     (let ts = map (classify kubectl_parser) (takeWhile (\<lambda>s. s \<noteq> ''--'') argv);
          rest = (case dropWhile (\<lambda>s. s \<noteq> ''--'') argv of [] \<Rightarrow> None | _ # l \<Rightarrow> Some l)
      in if Ambiguous \<in> set ts then Exits 2
         else case consume_star rest False False ts [] of
           Parsed ns \<Rightarrow> Parsed (kubectl_args_of ns)
         | Exits e \<Rightarrow> Exits e
         | Outside \<Rightarrow> Outside)"

section \<open>Running kubectl\<close>

definition kubectl_command :: "string \<Rightarrow> string \<Rightarrow> string list \<Rightarrow> string list" where
  "kubectl_command namespace ctx ws = [''kubectl'', ''--namespace'', namespace, ''--context'', ctx] @ ws"

definition run_kubectl :: "site \<Rightarrow> kubectl_args \<Rightarrow> string \<times> namespace_info \<Rightarrow> prog" where
  "run_kubectl st a = (\<lambda>(n, info). case get_context (contexts st) (yaml st) (ni_region info) of
     Inl e \<Rightarrow> Fail e
   | Inr ctx \<Rightarrow> run_subprocess (kubectl_command n ctx (kubectl_words a)) (kubectl_dry_run a) True Ret)"

text \<open>How the script may end; \<open>ls\<close> are the commands of the tasks, as in \<open>phases_run\<close>.\<close>

definition kubectl_main :: "site \<Rightarrow> string list \<Rightarrow> (nat \<times> event) list list \<Rightarrow> exn option \<Rightarrow> bool" where
  "kubectl_main st argv ls r = (case kubectl_cli argv of
     Outside \<Rightarrow> False
   | Exits e \<Rightarrow> ls = [] \<and> r = Some (SystemExit e)
   | Parsed a \<Rightarrow> (case chosen_namespaces st (of_namespaces a) of
       Inl e \<Rightarrow> ls = [] \<and> r = Some e
     | Inr nss \<Rightarrow> phases_run [Submit (length nss) (map (run_kubectl st a) nss)] ls r))"

section \<open>Its command lines\<close>

lemma kubectl_plain: "list_all (\<lambda>n. n = [] \<or> hd n \<noteq> CHR ''-'') ns \<Longrightarrow> map (classify kubectl_parser) ns = map Plain ns"
  by (induction ns) (simp_all add: classify_plain)

lemma plain_groups:
  "takeWhile is_arg (map Plain ns) = map Plain ns" "dropWhile is_arg (map Plain ns) = []" "map (arg_text \<circ> Plain) ns = ns"
  by (induction ns) simp_all

lemma kubectl_options:
  "classify kubectl_parser ''-n'' = Opt \<lparr>option_names = [''--namespaces'', ''-n''], dest = ''namespaces'', action = Many, choices = []\<rparr> ''-n'' None"
  "classify kubectl_parser ''--dry-run'' = Opt \<lparr>option_names = [''--dry-run''], dest = ''dry_run'', action = Flag, choices = []\<rparr> ''--dry-run'' None"
  by code_simp+

lemma before_dashes: "list_all (\<lambda>n. n = [] \<or> hd n \<noteq> CHR ''-'') ns \<Longrightarrow> takeWhile (\<lambda>s. s \<noteq> ''--'') (ns @ ''--'' # ws) = ns \<and>
    dropWhile (\<lambda>s. s \<noteq> ''--'') (ns @ ''--'' # ws) = ''--'' # ws"
  by (induction ns) auto

lemma consume_plain:
  "consume_star (Some ws) False False (map Plain xs) ns = Parsed (dset ''kubectl_args'' (Texts (xs @ ws)) ns)"
  by (cases xs) (simp_all add: plain_groups)

lemma kubectl_words_kept:
  assumes "list_all (\<lambda>n. n = [] \<or> hd n \<noteq> CHR ''-'') xs"
  shows "kubectl_cli ((if d then [''--dry-run''] else []) @ ''-n'' # xs @ ''--'' # ws) =
      Parsed \<lparr>kubectl_words = ws, of_namespaces = xs, kubectl_dry_run = d\<rparr>"
    and "kubectl_cli ((if d then [''--dry-run''] else []) @ xs @ ''--'' # ws) =
      Parsed \<lparr>kubectl_words = xs @ ws, of_namespaces = [], kubectl_dry_run = d\<rparr>"
  by (cases d; simp add: kubectl_cli_def Let_def kubectl_options kubectl_plain [OF assms] plain_groups kubectl_args_of_def image_iff
      before_dashes [OF assms, THEN conjunct1] before_dashes [OF assms, THEN conjunct2] consume_plain)+

text \<open>Words on both sides of \<^verbatim>\<open>-n\<close> are refused.\<close>

lemma kubectl_two_groups:
  assumes "list_all (\<lambda>n. n = [] \<or> hd n \<noteq> CHR ''-'') (w # ns)" and "ws \<noteq> []"
  shows "kubectl_cli (w # ''-n'' # ns @ ''--'' # ws) = Exits 2"
proof -
  have w: "w \<noteq> ''--''" "classify kubectl_parser w = Plain w" using assms(1) by (auto simp: classify_plain)
  have ns: "list_all (\<lambda>n. n = [] \<or> hd n \<noteq> CHR ''-'') ns" using assms(1) by simp
  show ?thesis
    using assms(2) w(1) by (simp add: kubectl_cli_def Let_def kubectl_options plain_groups image_iff w(2) kubectl_plain [OF ns]
      before_dashes [OF ns, THEN conjunct1] before_dashes [OF ns, THEN conjunct2])
qed

section \<open>What is run\<close>

lemma kubectl_task_runs:
  "runs (run_kubectl st a (n, info)) es r \<longleftrightarrow> (case get_context (contexts st) (yaml st) (ni_region info) of
     Inl e \<Rightarrow> es = [] \<and> r = Some e
   | Inr ctx \<Rightarrow> if kubectl_dry_run a then es = [] \<and> r = None
       else \<exists>rc. es = [(kubectl_command n ctx (kubectl_words a), rc)] \<and>
         r = (case rc of None \<Rightarrow> Some (OSError ''kubectl'') | Some k \<Rightarrow> if k = 0 then None
           else Some (CalledProcessError (kubectl_command n ctx (kubectl_words a)))))"
proof (cases "get_context (contexts st) (yaml st) (ni_region info)")
  case (Inr ctx)
  let ?c = "kubectl_command n ctx (kubectl_words a)"
  have "program ?c = ''kubectl''" by (simp add: program_def kubectl_command_def)
  then have "runs (after ?c True Ret rc) es' r \<longleftrightarrow> es' = [] \<and> r = (case rc of None \<Rightarrow> Some (OSError ''kubectl'')
      | Some k \<Rightarrow> if k = 0 then None else Some (CalledProcessError ?c))" for rc es'
    by (cases rc) (simp_all add: after_def)
  with Inr show ?thesis by (simp add: run_kubectl_def run_subprocess_def runs_Exec)
qed (simp add: run_kubectl_def)

lemma kubectl_main_runs:
  assumes "kubectl_cli argv = Parsed a" and "chosen_namespaces st (of_namespaces a) = Inr nss" and "kubectl_main st argv ls r"
  shows "if nss = [] then ls = [] \<and> r = Some no_workers
    else r = None \<and> (\<exists>l. ls = [l] \<and> fst ` set l \<subseteq> {..< length nss} \<and> (\<forall>i < length nss. map fst (own i l) =
      (case get_context (contexts st) (yaml st) (ni_region (snd (nss ! i))) of
        Inl e \<Rightarrow> []
      | Inr ctx \<Rightarrow> if kubectl_dry_run a then [] else [kubectl_command (fst (nss ! i)) ctx (kubectl_words a)])))"
proof (cases "nss = []")
  case True
  with assms show ?thesis by (simp add: kubectl_main_def)
next
  case False
  from assms have "phases_run [Submit (length nss) (map (run_kubectl st a) nss)] ls r" by (simp add: kubectl_main_def)
  with False obtain l where l: "ls = [l]" "pool_run (length nss) (map (run_kubectl st a) nss) l" "r = None" by auto
  have "map fst (own i l) = (case get_context (contexts st) (yaml st) (ni_region (snd (nss ! i))) of
      Inl e \<Rightarrow> [] | Inr ctx \<Rightarrow> if kubectl_dry_run a then [] else [kubectl_command (fst (nss ! i)) ctx (kubectl_words a)])"
    if "i < length nss" for i
  proof -
    obtain n info where n: "nss ! i = (n, info)" by force
    from pool_run_complete [OF l(2), of i] that obtain x where "runs (run_kubectl st a (n, info)) (own i l) x" by (auto simp: n)
    then show ?thesis unfolding kubectl_task_runs by (auto simp: n split: sum.splits if_splits)
  qed
  moreover have "fst ` set l \<subseteq> {..< length nss}" using pool_run_tasks [OF l(2)] by auto
  ultimately show ?thesis using False l by simp
qed

text \<open>C39 Every chosen namespace with a known context gets the command exactly once, in its context (and never in a dry run), and the
  script ends normally however the commands fail, a namespace without a context included; it is an error only if no namespace was chosen.\<close>

theorem kubectl_everywhere:
  assumes "kubectl_cli argv = Parsed a" and "chosen_namespaces st (of_namespaces a) = Inr nss" and "kubectl_main st argv ls r"
  shows "if nss = [] then ls = [] \<and> r = Some no_workers
    else r = None \<and> (\<exists>l. ls = [l] \<and> fst ` set l \<subseteq> {..< length nss} \<and> (\<forall>i < length nss. map fst (own i l) =
      (case get_context (contexts st) (yaml st) (ni_region (snd (nss ! i))) of
        Inl e \<Rightarrow> []
      | Inr ctx \<Rightarrow> if kubectl_dry_run a then [] else [kubectl_command (fst (nss ! i)) ctx (kubectl_words a)])))"
  using kubectl_main_runs [OF assms] .

lemma kubectl_everywhere_witness:
  "\<exists>l. kubectl_main sample_site [''get'', ''pods''] [l] None \<and> map fst (own 1 l) =
     [[''kubectl'', ''--namespace'', ''us'', ''--context'', ''neon.us.io'', ''get'', ''pods'']]"
proof -
  let ?a = "\<lparr>kubectl_words = [''get'', ''pods''], of_namespaces = [], kubectl_dry_run = False\<rparr>"
  have a: "kubectl_cli [''get'', ''pods''] = Parsed ?a" by code_simp
  have c: "chosen_namespaces sample_site (of_namespaces ?a) = Inr sample_namespaces" by (simp add: chosen_sample)
  obtain ls r where "phases_run [Submit (length sample_namespaces) (map (run_kubectl sample_site ?a) sample_namespaces)] ls r"
    using phases_run_exists by blast
  then have m: "kubectl_main sample_site [''get'', ''pods''] ls r" by (simp add: kubectl_main_def a chosen_sample)
  have n: "sample_namespaces \<noteq> []" "1 < length sample_namespaces" "fst (sample_namespaces ! 1) = ''us''" "ni_region (snd (sample_namespaces ! 1)) = ''us''"
    by (simp_all add: sample_namespaces_def)
  from kubectl_everywhere [OF a c m] n(1) obtain l where r: "r = None" and ls: "ls = [l]" and
    l: "\<forall>i < length sample_namespaces. map fst (own i l) =
      (case get_context (contexts sample_site) (yaml sample_site) (ni_region (snd (sample_namespaces ! i))) of
        Inl e \<Rightarrow> [] | Inr ctx \<Rightarrow> if kubectl_dry_run ?a then [] else [kubectl_command (fst (sample_namespaces ! i)) ctx (kubectl_words ?a)])"
    unfolding if_not_P [OF n(1)] by (elim conjE exE)
  from l n(2) have "map fst (own 1 l) = (case get_context (contexts sample_site) (yaml sample_site) (ni_region (snd (sample_namespaces ! 1))) of
        Inl e \<Rightarrow> [] | Inr ctx \<Rightarrow> if kubectl_dry_run ?a then [] else [kubectl_command (fst (sample_namespaces ! 1)) ctx (kubectl_words ?a)])" by blast
  then have "map fst (own 1 l) = [[''kubectl'', ''--namespace'', ''us'', ''--context'', ''neon.us.io'', ''get'', ''pods'']]"
    unfolding n(3,4) sample_contexts_found by (simp add: kubectl_command_def)
  with m show ?thesis unfolding r ls by (intro exI [of _ l] conjI)
qed

text \<open>C40 The arguments for kubectl stand behind \<^verbatim>\<open>--\<close>, after \<^verbatim>\<open>-n\<close> and the names of the namespaces, or the first of them before it if there
  is no \<^verbatim>\<open>-n\<close>. Then they reach kubectl as they are, also options and a further \<^verbatim>\<open>--\<close>, once for each of the namespaces that are named (all
  of them without \<^verbatim>\<open>-n\<close>), and in a dry run not at all. With arguments on both sides of \<^verbatim>\<open>-n\<close> the script stops with the status 2 before it runs anything.\<close>

theorem kubectl_arguments_kept:
  assumes "list_all (\<lambda>n. n = [] \<or> hd n \<noteq> CHR ''-'') xs"
    and "kubectl_main st ((if d then [''--dry-run''] else []) @ (if by_name then ''-n'' # xs else xs) @ ''--'' # ws) ls r"
    and "chosen_namespaces st (if by_name then xs else []) = Inr nss" and "nss \<noteq> []"
    and "w = [] \<or> hd w \<noteq> CHR ''-''" and "ws \<noteq> []"
  shows "(\<exists>l. ls = [l] \<and> r = None \<and> fst ` set l \<subseteq> {..< length nss} \<and>
      (\<forall>i < length nss. (by_name \<and> xs \<noteq> [] \<longrightarrow> fst (nss ! i) \<in> set xs) \<and> map fst (own i l) =
        (case get_context (contexts st) (yaml st) (ni_region (snd (nss ! i))) of
          Inl e \<Rightarrow> []
        | Inr ctx \<Rightarrow> if d then [] else [[''kubectl'', ''--namespace'', fst (nss ! i), ''--context'', ctx] @ (if by_name then ws else xs @ ws)]))) \<and>
    (\<forall>ls' r'. kubectl_main st (w # ''-n'' # xs @ ''--'' # ws) ls' r' \<longleftrightarrow> ls' = [] \<and> r' = Some (SystemExit 2))"
proof -
  let ?a = "\<lparr>kubectl_words = (if by_name then ws else xs @ ws), of_namespaces = (if by_name then xs else []), kubectl_dry_run = d\<rparr>"
  have a: "kubectl_cli ((if d then [''--dry-run''] else []) @ (if by_name then ''-n'' # xs else xs) @ ''--'' # ws) = Parsed ?a"
    using kubectl_words_kept [OF assms(1), of d ws] by (cases by_name) simp_all
  have n: "fst (nss ! i) \<in> set xs" if "by_name \<and> xs \<noteq> []" "i < length nss" for i
    using assms(3) nth_mem [OF that(2)] that(1) by (auto simp: chosen_namespaces_def rbind_eq_Inr)
  have "list_all (\<lambda>n. n = [] \<or> hd n \<noteq> CHR ''-'') (w # xs)" using assms(1,5) by simp
  from kubectl_two_groups [OF this assms(6)]
  have two: "kubectl_main st (w # ''-n'' # xs @ ''--'' # ws) ls' r' \<longleftrightarrow> ls' = [] \<and> r' = Some (SystemExit 2)" for ls' r'
    by (simp add: kubectl_main_def)
  have c: "chosen_namespaces st (of_namespaces ?a) = Inr nss" using assms(3) by simp
  from kubectl_main_runs [OF a c assms(2)] assms(4) obtain l where "ls = [l]" "r = None" "fst ` set l \<subseteq> {..< length nss}"
    "\<forall>i < length nss. map fst (own i l) = (case get_context (contexts st) (yaml st) (ni_region (snd (nss ! i))) of
        Inl e \<Rightarrow> []
      | Inr ctx \<Rightarrow> if kubectl_dry_run ?a then [] else [kubectl_command (fst (nss ! i)) ctx (kubectl_words ?a)])"
    unfolding if_not_P [OF assms(4)] by (elim conjE exE)
  with n two show ?thesis by (intro conjI allI exI [of _ l] impI) (simp_all add: kubectl_command_def split: sum.split)
qed

lemma kubectl_arguments_kept_witness:
  "\<exists>l. kubectl_main sample_site [''-n'', ''us'', ''--'', ''get'', ''-o'', ''--'', ''wide''] [l] None \<and> map fst (own 0 l) =
     [[''kubectl'', ''--namespace'', ''us'', ''--context'', ''neon.us.io'', ''get'', ''-o'', ''--'', ''wide'']] \<and>
   kubectl_main sample_site [''get'', ''-n'', ''us'', ''--'', ''get'', ''-o'', ''--'', ''wide''] [] (Some (SystemExit 2))"
proof -
  let ?ws = "[''get'', ''-o'', ''--'', ''wide'']"
  let ?argv = "(if False then [''--dry-run''] else []) @ (if True then ''-n'' # [''us''] else [''us'']) @ ''--'' # ?ws"
  let ?nss = "[sample_namespaces ! 1]"
  have p: "list_all (\<lambda>n. n = [] \<or> hd n \<noteq> CHR ''-'') [''us'']" by simp
  have c: "chosen_namespaces sample_site (if True then [''us''] else []) = Inr ?nss"
    using chosen_sample by (auto simp: chosen_namespaces_def rbind_eq_Inr sample_namespaces_def)
  have a: "kubectl_cli ?argv = Parsed \<lparr>kubectl_words = ?ws, of_namespaces = [''us''], kubectl_dry_run = False\<rparr>"
    using kubectl_words_kept(1) [OF p, of False ?ws] by simp
  obtain ls r where "phases_run [Submit (length ?nss) (map (run_kubectl sample_site
      \<lparr>kubectl_words = ?ws, of_namespaces = [''us''], kubectl_dry_run = False\<rparr>) ?nss)] ls r"
    using phases_run_exists by blast
  then have m: "kubectl_main sample_site ?argv ls r" using c unfolding kubectl_main_def a by simp
  have w: "''get'' = [] \<or> hd ''get'' \<noteq> CHR ''-''" "?ws \<noteq> []" by simp_all
  note K = kubectl_arguments_kept [OF p m c _ w]
  from K have two: "kubectl_main sample_site (''get'' # ''-n'' # [''us''] @ ''--'' # ?ws) [] (Some (SystemExit 2))" by simp
  have n: "fst (sample_namespaces ! Suc 0) = ''us''" "ni_region (snd (sample_namespaces ! Suc 0)) = ''us''"
    by (simp_all add: sample_namespaces_def)
  from K obtain l where l: "ls = [l]" "r = None" and o: "map fst (own 0 l) = [[''kubectl'', ''--namespace'', ''us'', ''--context'', ''neon.us.io''] @ ?ws]"
    by (auto simp: n sample_contexts_found)
  show ?thesis using m o two unfolding l by (intro exI [of _ l]) simp
qed

end
