(* ===== verification/Eks.thy ===== *)
theory Eks
  imports Behaviour Monitor_Status Argparse
begin

text \<open>
  \<^verbatim>\<open>tools/eks.py\<close>: the EKS clusters of all regions, created and deleted by eksctl from files that helm
  writes. The answers of the programs are part of the events; the order of the set of regions and the
  answer of the user are parameters.
\<close>

section \<open>External programs\<close>

text \<open>The lines a program printed and its return code, which is never looked at.\<close>

datatype reply = Not_started | Printed "string list" int

datatype eks_event = Called "string list" reply | Writes_file string string | Reads_contexts "string list" | Says string

definition run_popen :: "string list \<Rightarrow> bool \<Rightarrow> (string list \<Rightarrow> eks_event behaviour) \<Rightarrow> eks_event behaviour" where
  "run_popen cmd dry_run k es r =
     (if dry_run then k [] es r
      else case es of
        Called c reply # es' \<Rightarrow> c = cmd \<and> (case reply of
            Not_started \<Rightarrow> es' = [] \<and> r = Some (OSError (program cmd))
          | Printed ls rc \<Rightarrow> k ls es' r)
      | _ \<Rightarrow> False)"

fun event :: "eks_event \<Rightarrow> eks_event behaviour" where
  "event e es r \<longleftrightarrow> es = [e] \<and> r = None"

section \<open>The steps\<close>

record eks_region =
  eks_name :: string
  eks_color :: string
  is_global :: bool

definition config_file :: "string \<Rightarrow> string \<Rightarrow> string" where
  "config_file tools region = tools @ ''/workspace/eks-'' @ region @ ''.yaml''"

definition helm_eks :: "string \<Rightarrow> string \<Rightarrow> string \<Rightarrow> string list" where
  "helm_eks tools g region = [''helm'', ''template'', tools @ ''/deploy/helm-eks'',
     ''--set'', ''region='' @ region, ''--set'', ''global_region='' @ g]"

definition generate_one :: "string \<Rightarrow> string \<Rightarrow> eks_region \<Rightarrow> eks_event behaviour" where
  "generate_one tools g i = run_popen (helm_eks tools g (eks_name i)) False
     (\<lambda>ls. event (Writes_file (config_file tools (eks_name i)) (join [CHR 0x0A] ls)))"

definition generate_eks_configs :: "string \<Rightarrow> eks_region list \<Rightarrow> eks_event behaviour" where
  "generate_eks_configs tools infos = (case find is_global infos of
     None \<Rightarrow> raising (PlainException ''StopIteration'')
   | Some g \<Rightarrow> in_order (map (generate_one tools (eks_name g)) infos))"

definition eksctl_create :: "string \<Rightarrow> bool \<Rightarrow> string \<Rightarrow> string list" where
  "eksctl_create tools dry_run region =
     [''eksctl'', ''create'', ''cluster'', ''--config-file'', config_file tools region] @ (if dry_run then [''--dry-run''] else [])"

text \<open>
  The context is looked up after eksctl is done and has changed the kube configuration: the context names are what is read then.
  \<^verbatim>\<open>main.yaml\<close> is read again too, but nothing in the script writes it, so it is still \<open>yaml st\<close>.
\<close>

definition is_up :: "string \<Rightarrow> string \<Rightarrow> string" where
  "is_up region ctx = ''EKS cluster in '' @ region @ '' is up. Context: '' @ ctx @ ''.''"

definition create_eks_cluster :: "site \<Rightarrow> string \<Rightarrow> bool \<Rightarrow> eks_region \<Rightarrow> eks_event behaviour" where
  "create_eks_cluster st tools dry_run i = run_popen (eksctl_create tools dry_run (eks_name i)) False (\<lambda>_.
     if dry_run then silent
     else (\<lambda>es r. case es of
         Reads_contexts cs # es' \<Rightarrow> or_raise (get_context cs (yaml st) (eks_name i)) (\<lambda>ctx.
           event (Says (is_up (eks_name i) ctx))) es' r
       | _ \<Rightarrow> False))"

definition eksctl_delete :: "string \<Rightarrow> string \<Rightarrow> string list" where
  "eksctl_delete tools region =
     [''eksctl'', ''delete'', ''cluster'', ''--force'', ''--disable-nodegroup-eviction'', ''--config-file'', config_file tools region]"

definition delete_eks_cluster :: "string \<Rightarrow> bool \<Rightarrow> eks_region \<Rightarrow> eks_event behaviour" where
  "delete_eks_cluster tools dry_run i = run_popen (eksctl_delete tools (eks_name i)) dry_run (\<lambda>_.
     event (Says (''EKS cluster in '' @ eks_name i @ '' is deleted.'')))"

section \<open>The script\<close>

definition eks_parser :: parser where
  "eks_parser = \<lparr>options = [help_option, \<lparr>option_names = [''--dry-run''], dest = ''dry_run'', action = Flag, choices = []\<rparr>],
     positionals = [(''action'', [''create'', ''delete'', ''generate''])]\<rparr>"

text \<open>\<^verbatim>\<open>config["regions"] or []\<close>\<close>

definition configured_regions :: "main_config \<Rightarrow> string list res" where
  "configured_regions cfg = (case regions cfg of
     RAbsent \<Rightarrow> Inl (KeyError ''regions'')
   | RNull \<Rightarrow> Inr []
   | RDict d \<Rightarrow> Inr (dkeys d))"

definition region_infos :: "string \<Rightarrow> string list \<Rightarrow> eks_region list" where
  "region_infos g order = map (\<lambda>(k, r). \<lparr>eks_name = r, eks_color = COLORS ! (k mod length COLORS), is_global = (r = g)\<rparr>) (enumerate 0 order)"

text \<open>\<open>order\<close> lists the set of regions in the order in which it is iterated.\<close>

definition eks_run :: "site \<Rightarrow> string \<Rightarrow> string list \<Rightarrow> bool \<Rightarrow> string \<Rightarrow> bool \<Rightarrow> eks_event behaviour" where
  "eks_run st tools order confirmed act dry_run =
     or_raise (get_main_config (contexts st) (yaml st)) (\<lambda>cfg.
     or_raise (req (KeyError ''global_region'') (global_region cfg)) (\<lambda>g.
     or_raise (configured_regions cfg) (\<lambda>rs es r.
       distinct order \<and> set order = insert g (set rs) \<and>
       (let infos = region_infos g order in
        if act \<notin> {''create'', ''delete'', ''generate''} then raising (ValueError (''Unknown action: '' @ act)) es r
        else if act = ''delete'' \<and> \<not> confirmed then raising (SystemExit 0) es r
        else and_then (generate_eks_configs tools infos)
          (if act = ''generate'' then raising (SystemExit 0)
           else in_pool (map (if act = ''create'' then create_eks_cluster st tools dry_run
             else delete_eks_cluster tools dry_run) infos)) es r))))"

definition eks_main :: "site \<Rightarrow> string \<Rightarrow> string list \<Rightarrow> bool \<Rightarrow> string list \<Rightarrow> eks_event behaviour" where
  "eks_main st tools order confirmed argv es r = (case parse_args eks_parser [] argv of
     Outside \<Rightarrow> False
   | Exits e \<Rightarrow> es = [] \<and> r = Some (SystemExit e)
   | Parsed ns \<Rightarrow> (case dget ns ''action'' of
       Some (Text a) \<Rightarrow> eks_run st tools order confirmed a (dget ns ''dry_run'' = Some (Bool True)) es r
     | _ \<Rightarrow> False))"

section \<open>Runs\<close>

lemma run_popen_False:
  "run_popen cmd False k es r \<longleftrightarrow> (es = [Called cmd Not_started] \<and> r = Some (OSError (program cmd))) \<or>
    (\<exists>ls rc es'. es = Called cmd (Printed ls rc) # es' \<and> k ls es' r)"
  by (auto simp: run_popen_def split: list.splits eks_event.splits reply.splits)

lemma run_popen_dry: "run_popen cmd True k = k []"
  by (intro ext) (simp add: run_popen_def)

text \<open>The runs of the tasks.\<close>

lemma generate_one_runs:
  "generate_one tools g i es None \<longleftrightarrow> (\<exists>ls rc. es = [Called (helm_eks tools g (eks_name i)) (Printed ls rc),
     Writes_file (config_file tools (eks_name i)) (join [CHR 0x0A] ls)])"
  by (auto simp: generate_one_def run_popen_False)

lemma create_eks_False:
  "create_eks_cluster st tools False i es r \<longleftrightarrow>
    (es = [Called (eksctl_create tools False (eks_name i)) Not_started] \<and> r = Some (OSError ''eksctl'')) \<or>
    (\<exists>ls rc cs es'. es = Called (eksctl_create tools False (eks_name i)) (Printed ls rc) # Reads_contexts cs # es' \<and>
      (case get_context cs (yaml st) (eks_name i) of
         Inl e \<Rightarrow> es' = [] \<and> r = Some e
       | Inr ctx \<Rightarrow> es' = [Says (is_up (eks_name i) ctx)] \<and> r = None))"
proof -
  let ?C = "Called (eksctl_create tools False (eks_name i))"
  have k: "or_raise (get_context cs (yaml st) (eks_name i)) (\<lambda>ctx.
      event (Says (is_up (eks_name i) ctx))) es' r \<longleftrightarrow>
    (case get_context cs (yaml st) (eks_name i) of
         Inl e \<Rightarrow> es' = [] \<and> r = Some e
       | Inr ctx \<Rightarrow> es' = [Says (is_up (eks_name i) ctx)] \<and> r = None)" for cs es'
    by (cases "get_context cs (yaml st) (eks_name i)") (auto simp: raising_def)
  have p: "program (eksctl_create tools False (eks_name i)) = ''eksctl''" by (simp add: eksctl_create_def program_def)
  have reads: "(case es' of Reads_contexts cs # es'' \<Rightarrow> P cs es'' | _ \<Rightarrow> False) \<longleftrightarrow>
      (\<exists>cs es''. es' = Reads_contexts cs # es'' \<and> P cs es'')" for es' and P :: "string list \<Rightarrow> eks_event list \<Rightarrow> bool"
    by (auto split: list.splits eks_event.splits)
  show ?thesis unfolding create_eks_cluster_def run_popen_False p if_False reads k by blast
qed

lemma create_runs:
  "create_eks_cluster st tools False i es None \<longleftrightarrow> (\<exists>ls rc cs ctx. get_context cs (yaml st) (eks_name i) = Inr ctx \<and>
     es = [Called (eksctl_create tools False (eks_name i)) (Printed ls rc), Reads_contexts cs,
       Says (is_up (eks_name i) ctx)])"
proof
  assume "create_eks_cluster st tools False i es None"
  then obtain ls rc cs es' where "es = Called (eksctl_create tools False (eks_name i)) (Printed ls rc) # Reads_contexts cs # es'"
    and "case get_context cs (yaml st) (eks_name i) of
         Inl e \<Rightarrow> es' = [] \<and> None = Some e
       | Inr ctx \<Rightarrow> es' = [Says (is_up (eks_name i) ctx)] \<and> None = (None :: exn option)"
    unfolding create_eks_False by (elim disjE exE conjE) simp_all
  then show "\<exists>ls rc cs ctx. get_context cs (yaml st) (eks_name i) = Inr ctx \<and>
     es = [Called (eksctl_create tools False (eks_name i)) (Printed ls rc), Reads_contexts cs,
       Says (is_up (eks_name i) ctx)]"
    by (cases "get_context cs (yaml st) (eks_name i)") simp_all
qed (elim exE conjE, simp add: create_eks_False)

lemma region_infos_names: "map eks_name (region_infos g order) = order"
  by (simp add: region_infos_def comp_def split_def)

lemma region_infos_global: "i \<in> set (region_infos g order) \<Longrightarrow> is_global i \<longleftrightarrow> eks_name i = g"
  by (auto simp: region_infos_def)

lemma generates:
  assumes "g \<in> set order"
  shows "generate_eks_configs tools (region_infos g order) = in_order (map (generate_one tools g) (region_infos g order))"
proof -
  have "g \<in> eks_name ` set (region_infos g order)" using assms region_infos_names [of g order] by (metis image_set)
  then obtain i where "i \<in> set (region_infos g order)" "is_global i" using region_infos_global by fastforce
  then obtain j where j: "find is_global (region_infos g order) = Some j" by (metis find_None_iff not_Some_eq)
  then have "j \<in> set (region_infos g order)" "is_global j" by (auto simp: find_Some_iff)
  then have "eks_name j = g" using region_infos_global by simp
  with j show ?thesis by (simp add: generate_eks_configs_def)
qed

section \<open>What a run does\<close>

lemma eks_infos: "i < length order \<Longrightarrow> eks_name (region_infos g order ! i) = order ! i"
  using region_infos_names [of g order] by (metis length_map nth_map)

lemma eks_infos_length: "length (region_infos g order) = length order"
  using region_infos_names [of g order] by (metis length_map)

lemma eks_runE:
  assumes "eks_run st tools order confirmed a d es r" and "es \<noteq> [] \<or> r = None"
  obtains cfg g rs where "get_main_config (contexts st) (yaml st) = Inr cfg" and "global_region cfg = Some g" and "configured_regions cfg = Inr rs"
    and "distinct order" and "set order = insert g (set rs)" and "a \<in> {''create'', ''delete'', ''generate''}" and "a = ''delete'' \<longrightarrow> confirmed"
    and "and_then (in_order (map (generate_one tools g) (region_infos g order)))
      (if a = ''generate'' then raising (SystemExit 0)
       else in_pool (map (if a = ''create'' then create_eks_cluster st tools d else delete_eks_cluster tools d) (region_infos g order))) es r"
proof -
  obtain cfg where cfg: "get_main_config (contexts st) (yaml st) = Inr cfg"
    using assms by (cases "get_main_config (contexts st) (yaml st)") (auto simp: eks_run_def raising_def)
  obtain g where g: "global_region cfg = Some g"
    using assms by (cases "global_region cfg") (auto simp: eks_run_def cfg raising_def req_def)
  obtain rs where rs: "configured_regions cfg = Inr rs"
    using assms by (cases "configured_regions cfg") (auto simp: eks_run_def cfg g raising_def req_def)
  have o: "distinct order" "set order = insert g (set rs)"
    using assms(1) by (simp_all add: eks_run_def cfg g rs req_def)
  have act: "a \<in> {''create'', ''delete'', ''generate''}"
  proof (rule ccontr)
    assume "a \<notin> {''create'', ''delete'', ''generate''}"
    with assms show False by (simp add: eks_run_def cfg g rs req_def raising_def)
  qed
  have conf: "\<not> (a = ''delete'' \<and> \<not> confirmed)"
  proof
    assume "a = ''delete'' \<and> \<not> confirmed"
    with assms show False by (simp add: eks_run_def cfg g rs req_def raising_def)
  qed
  have "and_then (in_order (map (generate_one tools g) (region_infos g order)))
      (if a = ''generate'' then raising (SystemExit 0)
       else in_pool (map (if a = ''create'' then create_eks_cluster st tools d else delete_eks_cluster tools d) (region_infos g order))) es r"
  proof -
    have "g \<in> set order" using o(2) by simp
    then show ?thesis using assms(1) act
      unfolding eks_run_def cfg g rs req_def or_raise_simps option.case Let_def generates [OF \<open>g \<in> set order\<close>] if_not_P [OF conf]
      by (simp only: if_False not_not)
  qed
  with conf show ?thesis by (intro that [OF cfg g rs o act]) blast
qed

text \<open>C38 Creating the clusters ends normally only after helm wrote the file of every region and eksctl was run exactly once for every
  region, in any interleaving; each of them is then reported to be up, whatever eksctl and helm returned, with the context found for the region
  among the context names read after eksctl was done, which need not be those known at the start.\<close>

theorem created_clusters:
  assumes "eks_run st tools order confirmed ''create'' False es None"
  shows "\<exists>g outs gs l. distinct order \<and> g \<in> set order \<and> length outs = length order \<and> es = gs @ map snd l \<and>
    gs = concat (map2 (\<lambda>r (ls, rc). [Called (helm_eks tools g r) (Printed ls rc),
      Writes_file (config_file tools r) (join [CHR 0x0A] ls)]) order outs) \<and>
    fst ` set l \<subseteq> {..< length order} \<and>
    (\<forall>i < length order. \<exists>ls rc cs ctx. get_context cs (yaml st) (order ! i) = Inr ctx \<and>
      own i l = [Called (eksctl_create tools False (order ! i)) (Printed ls rc), Reads_contexts cs,
        Says (is_up (order ! i) ctx)])"
proof -
  from assms obtain cfg g rs where o: "distinct order" "set order = insert g (set rs)" and
    r: "and_then (in_order (map (generate_one tools g) (region_infos g order)))
      (in_pool (map (create_eks_cluster st tools False) (region_infos g order))) es None"
    by (rule eks_runE) simp_all
  from r obtain gs cs where es: "es = gs @ cs" "in_order (map (generate_one tools g) (region_infos g order)) gs None"
    "in_pool (map (create_eks_cluster st tools False) (region_infos g order)) cs None" by (auto elim: and_thenE)
  from es(2) obtain ess where ess: "length ess = length order" "gs = concat ess"
    "\<And>i. i < length order \<Longrightarrow> generate_one tools g (region_infos g order ! i) (ess ! i) None"
    by (auto simp: in_order_None eks_infos_length)
  have "\<exists>p. i < length order \<longrightarrow> ess ! i = [Called (helm_eks tools g (order ! i)) (Printed (fst p) (snd p)),
      Writes_file (config_file tools (order ! i)) (join [CHR 0x0A] (fst p))]" for i
    using ess(3) [of i] by (auto simp: generate_one_runs eks_infos)
  then obtain out where out: "\<And>i. i < length order \<Longrightarrow> ess ! i = [Called (helm_eks tools g (order ! i)) (Printed (fst (out i)) (snd (out i))),
      Writes_file (config_file tools (order ! i)) (join [CHR 0x0A] (fst (out i)))]" by metis
  have "ess = map2 (\<lambda>r (ls, rc). [Called (helm_eks tools g r) (Printed ls rc),
      Writes_file (config_file tools r) (join [CHR 0x0A] ls)]) order (map out [0 ..< length order])"
    by (rule nth_equalityI) (simp_all add: ess(1) out split_def)
  moreover obtain l where l: "cs = map snd l" "fst ` set l \<subseteq> {..< length order}"
    "\<And>i. i < length order \<Longrightarrow> create_eks_cluster st tools False (region_infos g order ! i) (own i l) None"
    using es(3) by (auto simp: in_pool_None eks_infos_length)
  moreover have "\<exists>ls rc cs ctx. get_context cs (yaml st) (order ! i) = Inr ctx \<and>
      own i l = [Called (eksctl_create tools False (order ! i)) (Printed ls rc), Reads_contexts cs,
        Says (is_up (order ! i) ctx)]" if "i < length order" for i
    using l(3) [OF that] by (auto simp: create_runs eks_infos [OF that])
  ultimately show ?thesis using o ess(2) es(1)
    by (intro exI [of _ g] exI [of _ "map out [0 ..< length order]"] exI [of _ gs] exI [of _ l]) auto
qed

text \<open>What a task of a region may do.\<close>

definition eks_may :: "string \<Rightarrow> string \<Rightarrow> string \<Rightarrow> bool \<Rightarrow> string \<Rightarrow> eks_event \<Rightarrow> bool" where
  "eks_may tools g a d region e \<longleftrightarrow> (case e of
     Called c _ \<Rightarrow> c = helm_eks tools g region \<or> a = ''create'' \<and> c = eksctl_create tools d region \<or>
       a = ''delete'' \<and> \<not> d \<and> c = eksctl_delete tools region
   | Writes_file f _ \<Rightarrow> f = config_file tools region
   | Reads_contexts cs \<Rightarrow> a = ''create'' \<and> \<not> d
   | Says s \<Rightarrow> a = ''create'' \<and> \<not> d \<or> a = ''delete'')"

lemma run_popen_ends: "(\<And>ls. ends (k ls)) \<Longrightarrow> ends (run_popen cmd d k)"
  by (cases d) (auto simp: ends_def run_popen_dry run_popen_False)

lemma event_ends: "ends (event e)"
  by (simp add: ends_def)

lemma create_may:
  assumes "create_eks_cluster st tools False i es r" and "e \<in> set es"
  shows "eks_may tools g ''create'' False (eks_name i) e"
proof -
  consider "es = [Called (eksctl_create tools False (eks_name i)) Not_started]"
    | ls rc cs es' where "es = Called (eksctl_create tools False (eks_name i)) (Printed ls rc) # Reads_contexts cs # es'"
      "case get_context cs (yaml st) (eks_name i) of Inl e \<Rightarrow> es' = [] \<and> r = Some e
       | Inr ctx \<Rightarrow> es' = [Says (is_up (eks_name i) ctx)] \<and> r = None"
    using assms(1) unfolding create_eks_False by (elim disjE exE conjE)
  then show ?thesis
  proof cases
    case (2 ls rc cs es')
    then show ?thesis using assms(2) by (cases "get_context cs (yaml st) (eks_name i)") (auto simp: eks_may_def)
  qed (use assms(2) in \<open>simp add: eks_may_def\<close>)
qed

text \<open>The tasks keep to that, and each of them ends.\<close>

interpretation generating: task_kind "generate_one tools g" "\<lambda>i. eks_may tools g a d (eks_name i)" for tools g a d
proof
  show "ends (generate_one tools g i)" for i unfolding generate_one_def by (intro run_popen_ends event_ends)
qed (auto simp: generate_one_def run_popen_False eks_may_def)

interpretation creating: task_kind "create_eks_cluster st tools d" "\<lambda>i. eks_may tools g ''create'' d (eks_name i)" for st tools g d
proof
  show "ends (create_eks_cluster st tools d i)" for i
  proof (cases d)
    case True
    then show ?thesis unfolding create_eks_cluster_def by (auto intro!: run_popen_ends intro: ending_rules)
  next
    case False
    have "\<exists>es r. create_eks_cluster st tools False i (Called (eksctl_create tools False (eks_name i)) (Printed [] 0) # Reads_contexts [] # es) r"
      by (cases "get_context [] (yaml st) (eks_name i)") (simp_all add: create_eks_False)
    then show ?thesis using False unfolding ends_def by simp (elim exE, intro exI)
  qed
  show "create_eks_cluster st tools d i es r \<Longrightarrow> e \<in> set es \<Longrightarrow> eks_may tools g ''create'' d (eks_name i) e" for i es r e
  proof (cases d)
    case True
    then show "create_eks_cluster st tools d i es r \<Longrightarrow> e \<in> set es \<Longrightarrow> eks_may tools g ''create'' d (eks_name i) e"
      by (auto simp: create_eks_cluster_def run_popen_False eks_may_def silent_def)
  next
    case False
    then show "create_eks_cluster st tools d i es r \<Longrightarrow> e \<in> set es \<Longrightarrow> eks_may tools g ''create'' d (eks_name i) e"
      using create_may by simp
  qed
qed

interpretation deleting: task_kind "delete_eks_cluster tools d" "\<lambda>i. eks_may tools g ''delete'' d (eks_name i)" for tools g d
proof
  show "ends (delete_eks_cluster tools d i)" for i unfolding delete_eks_cluster_def by (intro run_popen_ends event_ends)
  show "delete_eks_cluster tools d i es r \<Longrightarrow> e \<in> set es \<Longrightarrow> eks_may tools g ''delete'' d (eks_name i) e" for i es r e
    by (cases d) (auto simp: delete_eks_cluster_def run_popen_False run_popen_dry eks_may_def)
qed

lemma region_infos_does:
  "all_events (\<lambda>e. \<exists>i \<in> set (region_infos g order). eks_may tools g a d (eks_name i) e) b \<Longrightarrow>
    all_events (\<lambda>e. \<exists>region \<in> set order. eks_may tools g a d region e) b"
  unfolding all_events_def using region_infos_names [of g order] by (metis image_eqI image_set)

lemma action_may:
  assumes "a \<in> {''create'', ''delete'', ''generate''}"
  shows "all_events (\<lambda>e. \<exists>region \<in> set order. eks_may tools g a d region e)
    (if a = ''generate'' then raising (SystemExit 0)
     else in_pool (map (if a = ''create'' then create_eks_cluster st tools d else delete_eks_cluster tools d) (region_infos g order)))"
proof -
  consider "a = ''create''" | "a = ''delete''" | "a = ''generate''" using assms by blast
  then show ?thesis
  proof cases
    case 1
    then show ?thesis using region_infos_does [OF creating.pool_does] by simp
  next
    case 2
    then show ?thesis using region_infos_does [OF deleting.pool_does] by simp
  qed (simp add: safety)
qed

text \<open>C37 Whatever fails, a run only touches the regions of the configuration and their files; clusters are deleted only by a confirmed
  \<^verbatim>\<open>delete\<close> and not in a dry run, created only by \<^verbatim>\<open>create\<close>, and in a dry run only with \<^verbatim>\<open>--dry-run\<close>.\<close>

theorem eks_scope:
  assumes "eks_main st tools order confirmed argv es r" and "e \<in> set es"
  shows "\<exists>ns a cfg g rs region. parse_args eks_parser [] argv = Parsed ns \<and> dget ns ''action'' = Some (Text a) \<and>
    get_main_config (contexts st) (yaml st) = Inr cfg \<and> global_region cfg = Some g \<and> configured_regions cfg = Inr rs \<and>
    (a = ''delete'' \<longrightarrow> confirmed) \<and> region \<in> insert g (set rs) \<and>
    eks_may tools g a (dget ns ''dry_run'' = Some (Bool True)) region e"
proof -
  obtain ns where ns: "parse_args eks_parser [] argv = Parsed ns"
    using assms by (cases "parse_args eks_parser [] argv") (auto simp: eks_main_def)
  define d where "d \<longleftrightarrow> dget ns ''dry_run'' = Some (Bool True)"
  obtain a where a: "dget ns ''action'' = Some (Text a)" and run: "eks_run st tools order confirmed a d es r"
    using assms by (auto simp: eks_main_def ns d_def split: option.splits arg_value.splits)
  have "es \<noteq> [] \<or> r = None" using assms(2) by auto
  with run obtain cfg g rs where cfg: "get_main_config (contexts st) (yaml st) = Inr cfg" "global_region cfg = Some g"
    "configured_regions cfg = Inr rs" "set order = insert g (set rs)" "a = ''delete'' \<longrightarrow> confirmed" and
    act: "a \<in> {''create'', ''delete'', ''generate''}" and
    es: "and_then (in_order (map (generate_one tools g) (region_infos g order)))
      (if a = ''generate'' then raising (SystemExit 0)
       else in_pool (map (if a = ''create'' then create_eks_cluster st tools d else delete_eks_cluster tools d) (region_infos g order))) es r"
    by (rule eks_runE)
  have "all_events (\<lambda>e. \<exists>region \<in> set order. eks_may tools g a d region e) (and_then (in_order (map (generate_one tools g) (region_infos g order)))
    (if a = ''generate'' then raising (SystemExit 0)
       else in_pool (map (if a = ''create'' then create_eks_cluster st tools d else delete_eks_cluster tools d) (region_infos g order))))"
    by (rule all_events_and_then [OF region_infos_does [OF generating.sequence_does] action_may [OF act]])
  from all_eventsD [OF this es assms(2)] obtain region where "region \<in> set order" "eks_may tools g a d region e" by blast
  then show ?thesis using ns a cfg unfolding d_def by blast
qed

section \<open>Witnesses\<close>

text \<open>The site before the clusters exist: no context is known yet.\<close>

definition sample_new :: site where
  "sample_new = sample_site\<lparr>contexts := []\<rparr>"

definition failing :: reply where
  "failing = Printed [''error''] 1"

definition sample_generated :: "string \<Rightarrow> eks_event list" where
  "sample_generated r = [Called (helm_eks ''t'' ''us'' r) failing, Writes_file (config_file ''t'' r) ''error'']"

definition sample_created :: "string \<Rightarrow> string \<Rightarrow> eks_event list" where
  "sample_created r ctx = [Called (eksctl_create ''t'' False r) failing, Reads_contexts (contexts sample_site),
     Says (is_up r ctx)]"

definition sample_eks :: "eks_event list" where
  "sample_eks = (sample_generated ''us'' @ sample_generated ''eu'') @ (sample_created ''us'' ''neon.us.io'' @ sample_created ''eu'' ''neon.eu.io'')"

lemma sample_eu: "get_context (contexts sample_site) (yaml sample_site) ''eu'' = Inr ''neon.eu.io''"
  by (simp add: sample_site_def get_context_def get_main_config_def fill_regions_def find_context_def fill_context_def regions_of_def
      sample_config_def str_in_def sample_region_def)

lemma sample_yaml: "yaml sample_new = yaml sample_site"
  by (simp add: sample_new_def)

lemma sample_eks_config:
  "\<exists>cfg rs. get_main_config (contexts sample_new) (yaml sample_new) = Inr cfg \<and> global_region cfg = Some ''us'' \<and>
     configured_regions cfg = Inr rs \<and> {''us'', ''eu''} = insert ''us'' (set rs)"
  by (simp add: sample_new_def sample_site_def get_main_config_def fill_regions_def find_context_def configured_regions_def sample_config_def str_in_def)

lemma sample_eks_run: "eks_run sample_new ''t'' [''us'', ''eu''] False ''create'' False sample_eks None"
proof -
  obtain cfg rs where cfg: "get_main_config (contexts sample_new) (yaml sample_new) = Inr cfg" "global_region cfg = Some ''us''"
    "configured_regions cfg = Inr rs" "{''us'', ''eu''} = insert ''us'' (set rs)" using sample_eks_config by (elim exE conjE)
  let ?is = "region_infos ''us'' [''us'', ''eu'']"
  have infos: "length ?is = 2" "eks_name (?is ! 0) = ''us''" "eks_name (?is ! Suc 0) = ''eu''"
    using eks_infos [of _ "[''us'', ''eu'']" "''us''"] by (simp_all add: eks_infos_length)
  have "generate_one ''t'' ''us'' i (sample_generated (eks_name i)) None" for i
    by (simp add: generate_one_runs sample_generated_def failing_def)
  then have "in_order (map (generate_one ''t'' ''us'') ?is) (sample_generated ''us'' @ sample_generated ''eu'') None"
    unfolding in_order_None
    by (intro exI [of _ "[sample_generated ''us'', sample_generated ''eu'']"])
      (simp add: infos less_2_cases_iff, metis infos(2,3) One_nat_def)
  moreover have "in_pool (map (create_eks_cluster sample_new ''t'' False) ?is)
      (sample_created ''us'' ''neon.us.io'' @ sample_created ''eu'' ''neon.eu.io'') None"
    unfolding in_pool_None
    by (intro conjI exI [of _ "map (Pair 0) (sample_created ''us'' ''neon.us.io'') @ map (Pair (Suc 0)) (sample_created ''eu'' ''neon.eu.io'')"])
      (use infos in \<open>auto simp: less_2_cases_iff create_runs sample_yaml sample_contexts_found sample_eu sample_created_def failing_def own_def comp_def\<close>)
  ultimately have "and_then (in_order (map (generate_one ''t'' ''us'') ?is)) (in_pool (map (create_eks_cluster sample_new ''t'' False) ?is)) sample_eks None"
    unfolding sample_eks_def by (rule and_thenI(1))
  then show ?thesis by (simp add: eks_run_def cfg(1-3) req_def generates cfg(4) [symmetric])
qed

lemma created_clusters_witness:
  "\<exists>l. set l \<subseteq> {0, 1} \<times> set sample_eks \<and> (\<exists>ls rc cs ctx. own 1 l = [Called (eksctl_create ''t'' False ''eu'') (Printed ls rc),
     Reads_contexts cs, Says (is_up ''eu'' ctx)])"
proof -
  from created_clusters [OF sample_eks_run] obtain gs l where l: "sample_eks = gs @ map snd l" "fst ` set l \<subseteq> {..< length [''us'', ''eu'']}"
    "\<forall>i < length [''us'', ''eu'']. \<exists>ls rc cs ctx. get_context cs (yaml sample_new) ([''us'', ''eu''] ! i) = Inr ctx \<and>
      own i l = [Called (eksctl_create ''t'' False ([''us'', ''eu''] ! i)) (Printed ls rc), Reads_contexts cs,
        Says (is_up ([''us'', ''eu''] ! i) ctx)]"
    by (elim exE conjE)
  have "set l \<subseteq> {0, 1} \<times> set sample_eks"
  proof
    fix x
    assume x: "x \<in> set l"
    then have "fst x < 2" using l(2) by auto
    moreover have "set (map snd l) \<subseteq> set sample_eks" unfolding l(1) by simp
    then have "snd x \<in> set sample_eks" using x by auto
    ultimately show "x \<in> {0, 1} \<times> set sample_eks" by (cases x) (auto simp: less_2_cases_iff)
  qed
  moreover have "\<exists>ls rc cs ctx. own 1 l = [Called (eksctl_create ''t'' False ''eu'') (Printed ls rc), Reads_contexts cs,
     Says (is_up ''eu'' ctx)]"
  proof -
    have "1 < length [''us'', ''eu'']" by simp
    with l(3) obtain ls rc cs ctx where "own 1 l = [Called (eksctl_create ''t'' False ([''us'', ''eu''] ! 1)) (Printed ls rc), Reads_contexts cs,
        Says (is_up ([''us'', ''eu''] ! 1) ctx)]" by blast
    then have "own 1 l = [Called (eksctl_create ''t'' False ''eu'') (Printed ls rc), Reads_contexts cs,
        Says (is_up ''eu'' ctx)]" by simp
    then show ?thesis by (intro exI)
  qed
  ultimately show ?thesis by blast
qed

lemma eks_scope_witness:
  "\<exists>g region. region \<in> {''us'', ''eu''} \<and> eks_may ''t'' g ''create'' False region (Called (eksctl_create ''t'' False ''eu'') failing)"
proof -
  have p: "parse_args eks_parser [] [''create''] = Parsed [(''action'', Text ''create'')]" by code_simp
  have m: "eks_main sample_new ''t'' [''us'', ''eu''] False [''create''] sample_eks None"
    by (simp add: eks_main_def p sample_eks_run)
  have e: "Called (eksctl_create ''t'' False ''eu'') failing \<in> set sample_eks" by (simp add: sample_eks_def sample_created_def)
  obtain cfg rs where cfg: "get_main_config (contexts sample_new) (yaml sample_new) = Inr cfg" "global_region cfg = Some ''us''"
    "configured_regions cfg = Inr rs" "{''us'', ''eu''} = insert ''us'' (set rs)" using sample_eks_config by (elim exE conjE)
  from eks_scope [OF m e] obtain ns a cfg' g rs' region where r: "parse_args eks_parser [] [''create''] = Parsed ns"
    "dget ns ''action'' = Some (Text a)" "get_main_config (contexts sample_new) (yaml sample_new) = Inr cfg'" "global_region cfg' = Some g"
    "configured_regions cfg' = Inr rs'" "region \<in> insert g (set rs')"
    "eks_may ''t'' g a (dget ns ''dry_run'' = Some (Bool True)) region (Called (eksctl_create ''t'' False ''eu'') failing)"
    by (elim exE conjE)
  have ns: "ns = [(''action'', Text ''create'')]" using r(1) by (simp add: p)
  have a: "a = ''create''" using r(2) by (simp add: ns)
  have "cfg' = cfg" "g = ''us''" "rs' = rs" using r(3-5) cfg(1-3) by simp_all
  with r(6) cfg(4) have "region \<in> {''us'', ''eu''}" by simp
  moreover have "eks_may ''t'' g ''create'' False region (Called (eksctl_create ''t'' False ''eu'') failing)"
    using r(7) unfolding ns a \<open>g = ''us''\<close> by simp
  ultimately show ?thesis by (intro exI conjI)
qed

end
