(* ===== verification/Experiment_File.thy ===== *)
theory Experiment_File
  imports Py_Value
begin

text \<open>
  \<^verbatim>\<open>load_experiment\<close> of \<^verbatim>\<open>tools/experiment.py\<close>: the experiment file and the files it includes.
  The file system is a function from absolute paths (lists of components) to what PyYAML's parser makes of the
  file, a tree of nodes with string keys; anchors and merge keys are resolved in it.
\<close>

section \<open>Paths\<close>

type_synonym path = "string list"

text \<open>\<^verbatim>\<open>dir / name\<close> of \<^verbatim>\<open>pathlib\<close>.\<close>

definition path_join :: "path \<Rightarrow> string \<Rightarrow> path" where
  "path_join dir name =
     (let cs = filter (\<lambda>c. c \<notin> {[], ''.''}) (split ''/'' name)
      in if prefix ''/'' name then cs else dir @ cs)"

section \<open>Documents\<close>

datatype yaml_node = Leaf pval | Items "yaml_node list" | Entries "(string \<times> yaml_node) list" | Include string

datatype yaml_data = Value pval | Values "yaml_data list" | Table "(string, yaml_data) dict"

datatype file_content = Document yaml_node | Malformed string | Folder

type_synonym files = "path \<Rightarrow> file_content option"

text \<open>
  The value of a node, with the loader of included files. When several parts of a document fail the
  model raises the error of the first one in the document, PyYAML that of the one it constructs first.
\<close>

fun construct :: "(string \<Rightarrow> yaml_data res) \<Rightarrow> yaml_node \<Rightarrow> yaml_data res"
  and construct_items :: "(string \<Rightarrow> yaml_data res) \<Rightarrow> yaml_node list \<Rightarrow> yaml_data list res"
  and construct_entries :: "(string \<Rightarrow> yaml_data res) \<Rightarrow> (string \<times> yaml_node) list \<Rightarrow> (string, yaml_data) dict \<Rightarrow> (string, yaml_data) dict res"
where
  "construct inc (Leaf x) = Inr (Value x)"
| "construct inc (Items ns) = rbind (construct_items inc ns) (\<lambda>vs. Inr (Values vs))"
| "construct inc (Entries es) = rbind (construct_entries inc es []) (\<lambda>d. Inr (Table d))"
| "construct inc (Include name) = inc name"
| "construct_items inc [] = Inr []"
| "construct_items inc (n # ns) = rbind (construct inc n) (\<lambda>v. rbind (construct_items inc ns) (\<lambda>vs. Inr (v # vs)))"
| "construct_entries inc [] d = Inr d"
| "construct_entries inc ((k, n) # es) d = rbind (construct inc n) (\<lambda>v. construct_entries inc es (dset k v d))"

text \<open>
  \<^verbatim>\<open>yaml.load(f, Loader)\<close>; the name of an included file is relative to the folder of the including one.
  The depth is what the interpreter's recursion limit (or that of open files) allows.
\<close>

fun load_yaml :: "files \<Rightarrow> nat \<Rightarrow> path \<Rightarrow> yaml_data res" where
  "load_yaml files 0 p = Inl (RuntimeError ''maximum recursion depth exceeded'')"
| "load_yaml files (Suc depth) p = (case files p of
     None \<Rightarrow> Inl (OSError ''No such file or directory'')
   | Some Folder \<Rightarrow> Inl (OSError ''Is a directory'')
   | Some (Malformed m) \<Rightarrow> Inl (PlainException m)
   | Some (Document n) \<Rightarrow> construct (\<lambda>name. load_yaml files depth (path_join (butlast p) name)) n)"

definition named_experiment :: "files \<Rightarrow> nat \<Rightarrow> string \<Rightarrow> path \<Rightarrow> ((string, yaml_data) dict \<times> path) option res" where
  "named_experiment files depth exp_name p = rbind (load_yaml files depth p) (\<lambda>v. case v of
     Table d \<Rightarrow> Inr (Some (dset ''name'' (Value (PStr exp_name)) d, p))
   | _ \<Rightarrow> Inl (TypeError ''object does not support item assignment''))"

definition load_experiment :: "files \<Rightarrow> nat \<Rightarrow> path \<Rightarrow> string \<Rightarrow> ((string, yaml_data) dict \<times> path) option res" where
  "load_experiment files depth dir exp_name =
     (let p = path_join dir (exp_name @ ''.yaml''); q = path_join dir (exp_name @ ''.yml'')
      in if files p \<noteq> None then named_experiment files depth exp_name p
         else if files q \<noteq> None then named_experiment files depth exp_name q
         else Inr None)"

section \<open>What a document means\<close>

text \<open>The meaning of documents without a bound on the depth.\<close>

inductive means :: "files \<Rightarrow> path \<Rightarrow> yaml_node \<Rightarrow> yaml_data \<Rightarrow> bool"
  and means_items :: "files \<Rightarrow> path \<Rightarrow> yaml_node list \<Rightarrow> yaml_data list \<Rightarrow> bool"
  and means_entries :: "files \<Rightarrow> path \<Rightarrow> (string \<times> yaml_node) list \<Rightarrow> (string, yaml_data) dict \<Rightarrow> (string, yaml_data) dict \<Rightarrow> bool"
  for files
where
  leaf: "means files dir (Leaf x) (Value x)"
| items: "means_items files dir ns vs \<Longrightarrow> means files dir (Items ns) (Values vs)"
| entries: "means_entries files dir es [] d \<Longrightarrow> means files dir (Entries es) (Table d)"
| included: "files (path_join dir name) = Some (Document n) \<Longrightarrow> means files (butlast (path_join dir name)) n v \<Longrightarrow>
    means files dir (Include name) v"
| no_item: "means_items files dir [] []"
| item: "means files dir n v \<Longrightarrow> means_items files dir ns vs \<Longrightarrow> means_items files dir (n # ns) (v # vs)"
| no_entry: "means_entries files dir [] d d"
| entry: "means files dir n v \<Longrightarrow> means_entries files dir es (dset k v d) d' \<Longrightarrow> means_entries files dir ((k, n) # es) d d'"

definition file_means :: "files \<Rightarrow> path \<Rightarrow> yaml_data \<Rightarrow> bool" where
  "file_means files p v \<longleftrightarrow> (\<exists>n. files p = Some (Document n) \<and> means files (butlast p) n v)"

lemma construct_mono:
  assumes "\<And>s v. inc s = Inr v \<Longrightarrow> inc' s = Inr v"
  shows "construct inc n = Inr v \<Longrightarrow> construct inc' n = Inr v"
    and "construct_items inc ns = Inr vs \<Longrightarrow> construct_items inc' ns = Inr vs"
    and "construct_entries inc es d = Inr d' \<Longrightarrow> construct_entries inc' es d = Inr d'"
  using assms
  by (induction inc n and inc ns and inc es d arbitrary: v and vs and d' rule: construct_construct_items_construct_entries.induct)
    (auto simp: rbind_eq_Inr)

lemma load_yaml_Suc: "load_yaml files d p = Inr v \<Longrightarrow> load_yaml files (Suc d) p = Inr v"
proof (induction d arbitrary: p v)
  case (Suc d)
  then obtain n where n: "files p = Some (Document n)" "construct (\<lambda>s. load_yaml files d (path_join (butlast p) s)) n = Inr v"
    by (auto split: option.splits file_content.splits)
  from construct_mono(1) [OF Suc.IH n(2)] show ?case by (simp add: n(1))
qed simp

lemma load_yaml_mono: "d \<le> d' \<Longrightarrow> load_yaml files d p = Inr v \<Longrightarrow> load_yaml files d' p = Inr v"
  by (induction rule: dec_induct) (simp_all add: load_yaml_Suc del: load_yaml.simps)

lemma construct_means:
  assumes "\<And>s v. inc s = Inr v \<Longrightarrow> file_means files (path_join dir s) v"
  shows "construct inc n = Inr v \<Longrightarrow> means files dir n v"
    and "construct_items inc ns = Inr vs \<Longrightarrow> means_items files dir ns vs"
    and "construct_entries inc es d = Inr d' \<Longrightarrow> means_entries files dir es d d'"
  using assms
  by (induction inc n and inc ns and inc es d arbitrary: v and vs and d' rule: construct_construct_items_construct_entries.induct)
    (auto simp: rbind_eq_Inr file_means_def intro: means_means_items_means_entries.intros)

lemma load_yaml_means: "load_yaml files d p = Inr v \<Longrightarrow> file_means files p v"
proof (induction d arbitrary: p v)
  case (Suc d)
  then obtain n where n: "files p = Some (Document n)" "construct (\<lambda>s. load_yaml files d (path_join (butlast p) s)) n = Inr v"
    by (auto split: option.splits file_content.splits)
  from construct_means(1) [OF Suc.IH n(2)] n(1) show ?case by (auto simp: file_means_def)
qed simp

lemma means_construct:
  shows "means files dir n v \<Longrightarrow> \<exists>d. construct (\<lambda>s. load_yaml files d (path_join dir s)) n = Inr v"
    and "means_items files dir ns vs \<Longrightarrow> \<exists>d. construct_items (\<lambda>s. load_yaml files d (path_join dir s)) ns = Inr vs"
    and "means_entries files dir es e e' \<Longrightarrow> \<exists>d. construct_entries (\<lambda>s. load_yaml files d (path_join dir s)) es e = Inr e'"
proof (induction rule: means_means_items_means_entries.inducts)
  case (included dir name n v)
  then obtain d where "construct (\<lambda>s. load_yaml files d (path_join (butlast (path_join dir name)) s)) n = Inr v" by blast
  with included(1) have "load_yaml files (Suc d) (path_join dir name) = Inr v" by simp
  then show ?case by (intro exI [of _ "Suc d"]) simp
next
  case (item dir n v ns vs)
  then obtain d d' where d: "construct (\<lambda>s. load_yaml files d (path_join dir s)) n = Inr v"
    "construct_items (\<lambda>s. load_yaml files d' (path_join dir s)) ns = Inr vs" by blast
  have "construct (\<lambda>s. load_yaml files (max d d') (path_join dir s)) n = Inr v"
    by (rule construct_mono(1) [OF _ d(1)]) (erule load_yaml_mono [rotated], simp)
  moreover have "construct_items (\<lambda>s. load_yaml files (max d d') (path_join dir s)) ns = Inr vs"
    by (rule construct_mono(2) [OF _ d(2)]) (erule load_yaml_mono [rotated], simp)
  ultimately show ?case by (intro exI [of _ "max d d'"]) simp
next
  case (entry dir n v es k e e')
  then obtain d d' where d: "construct (\<lambda>s. load_yaml files d (path_join dir s)) n = Inr v"
    "construct_entries (\<lambda>s. load_yaml files d' (path_join dir s)) es (dset k v e) = Inr e'" by blast
  have "construct (\<lambda>s. load_yaml files (max d d') (path_join dir s)) n = Inr v"
    by (rule construct_mono(1) [OF _ d(1)]) (erule load_yaml_mono [rotated], simp)
  moreover have "construct_entries (\<lambda>s. load_yaml files (max d d') (path_join dir s)) es (dset k v e) = Inr e'"
    by (rule construct_mono(3) [OF _ d(2)]) (erule load_yaml_mono [rotated], simp)
  ultimately show ?case by (intro exI [of _ "max d d'"]) simp
next
  case (items dir ns vs)
  then obtain d where "construct_items (\<lambda>s. load_yaml files d (path_join dir s)) ns = Inr vs" by blast
  then show ?case by (intro exI [of _ d]) simp
next
  case (entries dir es e)
  then obtain d where "construct_entries (\<lambda>s. load_yaml files d (path_join dir s)) es [] = Inr e" by blast
  then show ?case by (intro exI [of _ d]) simp
qed simp_all

text \<open>Loading implements the meaning of the file: it gives a value exactly when the file has that meaning and the limit on the depth of the
  inclusions is large enough, and then every larger limit gives the same value.\<close>

theorem load_yaml_refines:
  "file_means files p v \<longleftrightarrow> (\<exists>d0. \<forall>d. load_yaml files (d0 + d) p = Inr v)"
proof
  assume "file_means files p v"
  then obtain n where n: "files p = Some (Document n)" "means files (butlast p) n v" by (auto simp: file_means_def)
  from means_construct(1) [OF n(2)] obtain d where "construct (\<lambda>s. load_yaml files d (path_join (butlast p) s)) n = Inr v" ..
  with n(1) have "load_yaml files (Suc d) p = Inr v" by simp
  then have "load_yaml files (Suc d + k) p = Inr v" for k by (rule load_yaml_mono [rotated]) simp
  then show "\<exists>d0. \<forall>d. load_yaml files (d0 + d) p = Inr v" by blast
next
  assume "\<exists>d0. \<forall>d. load_yaml files (d0 + d) p = Inr v"
  then show "file_means files p v" using load_yaml_means by blast
qed

section \<open>Inclusions\<close>

fun included_names :: "yaml_node \<Rightarrow> string list" where
  "included_names (Leaf x) = []"
| "included_names (Items ns) = concat (map included_names ns)"
| "included_names (Entries es) = concat (map (\<lambda>(k, n). included_names n) es)"
| "included_names (Include name) = [name]"

definition reads_file :: "files \<Rightarrow> path \<Rightarrow> path \<Rightarrow> bool" where
  "reads_file files p q \<longleftrightarrow> (\<exists>n. files p = Some (Document n) \<and> q \<in> path_join (butlast p) ` set (included_names n))"

lemma construct_included:
  shows "construct inc n = Inr v \<Longrightarrow> s \<in> set (included_names n) \<Longrightarrow> \<exists>w. inc s = Inr w"
    and "construct_items inc ns = Inr vs \<Longrightarrow> \<exists>n \<in> set ns. s \<in> set (included_names n) \<Longrightarrow> \<exists>w. inc s = Inr w"
    and "construct_entries inc es d = Inr d' \<Longrightarrow> \<exists>(k, n) \<in> set es. s \<in> set (included_names n) \<Longrightarrow> \<exists>w. inc s = Inr w"
  by (induction inc n and inc ns and inc es d arbitrary: v and vs and d' rule: construct_construct_items_construct_entries.induct)
    (fastforce simp: rbind_eq_Inr)+

lemma includes_loaded:
  assumes "(reads_file files)\<^sup>+\<^sup>+ p q" and "load_yaml files d p = Inr v"
  shows "\<exists>d' < d. \<exists>w. load_yaml files d' q = Inr w"
  using assms
proof (induction rule: tranclp_induct)
  case (base q)
  show ?case
  proof (cases d)
    case (Suc e)
    with base obtain n s where n: "construct (\<lambda>s. load_yaml files e (path_join (butlast p) s)) n = Inr v"
      "s \<in> set (included_names n)" "q = path_join (butlast p) s" by (auto simp: reads_file_def)
    from construct_included(1) [OF n(1,2)] n(3) Suc show ?thesis by auto
  qed (use base in simp)
next
  case (step q r)
  then obtain e w where e: "e < d" "load_yaml files e q = Inr w" by blast
  show ?case
  proof (cases e)
    case (Suc k)
    with step(2) e(2) obtain n s where n: "construct (\<lambda>s. load_yaml files k (path_join (butlast q) s)) n = Inr w"
      "s \<in> set (included_names n)" "r = path_join (butlast q) s" by (auto simp: reads_file_def)
    from construct_included(1) [OF n(1,2)] n(3) Suc e(1) show ?thesis by (intro exI [of _ k]) auto
  qed (use e in simp)
qed

text \<open>A file that includes itself, directly or through other files, is never loaded: the loader raises whatever the limit is.\<close>

theorem include_cycle_fails:
  assumes "(reads_file files)\<^sup>+\<^sup>+ p p"
  shows "\<exists>e. load_yaml files depth p = Inl e"
proof (induction depth rule: less_induct)
  case (less d)
  show ?case
  proof (cases "load_yaml files d p")
    case (Inr v)
    with includes_loaded [OF assms Inr] less show ?thesis by fastforce
  qed blast
qed

section \<open>The result\<close>

fun well_formed :: "yaml_data \<Rightarrow> bool" where
  "well_formed (Value x) \<longleftrightarrow> True"
| "well_formed (Values vs) \<longleftrightarrow> (\<forall>v \<in> set vs. well_formed v)"
| "well_formed (Table d) \<longleftrightarrow> wf_dict d \<and> (\<forall>(k, v) \<in> set d. well_formed v)"

lemma dset_entries: "(k, v) \<in> set (dset j w d) \<Longrightarrow> (k, v) = (j, w) \<or> (k, v) \<in> set d"
  by (induction d) (auto split: if_splits)

lemma construct_well_formed:
  assumes "\<And>s v. inc s = Inr v \<Longrightarrow> well_formed v"
  shows "construct inc n = Inr v \<Longrightarrow> well_formed v"
    and "construct_items inc ns = Inr vs \<Longrightarrow> well_formed (Values vs)"
    and "construct_entries inc es d = Inr d' \<Longrightarrow> well_formed (Table d) \<Longrightarrow> well_formed (Table d')"
  using assms
proof (induction inc n and inc ns and inc es d arbitrary: v and vs and d' rule: construct_construct_items_construct_entries.induct)
  case (8 inc k n es d)
  then obtain w where w: "construct inc n = Inr w" "construct_entries inc es (dset k w d) = Inr d'" by (auto simp: rbind_eq_Inr)
  have "well_formed (Table (dset k w d))" using 8(1) [OF w(1) 8(5)] 8(4) by (auto dest!: dset_entries)
  with 8(2) [OF w(2) _ 8(5)] show ?case .
qed (auto simp: rbind_eq_Inr)

lemma load_yaml_well_formed: "load_yaml files d p = Inr v \<Longrightarrow> well_formed v"
proof (induction d arbitrary: p v)
  case (Suc d)
  then obtain n where "construct (\<lambda>s. load_yaml files d (path_join (butlast p) s)) n = Inr v"
    by (auto split: option.splits file_content.splits)
  from construct_well_formed(1) [OF Suc.IH this] show ?case .
qed simp

text \<open>C36 A loaded experiment is a dictionary in which, as in everything inside it, no key occurs twice, and whose name is the one
  that was asked for whatever the file says; it comes from the \<^verbatim>\<open>.yaml\<close> file if there is one and else from the \<^verbatim>\<open>.yml\<close> file.\<close>

theorem loaded_experiment_typed:
  assumes "load_experiment files depth dir x = Inr (Some (d, p))"
  shows "well_formed (Table d) \<and> dget d ''name'' = Some (Value (PStr x)) \<and>
    p = path_join dir (x @ (if files (path_join dir (x @ ''.yaml'')) \<noteq> None then ''.yaml'' else ''.yml'')) \<and>
    (\<exists>d'. load_yaml files depth p = Inr (Table d') \<and> (\<forall>k. k \<noteq> ''name'' \<longrightarrow> dget d k = dget d' k))"
proof -
  define q where "q = path_join dir (x @ (if files (path_join dir (x @ ''.yaml'')) \<noteq> None then ''.yaml'' else ''.yml''))"
  from assms have n: "named_experiment files depth x q = Inr (Some (d, p))"
    by (simp add: load_experiment_def q_def Let_def split: if_splits)
  then obtain v where v: "load_yaml files depth q = Inr v" "(case v of Table d \<Rightarrow> Inr (Some (dset ''name'' (Value (PStr x)) d, q))
      | _ \<Rightarrow> Inl (TypeError ''object does not support item assignment'')) = Inr (Some (d, p))"
    unfolding named_experiment_def rbind_eq_Inr by (elim exE conjE)
  from v(2) obtain d' where d0: "v = Table d'" "d = dset ''name'' (Value (PStr x)) d'" and p: "p = q" by (cases v) auto
  with v(1) have d': "load_yaml files depth p = Inr (Table d')" "d = dset ''name'' (Value (PStr x)) d'" by simp_all
  have "well_formed (Table d)" using load_yaml_well_formed [OF d'(1)] by (auto simp: d'(2) dest!: dset_entries)
  moreover have "dget d ''name'' = Some (Value (PStr x))" "\<forall>k. k \<noteq> ''name'' \<longrightarrow> dget d k = dget d' k" by (simp_all add: d'(2))
  ultimately show ?thesis using d'(1) unfolding p q_def by blast
qed

section \<open>Witnesses\<close>

definition sample_files :: files where
  "sample_files = [[''exp'', ''tpcc.yaml''] \<mapsto> Document (Entries [(''name'', Leaf (PStr ''x'')), (''benchmark'', Include ''common/base.yaml'')]),
     [''exp'', ''common'', ''base.yaml''] \<mapsto> Document (Items [Include ''leaf.yaml'', Leaf PNone]),
     [''exp'', ''common'', ''leaf.yaml''] \<mapsto> Document (Leaf (PInt 1)),
     [''exp'', ''loop.yaml''] \<mapsto> Document (Items [Include ''./common/back.yaml'']),
     [''exp'', ''common'', ''back.yaml''] \<mapsto> Document (Include ''/exp/loop.yaml'')]"

lemma sample_paths:
  "path_join [''exp''] ''common/base.yaml'' = [''exp'', ''common'', ''base.yaml'']"
  "path_join [''exp'', ''common''] ''leaf.yaml'' = [''exp'', ''common'', ''leaf.yaml'']"
  "path_join [''exp''] ''./common/back.yaml'' = [''exp'', ''common'', ''back.yaml'']"
  "path_join [''exp'', ''common''] ''/exp/loop.yaml'' = [''exp'', ''loop.yaml'']"
  "path_join [''exp''] ''tpcc.yaml'' = [''exp'', ''tpcc.yaml'']"
  by code_simp+

lemma include_cycle_fails_witness:
  "\<exists>e. load_yaml sample_files 1000 [''exp'', ''loop.yaml''] = Inl e"
proof (rule include_cycle_fails)
  have "reads_file sample_files [''exp'', ''loop.yaml''] [''exp'', ''common'', ''back.yaml'']"
    by (simp add: reads_file_def sample_files_def sample_paths)
  moreover have "reads_file sample_files [''exp'', ''common'', ''back.yaml''] [''exp'', ''loop.yaml'']"
    by (simp add: reads_file_def sample_files_def sample_paths)
  ultimately show "(reads_file sample_files)\<^sup>+\<^sup>+ [''exp'', ''loop.yaml''] [''exp'', ''loop.yaml'']" by (rule tranclp.trancl_into_trancl [OF tranclp.r_into_trancl])
qed

lemma sample_loaded: "\<exists>d. load_experiment sample_files 9 [''exp''] ''tpcc'' = Inr (Some (d, [''exp'', ''tpcc.yaml'']))"
  by (simp add: load_experiment_def Let_def named_experiment_def sample_paths sample_files_def eval_nat_numeral)

lemma loaded_experiment_typed_witness:
  "\<exists>d. load_experiment sample_files 3 [''exp''] ''tpcc'' = Inr (Some (d, [''exp'', ''tpcc.yaml''])) \<and>
     dget d ''name'' = Some (Value (PStr ''tpcc'')) \<and> dget d ''benchmark'' = Some (Values [Value (PInt 1), Value PNone])"
proof -
  let ?d = "[(''name'', Value (PStr ''tpcc'')), (''benchmark'', Values [Value (PInt 1), Value PNone])]"
  have l: "load_experiment sample_files 3 [''exp''] ''tpcc'' = Inr (Some (?d, [''exp'', ''tpcc.yaml'']))"
    by (simp add: load_experiment_def Let_def named_experiment_def sample_paths sample_files_def numeral_3_eq_3)
  from loaded_experiment_typed [OF l] have "dget ?d ''name'' = Some (Value (PStr ''tpcc''))" by blast
  with l show ?thesis by (intro exI [of _ ?d]) simp
qed

end
