(* ===== verification/Experiment_Fields.thy ===== *)
theory Experiment_Fields
  imports Experiment_File Bench_Args
begin

text \<open>
  The fields of a loaded experiment, as \<^verbatim>\<open>benchmark_args\<close>, \<^verbatim>\<open>to_named_value\<close>, \<^verbatim>\<open>replace_values\<close> and \<^verbatim>\<open>main\<close> of
  \<^verbatim>\<open>tools/experiment.py\<close> take them out of the dictionary. A missing key is kept as missing, because the code
  raises when it gets there. A file in which a part has a type other than those the class
  \<^verbatim>\<open>Experiment\<close> declares, or in which a key such as the name of a parameter object is missing, is outside the model (\<open>None\<close>).
\<close>

section \<open>Parameter values\<close>

text \<open>A scalar, or an object with a name and possibly a value.\<close>

fun spec_of :: "yaml_data \<Rightarrow> spec option" where
  "spec_of (Value x) = Some (Plain x)"
| "spec_of (Values vs) = None"
| "spec_of (Table d) = (case dget d ''name'' of
     Some (Value (PStr n)) \<Rightarrow> (case dget d ''value'' of
         None \<Rightarrow> Some (Named \<lparr>nv_name = n, nv_value = None\<rparr>)
       | Some (Value v) \<Rightarrow> Some (Named \<lparr>nv_name = n, nv_value = Some v\<rparr>)
       | _ \<Rightarrow> None)
   | _ \<Rightarrow> None)"

definition entries_of :: "(yaml_data \<Rightarrow> 'a option) \<Rightarrow> (string, yaml_data) dict \<Rightarrow> (string, 'a) dict option" where
  "entries_of f d = those (map (\<lambda>(k, v). map_option (Pair k) (f v)) d)"

text \<open>\<^verbatim>\<open>values\<close>, a list or a single value.\<close>

fun value_field_of :: "yaml_data \<Rightarrow> value_field option" where
  "value_field_of (Values vs) = map_option VList (those (map spec_of vs))"
| "value_field_of v = map_option VOne (spec_of v)"

fun param_key_of :: "yaml_data \<Rightarrow> param_key option" where
  "param_key_of (Value (PStr k)) = Some (KeyName k)"
| "param_key_of (Table d) = (case dget d ''name'' of
     Some (Value (PStr n)) \<Rightarrow> (case dget d ''always_used_in_tag'' of
         None \<Rightarrow> Some (KeyObj n False)
       | Some (Value x) \<Rightarrow> Some (KeyObj n (py_truth x))
       | _ \<Rightarrow> None)
   | _ \<Rightarrow> None)"
| "param_key_of _ = None"

section \<open>Replacement rules\<close>

fun spec_table :: "yaml_data \<Rightarrow> (string, spec) dict option" where
  "spec_table (Table d) = entries_of spec_of d"
| "spec_table _ = None"

text \<open>\<^verbatim>\<open>replace.get("match") or []\<close>\<close>

definition match_of :: "(string, yaml_data) dict \<Rightarrow> match_spec option" where
  "match_of d = (case dget d ''match'' of
     None \<Rightarrow> Some MAbsent
   | Some (Value x) \<Rightarrow> Some (if py_truth x then MOther else MAbsent)
   | Some (Table t) \<Rightarrow> Some (if t = [] then MAbsent else MOther)
   | Some (Values vs) \<Rightarrow> if vs = [] then Some MAbsent else map_option MList (those (map spec_table vs)))"

fun replace_of :: "yaml_data \<Rightarrow> replace option" where
  "replace_of (Table d) = (case match_of d of
     None \<Rightarrow> None
   | Some m \<Rightarrow> (case dget d ''set'' of
       None \<Rightarrow> Some \<lparr>rp_match = m, rp_set = None\<rparr>
     | Some v \<Rightarrow> map_option (\<lambda>kvs. \<lparr>rp_match = m, rp_set = Some kvs\<rparr>) (spec_table v)))"
| "replace_of _ = None"

text \<open>\<^verbatim>\<open>exp.get("replace") or []\<close>\<close>

definition replaces_of :: "(string, yaml_data) dict \<Rightarrow> replace list option" where
  "replaces_of d = (case dget d ''replace'' of
     None \<Rightarrow> Some []
   | Some (Value x) \<Rightarrow> if py_truth x then None else Some []
   | Some (Table t) \<Rightarrow> if t = [] then Some [] else None
   | Some (Values vs) \<Rightarrow> those (map replace_of vs))"

section \<open>The experiment\<close>

definition scalar_keys :: "string list" where
  "scalar_keys = [''dbtype'', ''benchmark'', ''scalefactor'', ''time'', ''rate'', ''isolation'', ''reload_every'']"

fun scalar_of :: "yaml_data \<Rightarrow> pval option" where
  "scalar_of (Value x) = Some x"
| "scalar_of _ = None"

definition optional :: "('a \<Rightarrow> 'b option) \<Rightarrow> 'a option \<Rightarrow> 'b option option" where
  "optional f x = (case x of None \<Rightarrow> Some None | Some y \<Rightarrow> map_option Some (f y))"

fun param_keys_of :: "yaml_data \<Rightarrow> param_key list option" where
  "param_keys_of (Values vs) = those (map param_key_of vs)"
| "param_keys_of _ = None"

fun param_values_of :: "yaml_data \<Rightarrow> (string, value_field) dict option" where
  "param_values_of (Table d) = entries_of value_field_of d"
| "param_values_of _ = None"

definition experiment_of :: "(string, yaml_data) dict \<Rightarrow> exp_file option" where
  "experiment_of d =
     (case (dget d ''name'', entries_of scalar_of (filter (\<lambda>(k, v). k \<in> set scalar_keys) d),
            optional param_keys_of (dget d ''param_keys''), optional param_values_of (dget d ''param_values''), replaces_of d) of
        (Some (Value (PStr n)), Some ss, Some pks, Some pvs, Some rs) \<Rightarrow>
          Some \<lparr>e_name = n, e_scalars = ss, e_param_keys = pks, e_param_values = pvs, e_replace = rs\<rparr>
      | _ \<Rightarrow> None)"

section \<open>Reading is lookup\<close>

lemma entries_of_get: "entries_of f d = Some e \<Longrightarrow> dget e k = Option.bind (dget d k) f"
  unfolding entries_of_def
  by (induction d arbitrary: e) (auto split: option.splits)

lemma filtered_get: "dget (filter (\<lambda>(k, v). P k) d) k = (if P k then dget d k else None)"
  by (induction d) auto

lemma entries_of_mem: "entries_of f d = Some e \<Longrightarrow> (k, v) \<in> set d \<Longrightarrow> f v \<noteq> None"
  unfolding entries_of_def by (induction d arbitrary: e) (auto split: option.splits)

text \<open>What the model reads under a key is what stands under it in the file.\<close>

lemma experiment_fields:
  assumes "experiment_of d = Some e"
  shows "dget d ''name'' = Some (Value (PStr (e_name e)))"
    and "k \<in> set scalar_keys \<Longrightarrow> dget d k = map_option Value (dget (e_scalars e) k)"
    and "dget d ''param_keys'' = None \<longleftrightarrow> e_param_keys e = None"
proof -
  from assms obtain ss where ss: "entries_of scalar_of (filter (\<lambda>(k, v). k \<in> set scalar_keys) d) = Some ss" "e_scalars e = ss"
    and n: "dget d ''name'' = Some (Value (PStr (e_name e)))"
    and pk: "optional param_keys_of (dget d ''param_keys'') = Some (e_param_keys e)"
    by (auto simp: experiment_of_def split: option.splits yaml_data.splits pval.splits)
  show "dget d ''name'' = Some (Value (PStr (e_name e)))" by (rule n)
  show "dget d ''param_keys'' = None \<longleftrightarrow> e_param_keys e = None"
    using pk by (cases "dget d ''param_keys''"; cases "e_param_keys e") (auto simp: optional_def)
  assume k: "k \<in> set scalar_keys"
  have g: "dget (e_scalars e) k = Option.bind (dget d k) scalar_of"
    using entries_of_get [OF ss(1), of k] k by (simp add: ss(2) filtered_get)
  show "dget d k = map_option Value (dget (e_scalars e) k)"
  proof (cases "dget d k")
    case (Some v)
    then have "(k, v) \<in> set (filter (\<lambda>(k, v). k \<in> set scalar_keys) d)" using k by (auto dest: map_of_SomeD)
    then have "scalar_of v \<noteq> None" by (rule entries_of_mem [OF ss(1)])
    then obtain x where "v = Value x" by (cases v) auto
    with Some g show ?thesis by simp
  qed (simp add: g)
qed

end
