(* ===== verification/Experiment_Cli.thy ===== *)
theory Experiment_Cli
  imports Runner Argparse Experiment_Fields
begin

text \<open>
  The command line of \<^verbatim>\<open>tools/experiment.py\<close> and the script: the arguments, the experiment file and the
  progress file it uses.
\<close>

section \<open>The parser\<close>

definition value_option :: "string list \<Rightarrow> string \<Rightarrow> action \<Rightarrow> option_spec" where
  "value_option names d a = \<lparr>option_names = names, dest = d, action = a, choices = []\<rparr>"

definition experiment_parser :: parser where
  "experiment_parser = \<lparr>options = [help_option,
     value_option [''--set'', ''-s''] ''set'' Append,
     value_option [''--prefix''] ''prefix'' Store,
     value_option [''--progress''] ''progress'' Store,
     value_option [''--dry-run''] ''dry_run'' Flag,
     value_option [''--new'', ''-n''] ''new'' Flag,
     value_option [''-y''] ''y'' Flag,
     value_option [''--output'', ''-o''] ''output'' Store,
     value_option [''--skip-create-load''] ''skip_create_load'' Flag,
     value_option [''--sload''] ''sload'' Flag,
     value_option [''--minio''] ''minio'' Store,
     value_option [''--logs-per-sec''] ''logs_per_sec'' Number,
     value_option [''--interactive'', ''-i''] ''interactive'' Flag], positionals = [(''experiment'', [])]\<rparr>"

definition experiment_defaults :: args where
  "experiment_defaults = [(''experiment'', Text ''default''), (''set'', Texts []), (''prefix'', Text []), (''logs_per_sec'', Num 0),
     (''minio'', Text ''localhost:9000'')]"

text \<open>
  With \<^verbatim>\<open>nargs="?"\<close> a missing positional argument is no error but leaves the default: a command line that is
  refused is tried again without the positional, which refuses it again unless only the positional was missing.
\<close>

definition parse_optional :: "parser \<Rightarrow> args \<Rightarrow> string list \<Rightarrow> args parsed" where
  "parse_optional p ns argv = (case parse_args p ns argv of
     Exits e \<Rightarrow> if e = 2 then parse_args (p\<lparr>positionals := []\<rparr>) ns argv else Exits e
   | x \<Rightarrow> x)"

record experiment_args =
  a_experiment :: string
  a_progress :: "string option"
  a_output :: "string option"
  a_minio :: string
  a_opts :: run_opts

definition text_of :: "args \<Rightarrow> string \<Rightarrow> string option" where
  "text_of ns d = (case dget ns d of Some (Text s) \<Rightarrow> Some s | _ \<Rightarrow> None)"

definition flag_of :: "args \<Rightarrow> string \<Rightarrow> bool" where
  "flag_of ns d \<longleftrightarrow> dget ns d = Some (Bool True)"

text \<open>\<^verbatim>\<open>if args.output\<close>: an empty path collects nothing.\<close>

definition experiment_args_of :: "args \<Rightarrow> experiment_args" where
  "experiment_args_of ns = \<lparr>
     a_experiment = the (text_of ns ''experiment''), a_progress = text_of ns ''progress'', a_output = text_of ns ''output'',
     a_minio = the (text_of ns ''minio''),
     a_opts = \<lparr>o_set = (case dget ns ''set'' of Some (Texts l) \<Rightarrow> l | _ \<Rightarrow> []), o_prefix = the (text_of ns ''prefix''),
       o_dry_run = flag_of ns ''dry_run'', o_new = flag_of ns ''new'', o_y = flag_of ns ''y'',
       o_output = (text_of ns ''output'' \<noteq> None \<and> text_of ns ''output'' \<noteq> Some []),
       o_skip_create_load = flag_of ns ''skip_create_load'', o_sload = flag_of ns ''sload'',
       o_logs_per_sec = (case dget ns ''logs_per_sec'' of Some (Num i) \<Rightarrow> i | _ \<Rightarrow> 0),
       o_interactive = flag_of ns ''interactive''\<rparr>\<rparr>"

definition experiment_cli :: "string list \<Rightarrow> experiment_args parsed" where
  "experiment_cli argv = (case parse_optional experiment_parser experiment_defaults argv of
     Parsed ns \<Rightarrow> Parsed (experiment_args_of ns)
   | Exits e \<Rightarrow> Exits e
   | Outside \<Rightarrow> Outside)"

section \<open>The script\<close>

text \<open>\<^verbatim>\<open>f"{args.progress or args.experiment}.csv"\<close>\<close>

definition progress_file_name :: "experiment_args \<Rightarrow> string" where
  "progress_file_name a = (case a_progress a of Some (c # s) \<Rightarrow> c # s | _ \<Rightarrow> a_experiment a) @ ''.csv''"

text \<open>
  The script up to the code it exits with; \<open>progress\<close> gives the contents of the files of the progress directory.
  The result is \<open>None\<close> outside the model: command lines that \<open>Argparse\<close> leaves out and files whose fields have other types.
\<close>

definition experiment_script :: "'w env \<Rightarrow> files \<Rightarrow> nat \<Rightarrow> path \<Rightarrow> string list \<Rightarrow> main_config \<Rightarrow>
    string \<Rightarrow> (string \<Rightarrow> string option) \<Rightarrow> 'w \<Rightarrow> string list \<Rightarrow> (int res \<times> 'w) option" where
  "experiment_script env files depth dir contexts yaml timestamp progress w argv = (case experiment_cli argv of
     Outside \<Rightarrow> None
   | Exits e \<Rightarrow> Some (Inl (SystemExit e), w)
   | Parsed a \<Rightarrow>
       (let main = (\<lambda>ex. case experiment_main env (a_opts a) ex contexts yaml timestamp (progress (progress_file_name a)) w of
             (r, st) \<Rightarrow> Some (r, rs_world st))
        in case load_experiment files depth dir (a_experiment a) of
          Inl e \<Rightarrow> Some (Inl e, w)
        | Inr None \<Rightarrow> main None
        | Inr (Some (d, p)) \<Rightarrow> (case experiment_of d of None \<Rightarrow> None | Some e \<Rightarrow> main (Some e))))"

end
