(* ===== verification/Spec2Isabelle.thy ===== *)
theory Spec2Isabelle
  imports Config Params Bench_Args Csv Progress Runner Process Benchmark Log_Follow Bench_Logs Argparse Bench_Cli Session Neonclone Behaviour Deploy Deploy_Stages Neonctl Neonctl_Regions Collector Collector_Runs Monitor Monitor_Status Monitor_Logs Kubectl Eks Experiment_File Experiment_Fields Experiment_Cli
begin

text \<open>
  Verification of the SunStorm experiment tools, the Python scripts under \<^verbatim>\<open>src/tools\<close>.

  The tools bring SunStorm, a geo-distributed database, onto Kubernetes clusters in several regions,
  run sets of benchmarks on it, collect the results, and control a local cluster for development.
  \<^verbatim>\<open>experiment.py\<close> loads an experiment file, generates the benchmarks it describes and calls \<^verbatim>\<open>benchmark.main\<close>
  for each, keeping a progress file and collecting the results from MinIO. \<^verbatim>\<open>benchmark.py\<close> starts the jobs
  of one operation with helm and kubectl and follows their logs. \<^verbatim>\<open>deploy.py\<close> deploys the database
  in five stages, \<^verbatim>\<open>eks.py\<close> creates the clusters, \<^verbatim>\<open>monitor.py\<close> and \<^verbatim>\<open>kubectl.py\<close> look at them. \<^verbatim>\<open>neonctl.py\<close> runs a local cluster out of
  clones that \<^verbatim>\<open>neonclone.py\<close> makes of one Neon directory. \<^verbatim>\<open>utils.py\<close> holds what they share.

  \<^bold>\<open>Shared foundations\<close>

  \<^item> \<open>Py_Prelude\<close>: exceptions as values (\<open>exn\<close>, \<open>res\<close>), loops that may raise (\<open>rfold\<close>, \<open>rmap\<close>), generators, and
    dictionaries as association lists in insertion order. Locale \<open>py_dict\<close> states their laws and \<open>shrinking\<close> what makes steps end.
  \<^item> \<open>Py_Str\<close>, \<open>Py_Value\<close>: strings, decimal text, the scalars of YAML and CSV files; Python integers are \<open>int\<close>, floats are
    the rationals that a double represents.
  \<^item> \<open>Argparse\<close>: \<^verbatim>\<open>argparse\<close> as the tools use it, from command line to namespace. Command lines it does not decide are \<open>Outside\<close>, and
    a script started with one has no ending in the model.
  \<^item> \<open>Process\<close>: \<^verbatim>\<open>run_subprocess\<close> of \<^verbatim>\<open>utils.py\<close> and thread pools. A task is a program of commands, a command ends with any return
    code or does not start; \<open>pool_step\<close> is the step relation of a pool, \<open>pool_run\<close> a complete run of it, \<open>phases_run\<close> a function
    that uses pools and runs commands itself. That a pool never runs more tasks than it has workers is built into \<open>pool_step\<close>.
  \<^item> \<open>Behaviour\<close>: functions with effects as the relation between their events and their ending, with sequencing (\<open>and_then\<close>, \<open>in_order\<close>) and
    pools that read the results (\<open>in_pool\<close>). Locale \<open>task_kind\<close> says what a caller knows of one kind of tasks.

  \<^bold>\<open>Configuration\<close>

  \<^item> \<open>Config\<close>: \<^verbatim>\<open>get_main_config\<close>, \<^verbatim>\<open>get_namespaces\<close>, \<^verbatim>\<open>Kube.get_context\<close>, \<^verbatim>\<open>Kube.get_pods\<close> of \<^verbatim>\<open>utils.py\<close>. Shown: where a context comes from, which
    namespaces there are, which errors there are.

  \<^bold>\<open>Experiments\<close> (\<^verbatim>\<open>experiment.py\<close>)

  \<^item> \<open>Experiment_File\<close>: \<^verbatim>\<open>load_experiment\<close> with \<^verbatim>\<open>!include\<close>, over a file system of parsed documents. \<open>load_yaml\<close> has a limit on the nesting of
    inclusions, as the interpreter has; it implements \<open>file_means\<close>, which has none, and a cycle of inclusions fails with every limit.
  \<^item> \<open>Experiment_Fields\<close>: the accesses that take the loaded dictionary apart. A file whose parts have other types than the class
    \<^verbatim>\<open>Experiment\<close> declares is outside.
  \<^item> \<open>Params\<close>, \<open>Bench_Args\<close>: \<^verbatim>\<open>to_named_value\<close>, \<^verbatim>\<open>replace_values\<close> and the generator \<^verbatim>\<open>benchmark_args\<close>. Shown: the replacement loops compute the
    meaning of the rules, the combinations are the full product in order, every yielded item in closed form, every error.
  \<^item> \<open>Csv\<close>, \<open>Progress\<close>: \<^verbatim>\<open>Progress\<close> over the text of the file. Locale \<open>record_store\<close> is the contract the runner relies on; the laws of lookup
    and the round trip through CSV are shown. Cells beyond the header of a row are dropped, where \<^verbatim>\<open>csv\<close> keeps them under the key \<^verbatim>\<open>None\<close>.
  \<^item> \<open>Runner\<close>: \<^verbatim>\<open>main\<close>. The environment (\<^verbatim>\<open>benchmark.main\<close>, the user, the connection to MinIO) is a parameter. Shown: the
    discipline of reloading under every pattern of failures, what a failure records, that a finished session is not run again. A \<^verbatim>\<open>reload_every\<close> that
    is a float is read as its floor.
  \<^item> \<open>Experiment_Cli\<close>: the command line and the script as a whole.
  \<^item> \<open>Collector\<close>, \<open>Collector_Runs\<close>: \<^verbatim>\<open>ResultCollector\<close> as a step relation over the main thread, the pool and the counter; MinIO is a parameter.
    Shown: what was saved is complete, a failure before the pool closes keeps \<^verbatim>\<open>join\<close> from returning, as many collections as workers deadlock, and
    otherwise every run ends, by the decreasing \<open>weight\<close>.

  \<^bold>\<open>Benchmarks\<close> (\<^verbatim>\<open>benchmark.py\<close>)

  \<^item> \<open>Benchmark\<close>: \<^verbatim>\<open>run_benchmark\<close>, \<^verbatim>\<open>Operation.run\<close> up to \<^verbatim>\<open>do\<close>, and \<^verbatim>\<open>do\<close> of the five operations. Shown: the commands in order and how each
    failure ends them, the scope of every command in every interleaving, per-region settings, and some faults.
  \<^item> \<open>Log_Follow\<close>: \<^verbatim>\<open>Kube.print_logs\<close> of \<^verbatim>\<open>utils.py\<close> with its threads, the counter and the exit event.
  \<^item> \<open>Bench_Logs\<close>: \<^verbatim>\<open>get_job_logs\<close> with its waiting loop (\<open>wait_pods\<close>, a partial function whose \<open>None\<close> is waiting for ever) and its ten attempts
    (\<open>open_log\<close>), the regular expression of the result line, and the totals in doubles, infinite from \<open>2 ^ 1024\<close> on.
  \<^item> \<open>Bench_Cli\<close>: \<^verbatim>\<open>main\<close> with the command line and the \<^verbatim>\<open>log\<close> methods: when it ends and when it waits for ever.
  \<^item> \<open>Session\<close> and the end of this theory: the runner on top of the tool, so that the scope of the commands holds for the whole script.

  \<^bold>\<open>Deployment and clusters\<close>

  \<^item> \<open>Deploy\<close>, \<open>Deploy_Stages\<close>: all of \<^verbatim>\<open>deploy.py\<close>. The answers of AWS, DNS and the Kubernetes API are inputs or part of the events; \<open>try_from\<close>
    is a partial function, as \<^verbatim>\<open>try_with_timeout\<close> asks until it has an answer or the clock says so. Shown: every command is aimed at a region or at a namespace
    in the context of its region, the order of uninstalling and installing, deletion of all namespaces before creation.
  \<^item> \<open>Eks\<close>: all of \<^verbatim>\<open>eks.py\<close>. The context names are read again after eksctl, as the event \<open>Reads_contexts\<close>.
  \<^item> \<open>Kubectl\<close>: all of \<^verbatim>\<open>kubectl.py\<close>, with the positional arguments that argparse collects around \<^verbatim>\<open>--\<close>.
  \<^item> \<open>Monitor\<close>, \<open>Monitor_Status\<close>, \<open>Monitor_Logs\<close>: the status of pods, the tables that threads fill, the refreshing display
    (\<open>status_loop\<close>, a partial function) and the logs of \<^verbatim>\<open>monitor.py\<close>.

  \<^bold>\<open>Local clusters\<close>

  \<^item> \<open>Neonclone\<close>: all of \<^verbatim>\<open>neonclone.py\<close> on a directory of two configuration files and the safekeepers. Shown: updates in nested documents, renaming
    in sequence amounts to renaming at once, both files of a clone agree.
  \<^item> \<open>Neonctl\<close>, \<open>Neonctl_Regions\<close>: the commands of \<^verbatim>\<open>neonctl.py\<close> on a data directory; \<^verbatim>\<open>neon_local\<close>, \<^verbatim>\<open>xactserver\<close>, \<^verbatim>\<open>os.kill\<close> and the removal of
    directories are parameters. Shown: ports and addresses of the regions, what a failed start leaves, dry runs.

  \<^bold>\<open>Interfaces\<close>. \<open>py_dict\<close> is interpreted on the dictionaries of the model (\<open>pd\<close>), \<open>record_store\<close> on \<^verbatim>\<open>Progress\<close> (\<open>store\<close>), \<open>shrinking\<close> on thread pools
  (\<open>tp\<close>), log readers (\<open>lf\<close>) and the collector (\<open>rc\<close>), \<open>task_kind\<close> on the tasks of the deployment (\<open>cmd\<close>, \<open>del\<close>, \<open>cre\<close>) and
  of the EKS script (\<open>generating\<close>, \<open>creating\<close>, \<open>deleting\<close>).

  \<^bold>\<open>Not modelled\<close>: the transaction server in Rust; printing, colours, progress bars and log messages; parsing of YAML, TOML and JSON text, which
  libraries do; the classes that register commands and loggers in \<^verbatim>\<open>utils.py\<close>, beyond their effect in \<open>Argparse\<close>; the text of the files helm reads; shell
  scripts and deployment charts. Threads interleave at the steps of the relations above; that Python runs every thread that can run is not assumed
  unless a theorem says so: theorems speak of all complete runs or of all reachable states.
\<close>

section \<open>Sessions\<close>

text \<open>What a session does stays in scope.\<close>

lemma session_scoped:
  assumes "conforms st api env" and "plain_names e" and "\<forall>s \<in> set (o_set opt). plain s"
    and "run_benchmarks env opt e n timestamp p w = (res, s)" and "scoped st (o_dry_run opt) w"
  shows "scoped st (o_dry_run opt) (rs_world s)"
proof -
  have "keeps env (o_dry_run opt) (scoped st (o_dry_run opt))"
    unfolding keeps_def
  proof (intro conjI allI impI)
    fix argv w
    assume a: "session_line (o_dry_run opt) argv" "scoped st (o_dry_run opt) w"
    then obtain opts where b: "bench_cli argv = Parsed opts" "bo_dry_run opts = o_dry_run opt"
      by (auto simp: session_line_def bench_cli_render)
    have new: "scoped st (o_dry_run opt) [ls]" if "main_ends st api argv ls r" for ls r
      using that b run_in_scope [of st api opts ls] by (fastforce simp: main_ends_def scoped_def)
    consider (ends) ls where "main_ends st api argv ls (fst (bench env argv w))" "snd (bench env argv w) = w @ [ls]"
      | (waits) "snd (bench env argv w) = w" using assms(1) unfolding conforms_def by blast
    then show "scoped st (o_dry_run opt) (snd (bench env argv w))"
    proof cases
      case ends
      then show ?thesis using a(2) new [OF ends(1)] by (simp add: scoped_def)
    next
      case waits
      then show ?thesis using a(2) by simp
    qed
  qed (use assms(1) in \<open>simp add: conforms_def\<close>)
  from session_keeps [OF this assms(3,2,4,5)] show ?thesis .
qed

lemma main_scoped:
  assumes "conforms st api env" and "\<forall>e. ex = Some e \<longrightarrow> plain_names e" and "\<forall>s \<in> set (o_set opt). plain s"
    and "experiment_main env opt ex cs y timestamp file w = (res, s)" and "scoped st (o_dry_run opt) w"
  shows "scoped st (o_dry_run opt) (rs_world s)"
proof (cases "rs_world s = w")
  case False
  have same: "snd (ask env v) = v" "snd (check_connection env v) = v" for v using assms(1) by (simp_all add: conforms_def)
  from assms(4) False obtain e n p where "ex = Some e" "run_benchmarks env opt e n timestamp p w = (res, s)"
    using same by (auto simp: experiment_main_def Let_def split: option.splits sum.splits prod.splits bool.splits if_splits; metis snd_conv)
  with assms show ?thesis by (blast intro: session_scoped)
qed (simp add: assms(5))

text \<open>C3 Every command that the experiment script executes, whatever benchmarks the loaded file describes with parameter names
  that are no options (and settings that are none), however its tasks
  interleave and whatever fails, is helm or kubectl on a namespace of the configuration, kubectl with the
  context of that namespace's region; and in a dry run nothing but helm is run.\<close>

theorem script_commands:
  assumes "conforms st api env" and "experiment_cli argv = Parsed a"
    and "\<forall>d p e. load_experiment fs depth dir (a_experiment a) = Inr (Some (d, p)) \<and> experiment_of d = Some e \<longrightarrow> plain_names e" and "\<forall>s \<in> set (o_set (a_opts a)). s = [] \<or> hd s \<noteq> CHR ''-''"
    and "experiment_script env fs depth dir cs y timestamp progress [] argv = Some (res, w)"
    and "ls \<in> set w" and "l \<in> set ls" and "(i, c, rc) \<in> set l"
  shows "\<exists>cfg nss ns r. get_main_config (contexts st) (yaml st) = Inr cfg \<and> get_namespaces cfg = Inr nss \<and>
    ((ns = ''global'' \<and> global_region cfg = Some r) \<or> (\<exists>info. (ns, info) \<in> set nss \<and> ni_region info = r)) \<and>
    (take 5 c = [''helm'', ''template'', base_path st @ ''/helm-benchbase'', ''--namespace'', ns] \<or>
     (\<exists>ctx verb. c = [''kubectl'', verb, ''--namespace'', ns, ''-f'', ''-'', ''--context'', ctx] \<and>
        get_context (contexts st) (yaml st) r = Inr ctx \<and> \<not> o_dry_run (a_opts a)))"
proof -
  have "w \<noteq> []" using assms(6) by auto
  with assms(5) obtain x where x: "load_experiment fs depth dir (a_experiment a) = Inr x"
    by (cases "load_experiment fs depth dir (a_experiment a)") (auto simp: experiment_script_def assms(2))
  define pf where "pf = progress (progress_file_name a)"
  obtain ex s where m: "experiment_main env (a_opts a) ex cs y timestamp pf [] = (res, s)" "w = rs_world s"
    and names: "\<forall>e. ex = Some e \<longrightarrow> plain_names e"
  proof (cases x)
    case None
    with assms(5) that [of None] show thesis
      by (auto simp: experiment_script_def assms(2) x pf_def Let_def split: prod.splits)
  next
    case (Some dp)
    obtain d p where dp: "dp = (d, p)" by force
    obtain e where e: "experiment_of d = Some e"
      using assms(5) by (cases "experiment_of d") (auto simp: experiment_script_def assms(2) x Some dp)
    have "plain_names e" using assms(3) e by (simp add: x Some dp)
    with assms(5) that [of "Some e"] show thesis
      by (auto simp: experiment_script_def assms(2) x Some dp e pf_def Let_def split: prod.splits)
  qed
  have "scoped st (o_dry_run (a_opts a)) []" by (simp add: scoped_def)
  with m(1) have "scoped st (o_dry_run (a_opts a)) (rs_world s)"
    using main_scoped [OF assms(1) names _ m(1)] assms(4) by (auto simp: plain_def)
  with assms(6-8) m(2) have "in_scope st (o_dry_run (a_opts a)) c" by (fastforce simp: scoped_def)
  then show ?thesis unfolding in_scope_def .
qed

definition tiny_files :: files where
  "tiny_files = [[''exp'', ''tiny.yaml''] \<mapsto> Document (Entries [(''dbtype'', Leaf (PStr ''postgres'')), (''benchmark'', Leaf (PStr ''hot'')),
     (''scalefactor'', Leaf (PInt 1)), (''time'', Leaf (PInt 9)), (''rate'', Leaf (PInt 7)), (''isolation'', Leaf (PStr ''x'')),
     (''param_keys'', Items []), (''param_values'', Include ''values.yaml'')]),
     [''exp'', ''values.yaml''] \<mapsto> Document (Entries [])]"

lemma tiny_loaded:
  "\<exists>d. load_experiment tiny_files 9 [''exp''] ''tiny'' = Inr (Some (d, [''exp'', ''tiny.yaml''])) \<and> experiment_of d = Some tiny_experiment"
proof -
  have p: "path_join [''exp''] ''tiny.yaml'' = [''exp'', ''tiny.yaml'']" "path_join [''exp''] ''values.yaml'' = [''exp'', ''values.yaml'']"
    by code_simp+
  let ?d = "[(''dbtype'', Value (PStr ''postgres'')), (''benchmark'', Value (PStr ''hot'')), (''scalefactor'', Value (PInt 1)), (''time'', Value (PInt 9)),
    (''rate'', Value (PInt 7)), (''isolation'', Value (PStr ''x'')), (''param_keys'', Values []), (''param_values'', Table []), (''name'', Value (PStr ''tiny''))]"
  have "load_experiment tiny_files 9 [''exp''] ''tiny'' = Inr (Some (?d, [''exp'', ''tiny.yaml'']))"
    by (simp add: load_experiment_def Let_def named_experiment_def p tiny_files_def eval_nat_numeral)
  moreover have "experiment_of ?d = Some tiny_experiment" unfolding tiny_experiment_def by code_simp
  ultimately show ?thesis by blast
qed

lemma script_commands_witness:
  "\<exists>env res w ls l i c rc ns. conforms sample_site sample_job_api env \<and>
     experiment_script env tiny_files 9 [''exp''] (contexts sample_site) (yaml sample_site) ''t'' Map.empty []
       [''tiny'', ''--dry-run'', ''--new'', ''-y'', ''-s'', ''a=1''] = Some (res, w) \<and>
     ls \<in> set w \<and> l \<in> set ls \<and> (i, c, rc) \<in> set l \<and>
     take 5 c = [''helm'', ''template'', ''deploy/helm-benchbase'', ''--namespace'', ns]"
proof -
  obtain env where env: "conforms sample_site sample_job_api env" using conforms_exists by blast
  let ?p = "\<lparr>p_recs = [], p_file = None\<rparr>"
  obtain items fin where g: "benchmark_args tiny_experiment (Some []) (Some ''t'') = (items, fin)" by fastforce
  from tiny_items obtain item where item: "items = [item]"
    "common_args tiny_opts item = create_set_arg tiny_settings @ [''--dry-run'']" by (auto simp: g)
  have names: "plain_names tiny_experiment" by (simp add: plain_names_def tiny_experiment_def)
  have set: "\<forall>s \<in> set (o_set tiny_opts). s = [] \<or> hd s \<noteq> CHR ''-''" by (simp add: tiny_opts_def)
  then have set': "\<forall>s \<in> set (o_set tiny_opts). plain s" by (simp add: plain_def)
  have pi: "plain_item item" using generated_plain [OF names g] by (simp add: item)
  let ?s0 = "\<lparr>rs_progress = ?p, rs_counter = 0, rs_submitted = [], rs_world = []\<rparr> :: call_trace run_state"
  obtain i p where gi: "get_or_insert (bi_metadata item) ?p = (i, p)" by fastforce
  let ?s1 = "\<lparr>rs_progress = p, rs_counter = 0, rs_submitted = [], rs_world = []\<rparr>"
  have c: "did_something (rs_world (snd (call env (''create'' # common_args tiny_opts item) ?s1)))"
    unfolding item(2) by (rule conforms_call [OF env tiny_create_ends tiny_create_call])
  have t: "did_something (rs_world (snd (try_body env tiny_opts item i 0 ?s1)))"
    by (rule try_body_did_something [OF env pi set' _ _ _ c]) (simp_all add: tiny_opts_def)
  obtain o3 s3 where s3: "try_body env tiny_opts item i 0 ?s1 = (o3, s3)" by fastforce
  have st: "dget (p_recs p ! i) ''status'' = Some (PStr PENDING)"
    using tiny_pending by (simp add: g item(1) gi)
  have "did_something (rs_world (snd (run_items env tiny_opts 0 fin [item] ?s0)))"
    using t by (simp add: gi st s3 STATUSES_def PENDING_def DONE_def ERROR_def on_success_def on_error_def save_state_def
        change_record_def split: outcome.split option.split)
  moreover obtain res s where r: "run_benchmarks env tiny_opts tiny_experiment 0 ''t'' ?p [] = (res, s)" by fastforce
  ultimately have "did_something (rs_world s)"
    using g by (auto simp: run_benchmarks_def item(1) tiny_opts_def split: prod.splits ending.splits)
  then obtain ls l x where x: "ls \<in> set (rs_world s)" "l \<in> set ls" "x \<in> set l"
    unfolding did_something_def by (metis list.set_sel(1))
  obtain j c rc where j: "x = (j, c, rc)" by (cases x) auto
  have dry: "o_dry_run tiny_opts" by (simp add: tiny_opts_def)
  let ?argv = "[''tiny'', ''--dry-run'', ''--new'', ''-y'', ''-s'', ''a=1'']"
  define a where "a = \<lparr>a_experiment = ''tiny'', a_progress = None, a_output = None, a_minio = ''localhost:9000'', a_opts = tiny_opts\<rparr>"
  have cli: "experiment_cli ?argv = Parsed a" unfolding a_def tiny_opts_def by code_simp
  have opts: "a_opts a = tiny_opts" by (simp add: a_def)
  obtain d where d: "load_experiment tiny_files 9 [''exp''] (a_experiment a) = Inr (Some (d, [''exp'', ''tiny.yaml'']))"
    and td: "experiment_of d = Some tiny_experiment" using tiny_loaded by (auto simp: a_def)
  obtain cfg where cfg: "get_main_config (contexts sample_site) (yaml sample_site) = Inr cfg" using sample_config_found by blast
  have "experiment_main env tiny_opts (Some tiny_experiment) (contexts sample_site) (yaml sample_site) ''t'' None [] = (res, s)"
    using r by (simp add: experiment_main_def reload_every_def cfg start_progress_def tiny_opts_def tiny_experiment_def)
  then have script: "experiment_script env tiny_files 9 [''exp''] (contexts sample_site) (yaml sample_site) ''t'' Map.empty [] ?argv =
      Some (res, rs_world s)"
    by (simp add: experiment_script_def cli d opts td)
  have names': "\<forall>d p e. load_experiment tiny_files 9 [''exp''] (a_experiment a) = Inr (Some (d, p)) \<and> experiment_of d = Some e \<longrightarrow> plain_names e"
    using names by (simp add: d td)
  from script_commands [OF env cli names' set [folded opts] script x(1,2) x(3) [unfolded j]] obtain ns where
    "take 5 c = [''helm'', ''template'', base_path sample_site @ ''/helm-benchbase'', ''--namespace'', ns]"
    by (elim exE conjE disjE) (simp_all add: dry opts)
  then have "take 5 c = [''helm'', ''template'', ''deploy/helm-benchbase'', ''--namespace'', ns]"
    by (simp add: sample_site_def)
  with env script x j show ?thesis by blast
qed

end
